(* ===== verification/Go_Prelude.thy ===== *)
theory Go_Prelude
  imports Main "HOL-Library.Word" "HOL-Library.Sublist"
begin

text \<open>
  Shared vocabulary of the development: the pieces of the Go language and of its standard library
  that several components of restreamer rely on.

  \<^item> run-time panics as values (\<open>panic\<close>, results of type \<open>panic + 'a\<close>);
  \<^item> fixed-width integers (\<open>u64\<close>, \<open>u8\<close>, \<open>wrap64\<close> for the 64-bit \<open>int\<close>);
  \<^item> channels (\<open>chan\<close>), with the blocking, the non-blocking and the closed case of every
    operation;
  \<^item> HTTP headers, requests and response writers;
  \<^item> generic lemmas on lists and folds, and the simplification collections.
\<close>

named_theorems chan_defs \<open>definitions of the channel operations\<close>
named_theorems http_defs \<open>definitions of header and response writer operations\<close>

section \<open>Numbers and bytes\<close>

type_synonym u8 = "8 word"
type_synonym u64 = "64 word"
type_synonym bytes = "u8 list"

text \<open>Go's \<open>int\<close> is 64 bits wide on the platforms restreamer is released for: the result of an
  arithmetic operation is read back as a two's complement value.\<close>

definition wrap64 :: "int \<Rightarrow> int" where
  "wrap64 x = (x + 2 ^ 63) mod 2 ^ 64 - 2 ^ 63"

lemma wrap64_id [simp]: "- (2 ^ 63) \<le> x \<Longrightarrow> x < 2 ^ 63 \<Longrightarrow> wrap64 x = x"
  by (simp add: wrap64_def)

lemma wrap64_range: "- (2 ^ 63) \<le> wrap64 x \<and> wrap64 x < 2 ^ 63"
  unfolding wrap64_def
  using pos_mod_bound [of "2 ^ 64" "x + 2 ^ 63"] pos_mod_sign [of "2 ^ 64" "x + 2 ^ 63"]
  by simp

text \<open>A Go string is a sequence of bytes, as is a HOL \<open>string\<close>.\<close>

definition byte_of_char :: "char \<Rightarrow> u8" where
  "byte_of_char c = word_of_nat (of_char c)"

definition bytes_of :: "string \<Rightarrow> bytes" where
  "bytes_of s = map byte_of_char s"

lemma length_bytes_of [simp]: "length (bytes_of s) = length s"
  by (simp add: bytes_of_def)

lemma bytes_of_append [simp]: "bytes_of (s @ t) = bytes_of s @ bytes_of t"
  by (simp add: bytes_of_def)

lemma unat_byte_of_char: "unat (byte_of_char c) = of_char c"
  by (simp add: byte_of_char_def unat_of_nat)

lemma byte_of_char_inj: "byte_of_char c = byte_of_char d \<Longrightarrow> c = d"
  by (metis unat_byte_of_char of_char_eq_iff)

lemma bytes_of_inj: "bytes_of s = bytes_of t \<Longrightarrow> s = t"
  unfolding bytes_of_def by (rule map_injective) (auto intro: injI byte_of_char_inj)

section \<open>Panics\<close>

text \<open>A panic in a goroutine that nobody recovers ends the whole program. An operation that may
  panic has a result of type \<open>panic + 'a\<close>.\<close>

datatype panic =
    SendOnClosedChannel
  | CloseOfClosedChannel
  | NilDereference
  | IndexOutOfRange
  | ExplicitPanic string

type_synonym 'a go = "panic + 'a"

definition go_bind :: "'a go \<Rightarrow> ('a \<Rightarrow> 'b go) \<Rightarrow> 'b go" where
  "go_bind m f = (case m of Inl p \<Rightarrow> Inl p | Inr x \<Rightarrow> f x)"

lemma go_bind_simps [simp]:
  "go_bind (Inl p) f = Inl p"
  "go_bind (Inr x) f = f x"
  by (simp_all add: go_bind_def)

lemma go_bind_Inr_conv:
  "go_bind m f = Inr y \<longleftrightarrow> (\<exists>x. m = Inr x \<and> f x = Inr y)"
  by (cases m) auto

text \<open>A loop over a slice or over the keys of a map whose body may panic.\<close>

fun go_foreach :: "('a \<Rightarrow> 's \<Rightarrow> 's go) \<Rightarrow> 'a list \<Rightarrow> 's \<Rightarrow> 's go" where
  "go_foreach f [] s = Inr s"
| "go_foreach f (x # xs) s = go_bind (f x s) (go_foreach f xs)"

lemma go_foreach_append:
  "go_foreach f (xs @ ys) s = go_bind (go_foreach f xs s) (go_foreach f ys)"
proof (induction xs arbitrary: s)
  case Nil
  show ?case by simp
next
  case (Cons x xs)
  show ?case
    by (cases "f x s") (simp_all add: Cons.IH)
qed

text \<open>Invariant rule for such a loop: the invariant may mention what is left to do.\<close>

lemma go_foreach_invariant:
  assumes run: "go_foreach f xs s = Inr t"
    and start: "I xs s"
    and step: "\<And>x ys u v. I (x # ys) u \<Longrightarrow> f x u = Inr v \<Longrightarrow> I ys v"
  shows "I [] t"
  using run start
proof (induction xs arbitrary: s)
  case Nil
  then show ?case by simp
next
  case (Cons x xs)
  from Cons.prems(1) obtain u where u: "f x s = Inr u" "go_foreach f xs u = Inr t"
    by (auto simp: go_bind_Inr_conv)
  from Cons.IH [OF u(2) step [OF Cons.prems(2) u(1)]] show ?case .
qed

section \<open>Channels\<close>

text \<open>
  A channel holds a buffer of at most \<open>ccap\<close> values and a closed flag. \<open>cwaiting\<close> counts the
  receivers that are parked in a receive on the empty channel: a send hands its value over to a
  parked receiver even when the capacity is 0, so there is room as long as the buffer is shorter
  than \<open>ccap + cwaiting\<close>.
\<close>

record 'a chan =
  cbuf :: "'a list"
  ccap :: nat
  cclosed :: bool
  cwaiting :: nat

definition make_chan :: "nat \<Rightarrow> 'a chan" where
  [chan_defs]: "make_chan n = \<lparr>cbuf = [], ccap = n, cclosed = False, cwaiting = 0\<rparr>"

definition chan_room :: "'a chan \<Rightarrow> bool" where
  [chan_defs]: "chan_room c \<longleftrightarrow> length (cbuf c) < ccap c + cwaiting c"

text \<open>\<open>select { case c <- x: A default: B }\<close>: \<open>Some\<close> of the new channel for \<open>A\<close>, \<open>None\<close> for
  \<open>B\<close>. Sending on a closed channel panics even inside a select with a default. The blocking send
  \<open>c <- x\<close> has the same cases, with \<open>None\<close> for a blocked sender.\<close>

definition chan_try_send :: "'a \<Rightarrow> 'a chan \<Rightarrow> 'a chan option go" where
  [chan_defs]: "chan_try_send x c =
     (if cclosed c then Inl SendOnClosedChannel
      else if chan_room c then Inr (Some (c\<lparr>cbuf := cbuf c @ [x]\<rparr>))
      else Inr None)"

text \<open>\<open>x, ok := <-c\<close>: \<open>None\<close> while the receiver is blocked, \<open>Some (None, c)\<close> when the channel is
  closed and drained.\<close>

definition chan_recv :: "'a chan \<Rightarrow> ('a option \<times> 'a chan) option" where
  [chan_defs]: "chan_recv c =
     (case cbuf c of
        x # xs \<Rightarrow> Some (Some x, c\<lparr>cbuf := xs, cwaiting := cwaiting c - 1\<rparr>)
      | [] \<Rightarrow> if cclosed c then Some (None, c\<lparr>cwaiting := cwaiting c - 1\<rparr>) else None)"

definition chan_park :: "'a chan \<Rightarrow> 'a chan" where
  [chan_defs]: "chan_park c = c\<lparr>cwaiting := Suc (cwaiting c)\<rparr>"

definition chan_unpark :: "'a chan \<Rightarrow> 'a chan" where
  [chan_defs]: "chan_unpark c = c\<lparr>cwaiting := cwaiting c - 1\<rparr>"

definition chan_close :: "'a chan \<Rightarrow> 'a chan go" where
  [chan_defs]: "chan_close c = (if cclosed c then Inl CloseOfClosedChannel else Inr (c\<lparr>cclosed := True\<rparr>))"

text \<open>\<open>for range c {}\<close> reads until the channel is closed and empty; \<open>None\<close> while it is open.\<close>

definition chan_drain :: "'a chan \<Rightarrow> 'a chan option" where
  [chan_defs]: "chan_drain c = (if cclosed c then Some (c\<lparr>cbuf := []\<rparr>) else None)"

lemma chan_try_send_cases:
  assumes "chan_try_send x c = Inr r"
  obtains (sent) "r = Some (c\<lparr>cbuf := cbuf c @ [x]\<rparr>)" "chan_room c" "\<not> cclosed c"
        | (full) "r = None" "\<not> chan_room c" "\<not> cclosed c"
  using assms by (auto simp: chan_try_send_def split: if_splits)

lemma chan_try_send_open: "\<not> cclosed c \<Longrightarrow> \<exists>r. chan_try_send x c = Inr r"
  by (simp add: chan_try_send_def)

lemma chan_close_open: "\<not> cclosed c \<Longrightarrow> chan_close c = Inr (c\<lparr>cclosed := True\<rparr>)"
  by (simp add: chan_close_def)

text \<open>Draining is the loop of receives it stands for: with enough receives the closed channel is
  empty and reports so.\<close>

fun recv_loop :: "nat \<Rightarrow> 'a chan \<Rightarrow> 'a chan option" where
  "recv_loop 0 c = None"
| "recv_loop (Suc n) c =
     (case chan_recv c of
        None \<Rightarrow> None
      | Some (None, c') \<Rightarrow> Some c'
      | Some (Some x, c') \<Rightarrow> recv_loop n c')"

lemma recv_loop_drain:
  "cclosed c \<Longrightarrow> length (cbuf c) < n \<Longrightarrow> cwaiting c = 0 \<Longrightarrow> recv_loop n c = chan_drain c"
proof (induction n arbitrary: c)
  case 0
  then show ?case by simp
next
  case (Suc n)
  show ?case
  proof (cases "cbuf c")
    case Nil
    with Suc.prems show ?thesis
      by (cases c) (simp add: chan_defs)
  next
    case (Cons x xs)
    let ?d = "c\<lparr>cbuf := xs, cwaiting := cwaiting c - 1\<rparr>"
    from Suc.prems Cons have "recv_loop n ?d = chan_drain ?d"
      by (intro Suc.IH) auto
    with Suc.prems Cons show ?thesis
      by (cases c) (simp add: chan_defs)
  qed
qed

section \<open>HTTP headers, requests and responses\<close>

text \<open>\<open>textproto.CanonicalMIMEHeaderKey\<close>: the first letter and every letter after a hyphen become
  upper case, the others lower case; a key with a byte that is not a token byte is left alone.\<close>

definition is_lower :: "char \<Rightarrow> bool" where
  "is_lower c \<longleftrightarrow> (97::nat) \<le> of_char c \<and> (of_char c :: nat) \<le> 122"

definition is_upper :: "char \<Rightarrow> bool" where
  "is_upper c \<longleftrightarrow> (65::nat) \<le> of_char c \<and> (of_char c :: nat) \<le> 90"

definition is_digit :: "char \<Rightarrow> bool" where
  "is_digit c \<longleftrightarrow> (48::nat) \<le> of_char c \<and> (of_char c :: nat) \<le> 57"

definition token_char :: "char \<Rightarrow> bool" where
  "token_char c \<longleftrightarrow> is_lower c \<or> is_upper c \<or> is_digit c
     \<or> (of_char c :: nat) \<in> {33, 35, 36, 37, 38, 39, 42, 43, 45, 46, 94, 95, 96, 124, 126}"

fun canon_from :: "bool \<Rightarrow> string \<Rightarrow> string" where
  "canon_from up [] = []"
| "canon_from up (c # cs) =
     (if up \<and> is_lower c then char_of (of_char c - 32 :: nat)
      else if \<not> up \<and> is_upper c then char_of (of_char c + 32 :: nat)
      else c) # canon_from (c = CHR ''-'') cs"

definition canonical_key :: "string \<Rightarrow> string" where
  "canonical_key k = (if list_all token_char k then canon_from True k else k)"

type_synonym header = "string \<rightharpoonup> string list"

definition header_set :: "string \<Rightarrow> string \<Rightarrow> header \<Rightarrow> header" where
  [http_defs]: "header_set k v h = h(canonical_key k \<mapsto> [v])"

definition header_add :: "string \<Rightarrow> string \<Rightarrow> header \<Rightarrow> header" where
  [http_defs]: "header_add k v h =
     h(canonical_key k \<mapsto> (case h (canonical_key k) of None \<Rightarrow> [] | Some vs \<Rightarrow> vs) @ [v])"

definition header_get :: "string \<Rightarrow> header \<Rightarrow> string" where
  [http_defs]: "header_get k h = (case h (canonical_key k) of Some (v # vs) \<Rightarrow> v | _ \<Rightarrow> [])"

text \<open>The parts of \<open>http.Request\<close> the handlers read.\<close>

record http_request =
  rq_header :: header
  rq_remote :: string
  rq_path :: string
  rq_query :: "string \<Rightarrow> string list"

text \<open>
  \<open>http.ResponseWriter\<close>: the header under construction, the status line with the header that was
  sent with it, and the body so far. Only the first \<open>WriteHeader\<close> counts; a \<open>Write\<close> without one
  sends status 200 first. \<open>ok\<close> is the environment's answer to a \<open>Write\<close>.
\<close>

record response =
  rw_header :: header
  rw_sent :: "(nat \<times> header) option"
  rw_body :: bytes

definition new_response :: response where
  [http_defs]: "new_response = \<lparr>rw_header = Map.empty, rw_sent = None, rw_body = []\<rparr>"

definition set_header :: "string \<Rightarrow> string \<Rightarrow> response \<Rightarrow> response" where
  [http_defs]: "set_header k v w = w\<lparr>rw_header := header_set k v (rw_header w)\<rparr>"

definition add_header :: "string \<Rightarrow> string \<Rightarrow> response \<Rightarrow> response" where
  [http_defs]: "add_header k v w = w\<lparr>rw_header := header_add k v (rw_header w)\<rparr>"

definition write_header :: "nat \<Rightarrow> response \<Rightarrow> response" where
  [http_defs]: "write_header st w =
     (case rw_sent w of None \<Rightarrow> w\<lparr>rw_sent := Some (st, rw_header w)\<rparr> | Some _ \<Rightarrow> w)"

definition write_body :: "bool \<Rightarrow> bytes \<Rightarrow> response \<Rightarrow> response" where
  [http_defs]: "write_body ok d w =
     (let w' = write_header 200 w in if ok then w'\<lparr>rw_body := rw_body w' @ d\<rparr> else w')"

definition status_of :: "response \<Rightarrow> nat option" where
  [http_defs]: "status_of w = map_option fst (rw_sent w)"

definition sent_header :: "string \<Rightarrow> response \<Rightarrow> string" where
  [http_defs]: "sent_header k w = (case rw_sent w of None \<Rightarrow> [] | Some (st, h) \<Rightarrow> header_get k h)"

lemma header_get_set [simp]:
  "header_get k (header_set k' v h) = (if canonical_key k = canonical_key k' then v else header_get k h)"
  by (simp add: http_defs)

lemma write_header_fields [simp]:
  "rw_header (write_header st w) = rw_header w"
  "rw_body (write_header st w) = rw_body w"
  "rw_sent w = None \<Longrightarrow> rw_sent (write_header st w) = Some (st, rw_header w)"
  "rw_sent w = Some x \<Longrightarrow> rw_sent (write_header st w) = Some x"
  by (simp_all add: write_header_def split: option.split)

lemma set_header_fields [simp]:
  "rw_sent (set_header k v w) = rw_sent w"
  "rw_body (set_header k v w) = rw_body w"
  "rw_header (set_header k v w) = header_set k v (rw_header w)"
  by (simp_all add: set_header_def)

lemma add_header_fields [simp]:
  "rw_sent (add_header k v w) = rw_sent w"
  "rw_body (add_header k v w) = rw_body w"
  "rw_header (add_header k v w) = header_add k v (rw_header w)"
  by (simp_all add: add_header_def)

lemma write_body_fields [simp]:
  "rw_header (write_body ok d w) = rw_header w"
  "rw_body (write_body ok d w) = rw_body w @ (if ok then d else [])"
  "rw_sent w = Some x \<Longrightarrow> rw_sent (write_body ok d w) = Some x"
  by (simp_all add: write_body_def Let_def)

section \<open>Lists\<close>

definition remove_nth :: "nat \<Rightarrow> 'a list \<Rightarrow> 'a list" where
  "remove_nth j xs = take j xs @ drop (Suc j) xs"

text \<open>Lists with a separator.\<close>


lemma append_Cons_first_eq:
  "x \<notin> set xs \<Longrightarrow> x \<notin> set xs' \<Longrightarrow> xs @ x # ys = xs' @ x # ys' \<longleftrightarrow> xs = xs' \<and> ys = ys'"
proof (induction xs arbitrary: xs')
  case Nil
  then show ?case by (cases xs') auto
next
  case (Cons a xs)
  then show ?case by (cases xs') auto
qed

lemma prefix_before_first: "x \<notin> set s \<Longrightarrow> prefix s (w @ x # t) \<longleftrightarrow> prefix s w"
proof (induction s arbitrary: w)
  case (Cons a s)
  then show ?case by (cases w) auto
qed simp

lemma span_none: "x \<notin> set w \<Longrightarrow> dropWhile (\<lambda>c. c \<noteq> x) w = []"
  by (induction w) auto

lemma span_first:
  "x \<notin> set w \<Longrightarrow> dropWhile (\<lambda>c. c \<noteq> x) (w @ x # t) = x # t"
  "x \<notin> set w \<Longrightarrow> takeWhile (\<lambda>c. c \<noteq> x) (w @ x # t) = w"
  by (induction w) auto

end
