(* ===== verification/Stream_Connection.thy ===== *)
theory Stream_Connection
  imports Go_Prelude
begin

text \<open>
  \<open>streaming/connection.go\<close>: a client connection and the loop that feeds its packets to the client.

  The connection's queue is filled and closed by the streamer while \<open>Serve\<close> runs. \<open>Serve\<close> is
  therefore given as its two parts, the response header with the preamble and one turn of the loop,
  and as the run of the loop against an environment that sends to, and closes, the queue. The result
  of every write and the branch of every \<open>select\<close> come from the environment.
\<close>

record Connection =
  conn_Queue :: "bytes chan"
  conn_ClientAddress :: string
  conn_writer :: response
  conn_Closed :: bool

definition NewConnection :: "response \<Rightarrow> nat \<Rightarrow> string \<Rightarrow> Connection" where
  "NewConnection destination qsize clientaddr =
     \<lparr>conn_Queue = make_chan qsize, conn_ClientAddress = clientaddr, conn_writer = destination,
      conn_Closed = False\<rparr>"

text \<open>The headers of a stream; \<open>now\<close> is the formatted current time.\<close>

definition stream_headers :: "string \<Rightarrow> response \<Rightarrow> response" where
  "stream_headers now w =
     set_header ''Cache-Control'' ''no-cache,no-store,no-transform''
       (set_header ''Accept-Range'' ''none''
         (set_header ''Last-Modified'' now
           (set_header ''Content-Type'' ''video/mpeg'' w)))"

text \<open>\<open>Serve\<close> up to its loop. The result says whether the loop runs; \<open>ok\<close> is the environment's answer
  to the write of the preamble.\<close>

definition Serve_start :: "string \<Rightarrow> bool \<Rightarrow> bytes \<Rightarrow> Connection \<Rightarrow> bool \<times> Connection" where
  "Serve_start now ok preamble conn =
     (let w = write_header 200 (stream_headers now (conn_writer conn))
      in if length preamble > 0
         then (ok, conn\<lparr>conn_writer := write_body ok preamble w\<rparr>)
         else (True, conn\<lparr>conn_writer := w\<rparr>))"

datatype serve_choice = TakePacket bool | ContextDone

text \<open>
  One turn of the loop. A turn blocks (\<open>None\<close>) while the chosen branch is not ready. A receiver that
  was parked and has been handed a packet, or has been woken by the closing of the channel, is
  committed to that branch.
\<close>

definition Serve_turn :: "serve_choice \<Rightarrow> Connection \<Rightarrow> (bool \<times> Connection) option" where
  "Serve_turn choice conn =
     (case choice of
        TakePacket ok \<Rightarrow>
          (case chan_recv (conn_Queue conn) of
             None \<Rightarrow> None
           | Some (Some packet, q) \<Rightarrow>
               Some (ok, conn\<lparr>conn_Queue := q, conn_writer := write_body ok packet (conn_writer conn)\<rparr>)
           | Some (None, q) \<Rightarrow> Some (False, conn\<lparr>conn_Queue := q, conn_Closed := True\<rparr>))
      | ContextDone \<Rightarrow>
          (if cwaiting (conn_Queue conn) > 0 \<and> (cbuf (conn_Queue conn) \<noteq> [] \<or> cclosed (conn_Queue conn))
           then None
           else Some (False, conn\<lparr>conn_Queue := chan_unpark (conn_Queue conn)\<rparr>)))"

definition ServeStreamError :: "string \<Rightarrow> response \<Rightarrow> nat \<Rightarrow> response" where
  "ServeStreamError now writer status = write_header 404 (stream_headers now writer)"

text \<open>What can happen while \<open>Serve\<close> runs: a turn of its loop, its parking on the empty queue, and
  a send to the queue or its closing by the streamer.\<close>

datatype serve_event = Turn serve_choice | Park | Enqueue bytes | CloseQueue

record serve_state =
  sv_running :: bool
  sv_conn :: Connection

definition serve_event_step :: "serve_event \<Rightarrow> serve_state \<Rightarrow> serve_state go" where
  "serve_event_step e s =
     (let conn = sv_conn s in
      case e of
        Turn choice \<Rightarrow>
          (if sv_running s
           then (case Serve_turn choice conn of
                   None \<Rightarrow> Inr s
                 | Some (running, conn') \<Rightarrow> Inr \<lparr>sv_running = running, sv_conn = conn'\<rparr>)
           else Inr s)
      | Park \<Rightarrow>
          (if sv_running s \<and> cbuf (conn_Queue conn) = [] \<and> \<not> cclosed (conn_Queue conn) \<and> cwaiting (conn_Queue conn) = 0
           then Inr (s\<lparr>sv_conn := conn\<lparr>conn_Queue := chan_park (conn_Queue conn)\<rparr>\<rparr>)
           else Inr s)
      | Enqueue packet \<Rightarrow>
          go_bind (chan_try_send packet (conn_Queue conn))
            (\<lambda>r. Inr (case r of
                         None \<Rightarrow> s
                       | Some q \<Rightarrow> s\<lparr>sv_conn := conn\<lparr>conn_Queue := q\<rparr>\<rparr>))
      | CloseQueue \<Rightarrow>
          go_bind (chan_close (conn_Queue conn)) (\<lambda>q. Inr (s\<lparr>sv_conn := conn\<lparr>conn_Queue := q\<rparr>\<rparr>)))"

definition Serve :: "string \<Rightarrow> bool \<Rightarrow> bytes \<Rightarrow> serve_event list \<Rightarrow> Connection \<Rightarrow> serve_state go" where
  "Serve now ok preamble es conn =
     (case Serve_start now ok preamble conn of
        (running, conn') \<Rightarrow> go_foreach serve_event_step es \<lparr>sv_running = running, sv_conn = conn'\<rparr>)"

section \<open>What the client receives\<close>

text \<open>The packets an environment got into the queue, in order.\<close>

definition queued_by :: "serve_event \<Rightarrow> serve_state \<Rightarrow> bytes list" where
  "queued_by e s = (case e of Enqueue p \<Rightarrow> if chan_room (conn_Queue (sv_conn s)) then [p] else [] | _ \<Rightarrow> [])"

fun queued :: "serve_event list \<Rightarrow> serve_state \<Rightarrow> bytes list" where
  "queued [] s = []"
| "queued (e # es) s =
     (case serve_event_step e s of Inl p \<Rightarrow> [] | Inr s' \<Rightarrow> queued_by e s @ queued es s')"

text \<open>The relation between the packets \<open>ps\<close> queued so far and the state: the queue holds the last of
  them, the ones before were written in order, the last of those possibly in vain.\<close>

definition served :: "bytes \<Rightarrow> bytes list \<Rightarrow> serve_state \<Rightarrow> bool" where
  "served pre ps s \<longleftrightarrow>
     (\<exists>ds lost. ps = ds @ lost @ cbuf (conn_Queue (sv_conn s)) \<and> length lost \<le> 1
        \<and> rw_body (conn_writer (sv_conn s)) = pre @ concat ds
        \<and> (sv_running s \<longrightarrow> lost = []))
   \<and> (conn_Closed (sv_conn s) \<longrightarrow> cclosed (conn_Queue (sv_conn s)) \<and> cbuf (conn_Queue (sv_conn s)) = [] \<and> \<not> sv_running s
        \<and> rw_body (conn_writer (sv_conn s)) = pre @ concat ps)"

lemma Serve_turn_served:
  assumes "served pre ps s" and "sv_running s" and "Serve_turn choice (sv_conn s) = Some (running, conn)"
  shows "served pre ps \<lparr>sv_running = running, sv_conn = conn\<rparr>"
proof (cases choice)
  case (TakePacket ok)
  from assms(1,2) obtain ds where ds: "ps = ds @ cbuf (conn_Queue (sv_conn s))"
      "rw_body (conn_writer (sv_conn s)) = pre @ concat ds" "\<not> conn_Closed (sv_conn s)"
    by (auto simp: served_def)
  show ?thesis
  proof (cases "cbuf (conn_Queue (sv_conn s))")
    case Nil
    with assms(3) TakePacket have "\<not> running" and conn: "conn = (sv_conn s)\<lparr>conn_Queue :=
        (conn_Queue (sv_conn s))\<lparr>cwaiting := cwaiting (conn_Queue (sv_conn s)) - 1\<rparr>, conn_Closed := True\<rparr>"
        and "cclosed (conn_Queue (sv_conn s))"
      by (auto simp: Serve_turn_def chan_recv_def split: if_splits)
    with ds Nil show ?thesis
      unfolding served_def by (intro conjI exI [of _ ds] exI [of _ "[]"]) auto
  next
    case (Cons p rest)
    with assms(3) TakePacket have conn: "running = ok" "conn = (sv_conn s)\<lparr>conn_Queue :=
        (conn_Queue (sv_conn s))\<lparr>cbuf := rest, cwaiting := cwaiting (conn_Queue (sv_conn s)) - 1\<rparr>,
        conn_writer := write_body ok p (conn_writer (sv_conn s))\<rparr>"
      by (auto simp: Serve_turn_def chan_recv_def)
    show ?thesis
    proof (cases ok)
      case True
      with ds Cons conn show ?thesis
        unfolding served_def by (intro conjI exI [of _ "ds @ [p]"] exI [of _ "[]"]) auto
    next
      case False
      with ds Cons conn show ?thesis
        unfolding served_def by (intro conjI exI [of _ ds] exI [of _ "[p]"]) auto
    qed
  qed
next
  case ContextDone
  from assms(1,2) obtain ds where ds: "ps = ds @ cbuf (conn_Queue (sv_conn s))"
      "rw_body (conn_writer (sv_conn s)) = pre @ concat ds" "\<not> conn_Closed (sv_conn s)"
    by (auto simp: served_def)
  from ContextDone assms(3) have "\<not> running" "conn = (sv_conn s)\<lparr>conn_Queue := chan_unpark (conn_Queue (sv_conn s))\<rparr>"
    by (auto simp: Serve_turn_def split: if_splits)
  with ds show ?thesis
    unfolding served_def by (intro conjI exI [of _ ds] exI [of _ "[]"]) (auto simp: chan_unpark_def)
qed

lemma serve_event_served:
  assumes "served pre ps s" and "serve_event_step e s = Inr s'"
  shows "served pre (ps @ queued_by e s) s'"
proof (cases e)
  case (Turn choice)
  with assms show ?thesis
    by (auto simp: serve_event_step_def queued_by_def split: if_splits option.splits intro: Serve_turn_served)
next
  case Park
  with assms show ?thesis
    by (auto simp: serve_event_step_def queued_by_def served_def chan_park_def Let_def split: if_splits)
next
  case (Enqueue p)
  show ?thesis
  proof (cases "chan_room (conn_Queue (sv_conn s))")
    case True
    from Enqueue True assms(2) have "\<not> cclosed (conn_Queue (sv_conn s))"
      "s' = s\<lparr>sv_conn := (sv_conn s)\<lparr>conn_Queue := (conn_Queue (sv_conn s))\<lparr>cbuf := cbuf (conn_Queue (sv_conn s)) @ [p]\<rparr>\<rparr>\<rparr>"
      by (auto simp: serve_event_step_def chan_try_send_def Let_def split: if_splits)
    with assms(1) Enqueue True show ?thesis
      by (auto simp: served_def queued_by_def)
  next
    case False
    with Enqueue assms show ?thesis
      by (auto simp: serve_event_step_def chan_try_send_def queued_by_def Let_def split: if_splits)
  qed
next
  case CloseQueue
  with assms(2) have "s' = s\<lparr>sv_conn := (sv_conn s)\<lparr>conn_Queue := (conn_Queue (sv_conn s))\<lparr>cclosed := True\<rparr>\<rparr>\<rparr>"
    by (auto simp: serve_event_step_def chan_close_def Let_def split: if_splits)
  with assms(1) CloseQueue show ?thesis
    by (simp add: served_def queued_by_def)
qed

lemma go_foreach_served:
  assumes "served pre ps s" and "go_foreach serve_event_step es s = Inr s'"
  shows "served pre (ps @ queued es s) s'"
  using assms
proof (induction es arbitrary: s ps)
  case Nil
  then show ?case by simp
next
  case (Cons e es)
  from Cons.prems(2) obtain s1 where s1: "serve_event_step e s = Inr s1" "go_foreach serve_event_step es s1 = Inr s'"
    by (auto simp: go_bind_Inr_conv)
  from Cons.IH [OF serve_event_served [OF Cons.prems(1) s1(1)] s1(2)] s1(1) show ?case by simp
qed

lemma serve_event_sent:
  "serve_event_step e s = Inr s' \<Longrightarrow> rw_sent (conn_writer (sv_conn s)) = Some x \<Longrightarrow>
     rw_sent (conn_writer (sv_conn s')) = Some x"
  by (auto simp: serve_event_step_def Serve_turn_def Let_def go_bind_def
      split: serve_event.splits serve_choice.splits if_splits option.splits sum.splits)

lemma go_foreach_sent:
  "go_foreach serve_event_step es s = Inr s' \<Longrightarrow> rw_sent (conn_writer (sv_conn s)) = Some x \<Longrightarrow>
     rw_sent (conn_writer (sv_conn s')) = Some x"
  by (rule go_foreach_invariant [where I = "\<lambda>_ s. rw_sent (conn_writer (sv_conn s)) = Some x"])
     (auto intro: serve_event_sent)

lemma stream_keys:
  "canonical_key ''Content-Type'' \<noteq> canonical_key ''Cache-Control''"
  "canonical_key ''Content-Type'' \<noteq> canonical_key ''Accept-Range''"
  "canonical_key ''Content-Type'' \<noteq> canonical_key ''Last-Modified''"
  by code_simp+

lemma sent_content_type:
  "rw_sent w = Some (st, rw_header (stream_headers now w0)) \<Longrightarrow> sent_header ''Content-Type'' w = ''video/mpeg''"
  by (simp add: sent_header_def stream_headers_def stream_keys)

section \<open>Properties\<close>

text \<open>
  What a client receives is the preamble followed by the packets that were put into its queue, in
  order, without gap or repetition, up to the packet at which its connection failed; when \<open>Serve\<close> ends
  because the queue was closed it is all of them. The response has status 200 and the media type of a
  transport stream.
\<close>

theorem Serve_delivers:
  assumes "Serve now ok preamble es (NewConnection new_response qsize addr) = Inr s"
    and "Serve_start now ok preamble (NewConnection new_response qsize addr) = (running, conn0)"
  shows "\<exists>ds. prefix ds (queued es \<lparr>sv_running = running, sv_conn = conn0\<rparr>)
     \<and> rw_body (conn_writer (sv_conn s)) = (if ok then preamble else []) @ concat ds
     \<and> (conn_Closed (sv_conn s) \<longrightarrow>
          cclosed (conn_Queue (sv_conn s)) \<and> ds = queued es \<lparr>sv_running = running, sv_conn = conn0\<rparr>)
     \<and> status_of (conn_writer (sv_conn s)) = Some 200
     \<and> sent_header ''Content-Type'' (conn_writer (sv_conn s)) = ''video/mpeg''"
proof -
  let ?s0 = "\<lparr>sv_running = running, sv_conn = conn0\<rparr>" and ?pre = "if ok then preamble else []"
  have run: "go_foreach serve_event_step es ?s0 = Inr s"
    using assms by (simp add: Serve_def)
  have start: "conn_Queue conn0 = make_chan qsize" "rw_body (conn_writer conn0) = ?pre" "\<not> conn_Closed conn0"
      "rw_sent (conn_writer conn0) = Some (200, rw_header (stream_headers now new_response))"
    using assms(2)
    by (auto simp: Serve_start_def NewConnection_def new_response_def stream_headers_def Let_def split: if_splits)
  have "served ?pre [] ?s0" using start by (simp add: served_def make_chan_def)
  from go_foreach_served [OF this run] have srv: "served ?pre (queued es ?s0) s" by simp
  have sent: "rw_sent (conn_writer (sv_conn s)) = Some (200, rw_header (stream_headers now new_response))"
    using go_foreach_sent [OF run] start(4) by simp
  then have hdr: "status_of (conn_writer (sv_conn s)) = Some 200"
      "sent_header ''Content-Type'' (conn_writer (sv_conn s)) = ''video/mpeg''"
    using sent_content_type [OF sent] by (simp_all add: status_of_def)
  show ?thesis
  proof (cases "conn_Closed (sv_conn s)")
    case True
    with srv hdr show ?thesis by (intro exI [of _ "queued es ?s0"]) (simp add: served_def)
  next
    case False
    from srv obtain ds lost where "queued es ?s0 = ds @ lost @ cbuf (conn_Queue (sv_conn s))"
        and body: "rw_body (conn_writer (sv_conn s)) = ?pre @ concat ds"
      unfolding served_def by blast
    then have "prefix ds (queued es ?s0)" by simp
    with body False hdr show ?thesis by blast
  qed
qed

definition example_run :: "serve_event list" where
  "example_run = [Enqueue [1], Enqueue [2], Enqueue [3], Turn (TakePacket True), Enqueue [4], CloseQueue,
     Turn (TakePacket True), Turn (TakePacket True), Turn (TakePacket True)]"

theorem Serve_delivers_witness:
  "\<exists>s. Serve [] True [9] example_run (NewConnection new_response 2 []) = Inr s
     \<and> conn_Closed (sv_conn s) \<and> rw_body (conn_writer (sv_conn s)) = [9, 1, 2, 4]"
proof -
  let ?c = "NewConnection new_response 2 []"
  let ?started = "snd (Serve_start [] True [9] ?c)"
  have start: "Serve_start [] True [9] ?c = (True, ?started)"
  proof (rule prod_eqI)
    show "fst (Serve_start [] True [9] ?c) = fst (True, ?started)" by (simp add: Serve_start_def Let_def)
  qed simp
  have q: "queued example_run \<lparr>sv_running = True, sv_conn = ?started\<rparr> = [[1], [2], [4]]"
    by (simp add: example_run_def Serve_start_def NewConnection_def serve_event_step_def queued_by_def
        Serve_turn_def chan_defs Let_def)
  obtain s where s: "Serve [] True [9] example_run ?c = Inr s" "conn_Closed (sv_conn s)"
    by (simp add: Serve_def example_run_def Serve_start_def NewConnection_def serve_event_step_def
        Serve_turn_def chan_defs Let_def)
  show ?thesis
    using Serve_delivers [OF s(1) start] s q by auto
qed

text \<open>
  A refused client is always told that the stream does not exist: the response has status 404,
  whatever status the caller asks for, no body, and the header fields of a stream.
\<close>

theorem ServeStreamError_response:
  "status_of (ServeStreamError now new_response status) = Some 404
   \<and> rw_body (ServeStreamError now new_response status) = []
   \<and> sent_header ''Content-Type'' (ServeStreamError now new_response status) = ''video/mpeg''"
proof -
  have "rw_sent (ServeStreamError now new_response status) = Some (404, rw_header (stream_headers now new_response))"
      "rw_body (ServeStreamError now new_response status) = []"
    by (simp_all add: ServeStreamError_def stream_headers_def new_response_def)
  with sent_content_type [OF this(1)] show ?thesis by (simp add: status_of_def)
qed

end
