(* ===== verification/Access_Control.thy ===== *)
theory Access_Control
  imports Go_Prelude
begin

text \<open>
  \<open>streaming/acl.go\<close>: the access controller, the connection broker that limits the number of
  concurrent connections over all streams, and the interface \<open>ConnectionBroker\<close> of
  \<open>streaming/streamer.go\<close> that the streamers use it through. The counters are Go \<open>uint\<close>s of 64 bits.
  Every operation holds the mutex for all of its effect, so an operation is one atomic step.
\<close>

record AccessController =
  ac_maxconnections :: u64
  ac_connections :: u64
  ac_inhibit :: bool

definition NewAccessController :: "u64 \<Rightarrow> AccessController" where
  "NewAccessController maxconnections =
     \<lparr>ac_maxconnections = maxconnections, ac_connections = 0, ac_inhibit = False\<rparr>"

definition Acl_SetInhibit :: "bool \<Rightarrow> AccessController \<Rightarrow> AccessController" where
  "Acl_SetInhibit inhibit control = control\<lparr>ac_inhibit := inhibit\<rparr>"

definition Accept :: "string \<Rightarrow> AccessController \<Rightarrow> bool \<times> AccessController" where
  "Accept remoteaddr control =
     (if \<not> ac_inhibit control \<and>
         (ac_maxconnections control = 0 \<or> ac_connections control < ac_maxconnections control)
      then (True, control\<lparr>ac_connections := ac_connections control + 1\<rparr>)
      else (False, control))"

definition Release :: "AccessController \<Rightarrow> AccessController" where
  "Release control =
     (if ac_connections control > 0
      then control\<lparr>ac_connections := ac_connections control - 1\<rparr>
      else control)"

section \<open>The broker contract\<close>

text \<open>
  What a streamer relies on: a positive answer takes one of a limited number of places, a negative
  one changes nothing, a release gives a place back. \<open>taken\<close> is the number of places in use.
\<close>

locale connection_broker =
  fixes accept :: "string \<Rightarrow> 'b \<Rightarrow> bool \<times> 'b"
    and release :: "'b \<Rightarrow> 'b"
    and taken :: "'b \<Rightarrow> nat"
    and places :: "'b \<Rightarrow> nat"
    and invar :: "'b \<Rightarrow> bool"
  assumes accept_True: "invar b \<Longrightarrow> accept a b = (True, b') \<Longrightarrow>
      taken b' = Suc (taken b) \<and> places b' = places b \<and> invar b'"
    and accept_False: "accept a b = (False, b') \<Longrightarrow> b' = b"
    and release_taken: "invar b \<Longrightarrow> 0 < taken b \<Longrightarrow> Suc (taken (release b)) = taken b"
    and release_invar: "invar b \<Longrightarrow> places (release b) = places b \<and> invar (release b)"
    and taken_places: "invar b \<Longrightarrow> taken b \<le> places b"
begin

lemma accept_result:
  assumes "invar b" and "accept a b = (ok, b')"
  shows "taken b' = taken b + (if ok then 1 else 0)" and "places b' = places b" and "invar b'"
  using assms accept_True [of b a b'] accept_False [of a b b'] by (cases ok; simp)+

end

definition acl_limited :: "AccessController \<Rightarrow> bool" where
  "acl_limited c \<longleftrightarrow> ac_maxconnections c \<noteq> 0 \<and> ac_connections c \<le> ac_maxconnections c"

lemma unat_Suc_below:
  fixes x y :: u64
  assumes "x < y"
  shows "unat (x + 1) = Suc (unat x)"
proof -
  have "unat x < unat y" using assms by (simp add: word_less_nat_alt)
  moreover have "unat y < 2 ^ LENGTH(64)" by (rule unsigned_less)
  ultimately have "unat x + 1 < 2 ^ 64" by simp
  then show ?thesis by (simp add: unat_word_ariths)
qed

lemma unat_pred_pos:
  fixes x :: u64
  assumes "x > 0"
  shows "Suc (unat (x - 1)) = unat x"
  using assms by (metis Suc_pred' unat_gt_0 unat_minus_one word_gt_0)

interpretation acl: connection_broker Accept Release
  "\<lambda>c. unat (ac_connections c)" "\<lambda>c. unat (ac_maxconnections c)" acl_limited
proof
  fix a b b'
  assume lim: "acl_limited b"
  { assume "Accept a b = (True, b')"
    then have lt: "ac_connections b < ac_maxconnections b" and b': "b' = b\<lparr>ac_connections := ac_connections b + 1\<rparr>"
      using lim by (auto simp: Accept_def acl_limited_def split: if_splits)
    from unat_Suc_below [OF lt] have "unat (ac_connections b + 1) \<le> unat (ac_maxconnections b)"
      using lt by (simp add: word_less_nat_alt)
    with lt b' lim unat_Suc_below [OF lt]
    show "unat (ac_connections b') = Suc (unat (ac_connections b))
        \<and> unat (ac_maxconnections b') = unat (ac_maxconnections b) \<and> acl_limited b'"
      by (simp add: acl_limited_def word_le_nat_alt) }
  show "0 < unat (ac_connections b) \<Longrightarrow> Suc (unat (ac_connections (Release b))) = unat (ac_connections b)"
    by (simp add: Release_def unat_pred_pos word_gt_0_no word_neq_0_conv unat_gt_0)
  show "unat (ac_maxconnections (Release b)) = unat (ac_maxconnections b) \<and> acl_limited (Release b)"
    using lim unat_pred_pos [of "ac_connections b"]
    by (auto simp: Release_def acl_limited_def word_le_nat_alt)
  show "unat (ac_connections b) \<le> unat (ac_maxconnections b)"
    using lim by (simp add: acl_limited_def word_le_nat_alt)
next
  show "Accept a b = (False, b') \<Longrightarrow> b' = b" for a b b'
    by (auto simp: Accept_def split: if_splits)
qed

section \<open>Refinement of a bounded counter\<close>

text \<open>The abstract broker: an unbounded counter of connections with a limit, 0 for none.\<close>

datatype acl_op = OpAccept string | OpRelease | OpInhibit bool

fun acl_step :: "acl_op \<Rightarrow> AccessController \<Rightarrow> bool option \<times> AccessController" where
  "acl_step (OpAccept a) c = (case Accept a c of (ok, c') \<Rightarrow> (Some ok, c'))"
| "acl_step OpRelease c = (None, Release c)"
| "acl_step (OpInhibit i) c = (None, Acl_SetInhibit i c)"

fun counter_step :: "nat \<Rightarrow> acl_op \<Rightarrow> bool \<times> nat \<Rightarrow> bool option \<times> (bool \<times> nat)" where
  "counter_step limit (OpAccept a) (inh, n) =
     (if \<not> inh \<and> (limit = 0 \<or> n < limit) then (Some True, (inh, Suc n)) else (Some False, (inh, n)))"
| "counter_step limit OpRelease (inh, n) = (None, (inh, n - 1))"
| "counter_step limit (OpInhibit i) (inh, n) = (None, (i, n))"

fun run_ops :: "('o \<Rightarrow> 's \<Rightarrow> 'r \<times> 's) \<Rightarrow> 'o list \<Rightarrow> 's \<Rightarrow> 'r list \<times> 's" where
  "run_ops f [] s = ([], s)"
| "run_ops f (x # xs) s = (case f x s of (r, s1) \<Rightarrow> case run_ops f xs s1 of (rs, s2) \<Rightarrow> (r # rs, s2))"

definition acl_abs :: "AccessController \<Rightarrow> bool \<times> nat" where
  "acl_abs c = (ac_inhibit c, unat (ac_connections c))"

lemma acl_step_refines:
  assumes "ac_maxconnections c \<noteq> 0 \<or> Suc (unat (ac_connections c)) < 2 ^ 64"
  shows "apsnd acl_abs (acl_step x c) = counter_step (unat (ac_maxconnections c)) x (acl_abs c)"
    and "ac_maxconnections (snd (acl_step x c)) = ac_maxconnections c"
    and "unat (ac_connections (snd (acl_step x c))) \<le> Suc (unat (ac_connections c))"
proof -
  let ?x = "ac_connections c" and ?m = "ac_maxconnections c"
  have inc: "unat (?x + 1) = Suc (unat ?x)" if "?m = 0 \<or> ?x < ?m"
  proof (cases "?x < ?m")
    case True
    then show ?thesis by (rule unat_Suc_below)
  next
    case False
    with that assms have "Suc (unat ?x) < 2 ^ 64" by simp
    then show ?thesis by (simp add: unat_word_ariths)
  qed
  have dec: "unat (?x - 1) = unat ?x - 1" if "?x > 0"
    using unat_pred_pos [OF that] by simp
  have zero: "unat ?x - 1 = unat ?x" if "\<not> ?x > 0"
    using that by (simp add: word_gt_0)
  have cond: "(?m = 0 \<or> ?x < ?m) = (unat ?m = 0 \<or> unat ?x < unat ?m)"
    by (simp add: word_less_nat_alt unat_eq_zero)
  have "apsnd acl_abs (acl_step (OpAccept a) c) = counter_step (unat ?m) (OpAccept a) (acl_abs c)" for a
    using inc cond by (simp add: Accept_def acl_abs_def del: unat_eq_zero)
  moreover have "acl_abs (Release c) = (ac_inhibit c, unat ?x - 1)"
    using dec zero by (auto simp: Release_def acl_abs_def)
  ultimately show "apsnd acl_abs (acl_step x c) = counter_step (unat ?m) x (acl_abs c)"
  proof (cases x)
    case (OpInhibit i)
    then show ?thesis by (simp add: acl_abs_def Acl_SetInhibit_def)
  qed (simp_all add: acl_abs_def)
  show "ac_maxconnections (snd (acl_step x c)) = ?m"
    by (cases x) (auto simp: Accept_def Release_def Acl_SetInhibit_def)
  show "unat (ac_connections (snd (acl_step x c))) \<le> Suc (unat ?x)"
    using inc dec by (cases x) (auto simp: Accept_def Release_def Acl_SetInhibit_def)
qed

lemma acl_run_refines:
  assumes "ac_maxconnections c \<noteq> 0 \<or> unat (ac_connections c) + length ops < 2 ^ 64"
  shows "apsnd acl_abs (run_ops acl_step ops c)
           = run_ops (counter_step (unat (ac_maxconnections c))) ops (acl_abs c)"
  using assms
proof (induction ops arbitrary: c)
  case Nil
  then show ?case by simp
next
  case (Cons x xs)
  obtain r c1 where step: "acl_step x c = (r, c1)" by (cases "acl_step x c")
  from Cons.prems have pre: "ac_maxconnections c \<noteq> 0 \<or> Suc (unat (ac_connections c)) < 2 ^ 64" by auto
  note st = acl_step_refines [OF pre, of x]
  from st step have "counter_step (unat (ac_maxconnections c)) x (acl_abs c) = (r, acl_abs c1)" by simp
  moreover have "apsnd acl_abs (run_ops acl_step xs c1)
      = run_ops (counter_step (unat (ac_maxconnections c))) xs (acl_abs c1)"
    using Cons.IH [of c1] Cons.prems st(2,3) step by auto
  ultimately show ?case
    using step by (auto split: prod.splits)
qed

lemma run_ops_invariant:
  assumes "\<And>x s. P s \<Longrightarrow> P (snd (f x s))" and "P s"
  shows "P (snd (run_ops f xs s))"
  using assms(2)
proof (induction xs arbitrary: s)
  case (Cons x xs)
  then have "P (snd (f x s))" by (intro assms(1))
  with Cons.IH [of "snd (f x s)"] show ?case by (auto split: prod.splits)
qed simp

section \<open>Properties\<close>

text \<open>
  The access controller, with its 64-bit counter, answers every sequence of \<open>Accept\<close>,
  \<open>Release\<close> and \<open>SetInhibit\<close> calls exactly as a counter of mathematical integers with the
  configured limit does; without a limit (0) this holds for fewer than \<open>2 ^ 64\<close> calls.
\<close>

theorem AccessController_refines_counter:
  assumes "maxconn \<noteq> 0 \<or> length ops < 2 ^ 64"
  shows "apsnd acl_abs (run_ops acl_step ops (NewAccessController maxconn))
           = run_ops (counter_step (unat maxconn)) ops (False, 0)"
  using acl_run_refines [of "NewAccessController maxconn" ops] assms
  by (simp add: NewAccessController_def acl_abs_def)

theorem AccessController_refines_counter_witness:
  "apsnd acl_abs (run_ops acl_step [OpAccept ''a'', OpAccept ''b'', OpRelease, OpAccept ''c'']
       (NewAccessController 1))
     = ([Some True, Some False, None, Some True], (False, 1))"
  using AccessController_refines_counter [of 1 "[OpAccept ''a'', OpAccept ''b'', OpRelease, OpAccept ''c'']"]
  by simp

text \<open>
  With a limit configured, no sequence of calls from any number of streams brings the connection
  counter above the limit.
\<close>

theorem AccessController_limit:
  assumes "maxconn \<noteq> 0"
  shows "ac_connections (snd (run_ops acl_step ops (NewAccessController maxconn))) \<le> maxconn"
proof -
  let ?P = "\<lambda>c. acl_limited c \<and> ac_maxconnections c = maxconn"
  have step: "?P (snd (acl_step x c))" if "?P c" for x c
  proof (cases x)
    case (OpAccept a)
    obtain ok c' where "Accept a c = (ok, c')" by (cases "Accept a c")
    with OpAccept that acl.accept_result [of c a ok c'] show ?thesis by (simp add: word_unat_eq_iff)
  next
    case OpRelease
    with that acl.release_invar [of c] show ?thesis by (simp add: word_unat_eq_iff)
  next
    case (OpInhibit i)
    with that show ?thesis by (auto simp: Acl_SetInhibit_def acl_limited_def)
  qed
  have "?P (NewAccessController maxconn)"
    using assms by (simp add: NewAccessController_def acl_limited_def)
  from run_ops_invariant [of ?P acl_step, OF step this]
  have "?P (snd (run_ops acl_step ops (NewAccessController maxconn)))" by blast
  then show ?thesis by (auto simp: acl_limited_def)
qed

theorem AccessController_limit_witness:
  "ac_connections (snd (run_ops acl_step [OpAccept ''a'', OpAccept ''b''] (NewAccessController 1))) \<le> 1"
  using AccessController_limit [of 1 "[OpAccept ''a'', OpAccept ''b'']"] by simp

end
