(* ===== verification/Config_Load.thy ===== *)
theory Config_Load
  imports Go_Prelude
begin

text \<open>
  \<open>configuration/config.go\<close>: the configuration records and the post-processing of a decoded
  configuration. The JSON decoder is an argument: it gets the input and the default configuration
  and returns an error or the value the configuration pointer has afterwards (\<open>None\<close>, the nil
  pointer, for the JSON value \<open>null\<close>).
\<close>

record Authentication =
  auth_Type :: string
  auth_Realm :: string
  auth_User :: string
  auth_Users :: "string list"

record Resource =
  res_Type :: string
  res_Api :: string
  res_Serve :: string
  res_Remote :: string
  res_Remotes :: "string list"
  res_ClientInterface :: string
  res_Cache :: u64
  res_Authentication :: Authentication
  res_Mru :: u64
  res_Preamble :: string

record UserCredentials =
  Password :: string

record Notification =
  note_Event :: string
  note_Type :: string
  note_Url :: string
  note_Authentication :: Authentication

record Configuration =
  Listen :: string
  Timeout :: u64
  Reconnect :: u64
  ReadTimeout :: u64
  InputBuffer :: u64
  OutputBuffer :: u64
  MaxConnections :: u64
  FullConnections :: u64
  NoStats :: bool
  HeartbeatInterval :: u64
  Log :: string
  Profile :: bool
  UserList :: "string \<rightharpoonup> UserCredentials"
  Resources :: "Resource list"
  Notifications :: "Notification list"

definition DefaultConfiguration :: Configuration where
  "DefaultConfiguration =
     \<lparr>Listen = ''localhost:http'', Timeout = 0, Reconnect = 10, ReadTimeout = 0, InputBuffer = 1000,
      OutputBuffer = 400, MaxConnections = 0, FullConnections = 0, NoStats = False,
      HeartbeatInterval = 60, Log = [], Profile = False, UserList = Map.empty, Resources = [],
      Notifications = []\<rparr>"

text \<open>The user of a stanza is moved to the front of its user list.\<close>

definition merge_user :: "Authentication \<Rightarrow> Authentication" where
  "merge_user a =
     (if length (auth_Type a) > 0 \<and> length (auth_User a) > 0
      then a\<lparr>auth_Users := auth_User a # auth_Users a, auth_User := []\<rparr>
      else a)"

definition fix_resource :: "Resource \<Rightarrow> Resource" where
  "fix_resource r =
     (let r1 = (if res_Type r = ''stream'' \<and> length (res_Remote r) > 0
                then r\<lparr>res_Remotes := res_Remote r # res_Remotes r, res_Remote := []\<rparr>
                else r);
          r2 = r1\<lparr>res_Authentication := merge_user (res_Authentication r1)\<rparr>
      in if res_Mru r2 = 0 then r2\<lparr>res_Mru := 1500\<rparr> else r2)"

definition fix_notification :: "Notification \<Rightarrow> Notification" where
  "fix_notification n = n\<lparr>note_Authentication := merge_user (note_Authentication n)\<rparr>"

definition fix_configuration :: "Configuration \<Rightarrow> Configuration" where
  "fix_configuration c =
     c\<lparr>Resources := map fix_resource (Resources c),
       Notifications := map fix_notification (Notifications c)\<rparr>"

definition LoadConfiguration ::
  "('i \<Rightarrow> Configuration \<Rightarrow> 'e + Configuration option) \<Rightarrow> 'i \<Rightarrow> ('e + Configuration) go" where
  "LoadConfiguration decode reader =
     (case decode reader DefaultConfiguration of
        Inl err \<Rightarrow> Inr (Inl err)
      | Inr None \<Rightarrow> Inl NilDereference
      | Inr (Some config) \<Rightarrow> Inr (Inr (fix_configuration config)))"

text \<open>\<open>open\<close> is \<open>os.Open\<close>: an error or the reader of the file.\<close>

definition LoadConfigurationFile ::
  "(string \<Rightarrow> 'e + 'i) \<Rightarrow> ('i \<Rightarrow> Configuration \<Rightarrow> 'e + Configuration option) \<Rightarrow> string
     \<Rightarrow> ('e + Configuration) go" where
  "LoadConfigurationFile open decode filename =
     (case open filename of
        Inr fd \<Rightarrow> LoadConfiguration decode fd
      | Inl err \<Rightarrow> Inr (Inl err))"

definition LoadConfigurationBytes ::
  "(bytes \<Rightarrow> Configuration \<Rightarrow> 'e + Configuration option) \<Rightarrow> bytes \<Rightarrow> ('e + Configuration) go" where
  "LoadConfigurationBytes decode json = LoadConfiguration decode json"

section \<open>Normal form\<close>

definition merged_auth :: "Authentication \<Rightarrow> bool" where
  "merged_auth a \<longleftrightarrow> auth_Type a = [] \<or> auth_User a = []"

definition normal_resource :: "Resource \<Rightarrow> bool" where
  "normal_resource r \<longleftrightarrow> (res_Type r = ''stream'' \<longrightarrow> res_Remote r = [])
     \<and> merged_auth (res_Authentication r) \<and> res_Mru r \<noteq> 0"

definition normal_configuration :: "Configuration \<Rightarrow> bool" where
  "normal_configuration c \<longleftrightarrow> list_all normal_resource (Resources c)
     \<and> list_all (\<lambda>n. merged_auth (note_Authentication n)) (Notifications c)"

text \<open>The upstream URLs and the users a stanza stands for, in whichever field they were written.\<close>

definition all_remotes :: "Resource \<Rightarrow> string list" where
  "all_remotes r = (if res_Remote r = [] then [] else [res_Remote r]) @ res_Remotes r"

definition all_users :: "Authentication \<Rightarrow> string list" where
  "all_users a = (if auth_User a = [] then [] else [auth_User a]) @ auth_Users a"

lemma merge_user_merged [simp]: "merged_auth (merge_user a)"
  by (simp add: merge_user_def merged_auth_def)

lemma merge_user_id: "merged_auth a \<Longrightarrow> merge_user a = a"
  by (auto simp: merge_user_def merged_auth_def)

lemma merge_user_fields [simp]:
  "auth_Type (merge_user a) = auth_Type a"
  "auth_Realm (merge_user a) = auth_Realm a"
  "all_users (merge_user a) = all_users a"
  by (simp_all add: merge_user_def all_users_def)

lemma merge_user_Users: "auth_Type a \<noteq> [] \<Longrightarrow> auth_Users (merge_user a) = all_users a"
  by (simp add: merge_user_def all_users_def)

lemma fix_resource_normal: "normal_resource (fix_resource r)"
  by (simp add: fix_resource_def normal_resource_def Let_def)

lemma fix_resource_id: "normal_resource r \<Longrightarrow> fix_resource r = r"
  by (auto simp: fix_resource_def normal_resource_def Let_def merge_user_id)

lemma fix_notification_id: "merged_auth (note_Authentication n) \<Longrightarrow> fix_notification n = n"
  by (simp add: fix_notification_def merge_user_id)

lemma fix_configuration_id: "normal_configuration c \<Longrightarrow> fix_configuration c = c"
  unfolding fix_configuration_def normal_configuration_def list_all_iff
  by (simp add: map_idI fix_resource_id fix_notification_id)

lemma fix_configuration_normal: "normal_configuration (fix_configuration c)"
  by (auto simp: fix_configuration_def normal_configuration_def list_all_iff fix_resource_normal
      fix_notification_def)

section \<open>Properties\<close>


text \<open>A configuration with one stream, as the decoder delivers it.\<close>

definition example_resource :: Resource where
  "example_resource =
     \<lparr>res_Type = ''stream'', res_Api = [], res_Serve = ''/s.ts'', res_Remote = ''http://a/'',
      res_Remotes = [''http://b/''], res_ClientInterface = [], res_Cache = 0,
      res_Authentication = \<lparr>auth_Type = ''basic'', auth_Realm = [], auth_User = ''u'', auth_Users = []\<rparr>,
      res_Mru = 0, res_Preamble = []\<rparr>"


end
