(* ===== verification/Auth_Users.thy ===== *)
theory Auth_Users
  imports Config_Load
begin

text \<open>
  The package \<open>auth\<close>: the authenticators of \<open>auth/authentication.go\<close> (accept all, deny all, HTTP
  basic and bearer tokens) and the HTTP front end of \<open>auth/httpauth.go\<close>.

  The token of a user of the basic scheme is \<open>base64(user:password)\<close>; the encoder of
  \<open>encoding/base64\<close> is defined here. The two stores of tokens share their behaviour, which is
  stated once in the locale \<open>credential_store\<close>.
\<close>

section \<open>Base 64\<close>

definition base64_alphabet :: string where
  "base64_alphabet = ''ABCDEFGHIJKLMNOPQRSTUVWXYZabcdefghijklmnopqrstuvwxyz0123456789+/''"

definition b64 :: "nat \<Rightarrow> char" where
  "b64 n = base64_alphabet ! n"

text \<open>\<open>base64.StdEncoding.EncodeToString\<close>, on the bytes of a string.\<close>

fun base64_encode :: "nat list \<Rightarrow> string" where
  "base64_encode [] = []"
| "base64_encode [a] = [b64 (a div 4), b64 (a mod 4 * 16), CHR ''='', CHR ''='']"
| "base64_encode [a, b] =
     [b64 (a div 4), b64 (a mod 4 * 16 + b div 16), b64 (b mod 16 * 4), CHR ''='']"
| "base64_encode (a # b # c # r) =
     b64 (a div 4) # b64 (a mod 4 * 16 + b div 16) # b64 (b mod 16 * 4 + c div 64) # b64 (c mod 64)
       # base64_encode r"

definition EncodeToString :: "string \<Rightarrow> string" where
  "EncodeToString s = base64_encode (map of_char s)"

lemma base64_alphabet_facts:
  "length base64_alphabet = 64" "distinct base64_alphabet" "CHR ''='' \<notin> set base64_alphabet"
  by code_simp+

lemma b64_inj: "m < 64 \<Longrightarrow> n < 64 \<Longrightarrow> b64 m = b64 n \<longleftrightarrow> m = n"
  unfolding b64_def using base64_alphabet_facts by (simp add: nth_eq_iff_index_eq)

lemma b64_not_pad: "n < 64 \<Longrightarrow> b64 n \<noteq> CHR ''=''" "n < 64 \<Longrightarrow> CHR ''='' \<noteq> b64 n"
  unfolding b64_def using base64_alphabet_facts by (metis nth_mem)+

text \<open>The sextets of a byte triple determine it.\<close>

lemma sextet_bounds:
  fixes a b c :: nat
  shows "a < 256 \<Longrightarrow> a div 4 < 64" and "a mod 4 * 16 < 64" and "b < 256 \<Longrightarrow> a mod 4 * 16 + b div 16 < 64"
    and "b mod 16 * 4 < 64" and "c < 256 \<Longrightarrow> b mod 16 * 4 + c div 64 < 64" and "c mod 64 < 64"
proof -
  have m: "a mod 4 \<le> 3" "b mod 16 \<le> 15" by (simp_all add: less_Suc_eq_le [symmetric])
  then show "a mod 4 * 16 < 64" "b mod 16 * 4 < 64" by linarith+
  show "a mod 4 * 16 + b div 16 < 64" if "b < 256"
  proof -
    from that have "b div 16 < 16" by auto
    with m show ?thesis by linarith
  qed
  show "b mod 16 * 4 + c div 64 < 64" if "c < 256"
  proof -
    from that have "c div 64 < 4" by auto
    with m show ?thesis by linarith
  qed
qed auto

lemma sextet_split:
  fixes a a' b b' k :: nat
  assumes "b < k" "b' < k" "a * k + b = a' * k + b'"
  shows "a = a' \<and> b = b'"
proof -
  have "(a * k + b) div k = a" "(a' * k + b') div k = a'" using assms(1,2) by auto
  with assms(3) have "a = a'" by simp
  with assms(3) show ?thesis by simp
qed

lemma byte_of_parts: "(a::nat) div k = a' div k \<Longrightarrow> a mod k = a' mod k \<Longrightarrow> a = a'"
  by (metis div_mult_mod_eq)

lemma triple_inj:
  fixes a b c a' b' c' :: nat
  assumes lt: "a < 256" "b < 256" "c < 256" "a' < 256" "b' < 256" "c' < 256"
    and eq: "a div 4 = a' div 4" "a mod 4 * 16 + b div 16 = a' mod 4 * 16 + b' div 16"
      "b mod 16 * 4 + c div 64 = b' mod 16 * 4 + c' div 64" "c mod 64 = c' mod 64"
  shows "a = a' \<and> b = b' \<and> c = c'"
proof -
  have s1: "a mod 4 = a' mod 4 \<and> b div 16 = b' div 16"
    by (rule sextet_split [where k = 16]) (use lt eq(2) in auto)
  have s2: "b mod 16 = b' mod 16 \<and> c div 64 = c' div 64"
    by (rule sextet_split [where k = 4]) (use lt eq(3) in auto)
  from s1 s2 eq show ?thesis
    using byte_of_parts [of a 4 a'] byte_of_parts [of b 16 b'] byte_of_parts [of c 64 c'] by simp
qed

lemma base64_encode_inj:
  "list_all (\<lambda>n. n < 256) xs \<Longrightarrow> list_all (\<lambda>n. n < 256) ys \<Longrightarrow>
     base64_encode xs = base64_encode ys \<Longrightarrow> xs = ys"
proof (induction xs arbitrary: ys rule: base64_encode.induct)
  case 1
  then show ?case by (cases ys rule: base64_encode.cases) auto
next
  case (2 a)
  show ?case
  proof (cases ys rule: base64_encode.cases)
    case (2 a')
    with "2.prems" triple_inj [of a 0 0 a' 0 0] show ?thesis
      by (simp add: b64_inj sextet_bounds)
  qed (use "2.prems" in \<open>auto simp: b64_not_pad sextet_bounds\<close>)
next
  case (3 a b)
  show ?case
  proof (cases ys rule: base64_encode.cases)
    case (3 a' b')
    with "3.prems" triple_inj [of a b 0 a' b' 0] show ?thesis
      by (simp add: b64_inj sextet_bounds)
  qed (use "3.prems" in \<open>auto simp: b64_not_pad sextet_bounds\<close>)
next
  case (4 a b c r)
  show ?case
  proof (cases ys rule: base64_encode.cases)
    case (4 a' b' c' r')
    with "4.prems" triple_inj [of a b c a' b' c'] "4.IH" [of r'] show ?thesis
      by (simp add: b64_inj sextet_bounds)
  qed (use "4.prems" in \<open>auto simp: b64_not_pad sextet_bounds\<close>)
qed

lemma EncodeToString_inj: "EncodeToString s = EncodeToString t \<longleftrightarrow> s = t"
proof
  assume "EncodeToString s = EncodeToString t"
  then have "map (of_char :: char \<Rightarrow> nat) s = map of_char t"
    unfolding EncodeToString_def by (rule base64_encode_inj [rotated 2]) (simp_all add: list_all_iff)
  then show "s = t"
    by (rule map_injective) (auto intro: injI)
qed simp

section \<open>Authenticators\<close>

text \<open>\<open>strings.SplitN(s, " ", 2)\<close>.\<close>

definition SplitN2 :: "string \<Rightarrow> string list" where
  "SplitN2 s =
     (case dropWhile (\<lambda>c. c \<noteq> CHR '' '') s of
        [] \<Rightarrow> [s]
      | c # rest \<Rightarrow> [takeWhile (\<lambda>c. c \<noteq> CHR '' '') s, rest])"

text \<open>Indexing a \<open>map[string]bool\<close> yields \<open>false\<close> for a missing key.\<close>

definition map_bool :: "(string \<rightharpoonup> bool) \<Rightarrow> string \<Rightarrow> bool" where
  "map_bool m k = (case m k of None \<Rightarrow> False | Some b \<Rightarrow> b)"

record basicAuthenticator =
  ba_tokens :: "string \<rightharpoonup> bool"
  ba_users :: "string \<rightharpoonup> string"
  ba_realm :: string

definition basic_Authenticate :: "string \<Rightarrow> basicAuthenticator \<Rightarrow> bool" where
  "basic_Authenticate authorization auth =
     (if prefix ''Basic'' authorization
      then let hash = SplitN2 authorization in
             if length hash \<ge> 2 then map_bool (ba_tokens auth) (hash ! 1) else False
      else False)"

definition basic_AddUser :: "string \<Rightarrow> string \<Rightarrow> basicAuthenticator \<Rightarrow> basicAuthenticator" where
  "basic_AddUser user password auth =
     (let tokens = (case ba_users auth user of
                      Some oldtoken \<Rightarrow> (ba_tokens auth)(oldtoken := None)
                    | None \<Rightarrow> ba_tokens auth);
          token = EncodeToString (user @ '':'' @ password)
      in auth\<lparr>ba_tokens := tokens(token \<mapsto> True), ba_users := (ba_users auth)(user \<mapsto> token)\<rparr>)"

definition basic_RemoveUser :: "string \<Rightarrow> basicAuthenticator \<Rightarrow> basicAuthenticator" where
  "basic_RemoveUser user auth =
     (case ba_users auth user of
        Some token \<Rightarrow> auth\<lparr>ba_users := (ba_users auth)(user := None),
                           ba_tokens := (ba_tokens auth)(token := None)\<rparr>
      | None \<Rightarrow> auth)"

definition basic_GetLogin :: "string \<Rightarrow> basicAuthenticator \<Rightarrow> string" where
  "basic_GetLogin user auth =
     (case ba_users auth user of Some token \<Rightarrow> ''Basic '' @ token | None \<Rightarrow> [])"

definition basic_GetAuthenticateRequest :: "basicAuthenticator \<Rightarrow> string" where
  "basic_GetAuthenticateRequest auth = ''Basic realm=\"'' @ ba_realm auth @ ''\" charset=\"UTF-8\"''"

fun add_allowed ::
  "(string \<Rightarrow> string \<Rightarrow> 'a \<Rightarrow> 'a) \<Rightarrow> string list \<Rightarrow> (string \<rightharpoonup> UserCredentials) \<Rightarrow> 'a \<Rightarrow> 'a" where
  "add_allowed AddUser [] credentials auth = auth"
| "add_allowed AddUser (user # users) credentials auth =
     add_allowed AddUser users credentials
       (case credentials user of Some cred \<Rightarrow> AddUser user (Password cred) auth | None \<Rightarrow> auth)"

definition newBasicAuthenticator ::
  "string list \<Rightarrow> (string \<rightharpoonup> UserCredentials) \<Rightarrow> string \<Rightarrow> basicAuthenticator" where
  "newBasicAuthenticator allowlist credentials realm =
     add_allowed basic_AddUser allowlist credentials
       \<lparr>ba_tokens = Map.empty, ba_users = Map.empty, ba_realm = realm\<rparr>"

record tokenAuthenticator =
  ta_tokens :: "string \<rightharpoonup> bool"
  ta_users :: "string \<rightharpoonup> string"

definition token_Authenticate :: "string \<Rightarrow> tokenAuthenticator \<Rightarrow> bool" where
  "token_Authenticate authorization auth =
     (if prefix ''Bearer'' authorization
      then let hash = SplitN2 authorization in
             if length hash \<ge> 2 then map_bool (ta_tokens auth) (hash ! 1) else False
      else False)"

definition token_AddUser :: "string \<Rightarrow> string \<Rightarrow> tokenAuthenticator \<Rightarrow> tokenAuthenticator" where
  "token_AddUser user password auth =
     (let tokens = (case ta_users auth user of
                      Some oldtoken \<Rightarrow> (ta_tokens auth)(oldtoken := None)
                    | None \<Rightarrow> ta_tokens auth)
      in auth\<lparr>ta_tokens := tokens(password \<mapsto> True), ta_users := (ta_users auth)(user \<mapsto> password)\<rparr>)"

definition token_RemoveUser :: "string \<Rightarrow> tokenAuthenticator \<Rightarrow> tokenAuthenticator" where
  "token_RemoveUser user auth =
     (case ta_users auth user of
        Some token \<Rightarrow> auth\<lparr>ta_users := (ta_users auth)(user := None),
                           ta_tokens := (ta_tokens auth)(token := None)\<rparr>
      | None \<Rightarrow> auth)"

definition token_GetLogin :: "string \<Rightarrow> tokenAuthenticator \<Rightarrow> string" where
  "token_GetLogin user auth =
     (case ta_users auth user of Some token \<Rightarrow> ''Bearer '' @ token | None \<Rightarrow> [])"

definition newTokenAuthenticator ::
  "string list \<Rightarrow> (string \<rightharpoonup> UserCredentials) \<Rightarrow> tokenAuthenticator" where
  "newTokenAuthenticator whitelist credentials =
     add_allowed token_AddUser whitelist credentials \<lparr>ta_tokens = Map.empty, ta_users = Map.empty\<rparr>"

text \<open>The interface \<open>Authenticator\<close> and its four implementations.\<close>

datatype Authenticator =
    PassAuthenticator
  | DenyAuthenticator
  | BasicAuthenticator basicAuthenticator
  | TokenAuthenticator tokenAuthenticator

definition NewAuthenticator ::
  "Authentication \<Rightarrow> (string \<rightharpoonup> UserCredentials) \<Rightarrow> Authenticator" where
  "NewAuthenticator auth credentials =
     (if auth_Type auth = [] then PassAuthenticator
      else if auth_Type auth = ''basic''
        then BasicAuthenticator (newBasicAuthenticator (auth_Users auth) credentials (auth_Realm auth))
      else if auth_Type auth = ''bearer''
        then TokenAuthenticator (newTokenAuthenticator (auth_Users auth) credentials)
      else DenyAuthenticator)"

fun Authenticate :: "Authenticator \<Rightarrow> string \<Rightarrow> bool" where
  "Authenticate PassAuthenticator authorization = True"
| "Authenticate DenyAuthenticator authorization = False"
| "Authenticate (BasicAuthenticator a) authorization = basic_Authenticate authorization a"
| "Authenticate (TokenAuthenticator a) authorization = token_Authenticate authorization a"

fun AddUser :: "string \<Rightarrow> string \<Rightarrow> Authenticator \<Rightarrow> Authenticator" where
  "AddUser user password (BasicAuthenticator a) = BasicAuthenticator (basic_AddUser user password a)"
| "AddUser user password (TokenAuthenticator a) = TokenAuthenticator (token_AddUser user password a)"
| "AddUser user password auth = auth"

fun RemoveUser :: "string \<Rightarrow> Authenticator \<Rightarrow> Authenticator" where
  "RemoveUser user (BasicAuthenticator a) = BasicAuthenticator (basic_RemoveUser user a)"
| "RemoveUser user (TokenAuthenticator a) = TokenAuthenticator (token_RemoveUser user a)"
| "RemoveUser user auth = auth"

fun GetLogin :: "string \<Rightarrow> Authenticator \<Rightarrow> string" where
  "GetLogin user (BasicAuthenticator a) = basic_GetLogin user a"
| "GetLogin user (TokenAuthenticator a) = token_GetLogin user a"
| "GetLogin user auth = []"

fun GetAuthenticateRequest :: "Authenticator \<Rightarrow> string" where
  "GetAuthenticateRequest (BasicAuthenticator a) = basic_GetAuthenticateRequest a"
| "GetAuthenticateRequest auth = []"

record UserAuthenticator =
  ua_Auth :: Authenticator
  ua_User :: string

definition NewUserAuthenticator :: "Authentication \<Rightarrow> Authenticator \<Rightarrow> UserAuthenticator option" where
  "NewUserAuthenticator cred auth =
     (case auth_Users cred of
        [] \<Rightarrow> None
      | user # users \<Rightarrow> Some \<lparr>ua_Auth = auth, ua_User = user\<rparr>)"

definition user_GetLogin :: "UserAuthenticator \<Rightarrow> string" where
  "user_GetLogin auth = GetLogin (ua_User auth) (ua_Auth auth)"

section \<open>HTTP authentication\<close>

definition HandleHttpAuthentication ::
  "Authenticator \<Rightarrow> http_request \<Rightarrow> response \<Rightarrow> bool \<times> response" where
  "HandleHttpAuthentication auth request writer =
     (if \<not> Authenticate auth (header_get ''Authorization'' (rq_header request)) then
        let realm = GetAuthenticateRequest auth in
          if length realm > 0
          then (False, write_header 401 (add_header ''WWW-Authenticate'' realm writer))
          else (False, write_header 403 writer)
      else (True, writer))"

section \<open>Credential stores\<close>

text \<open>
  What the basic and the bearer store promise. \<open>tok\<close> computes the token of a user, \<open>token_of\<close> is
  the token the store has for a user and \<open>accepts\<close> the tokens it lets pass. A store forgets the
  previous token of a user, even if another user has the same one.
\<close>

locale credential_store =
  fixes add :: "string \<Rightarrow> string \<Rightarrow> 'a \<Rightarrow> 'a"
    and remove :: "string \<Rightarrow> 'a \<Rightarrow> 'a"
    and accepts :: "'a \<Rightarrow> string \<Rightarrow> bool"
    and token_of :: "'a \<Rightarrow> string \<Rightarrow> string option"
    and tok :: "string \<Rightarrow> string \<Rightarrow> string"
  assumes token_of_add: "token_of (add u p a) v = (if v = u then Some (tok u p) else token_of a v)"
    and accepts_add: "accepts (add u p a) t \<longleftrightarrow> t = tok u p \<or> accepts a t \<and> token_of a u \<noteq> Some t"
    and token_of_remove: "token_of (remove u a) v = (if v = u then None else token_of a v)"
    and accepts_remove: "accepts (remove u a) t \<longleftrightarrow> accepts a t \<and> token_of a u \<noteq> Some t"
begin

text \<open>Soundness of a store: only tokens of present users are accepted. Completeness: all of them
  are. Both are kept by the operations, completeness if no two users share a token.\<close>

definition sound :: "'a \<Rightarrow> bool" where
  "sound a \<longleftrightarrow> (\<forall>t. accepts a t \<longrightarrow> (\<exists>u. token_of a u = Some t))"

definition complete :: "'a \<Rightarrow> bool" where
  "complete a \<longleftrightarrow> (\<forall>u t. token_of a u = Some t \<longrightarrow> accepts a t)"

lemma sound_add: "sound a \<Longrightarrow> sound (add u p a)"
  unfolding sound_def by (metis accepts_add token_of_add)

lemma sound_remove: "sound a \<Longrightarrow> sound (remove u a)"
  unfolding sound_def by (metis accepts_remove token_of_remove)

lemma token_of_add_allowed:
  assumes "creds u = Some c"
  shows "u \<in> set vs \<or> token_of a u = Some (tok u (Password c)) \<Longrightarrow>
           token_of (add_allowed add vs creds a) u = Some (tok u (Password c))"
proof (induction vs arbitrary: a)
  case (Cons v vs)
  show ?case
  proof (cases "creds v")
    case None
    with Cons assms show ?thesis by auto
  next
    case (Some x)
    have "u \<in> set vs \<or> token_of (add v (Password x) a) u = Some (tok u (Password c))"
      using Cons.prems Some assms by (auto simp: token_of_add)
    from Cons.IH [OF this] Some show ?thesis by simp
  qed
qed simp

lemma complete_add:
  assumes "complete a" and "\<And>v t. v \<noteq> u \<Longrightarrow> token_of a u = Some t \<Longrightarrow> token_of a v \<noteq> Some t"
  shows "complete (add u p a)"
  using assms unfolding complete_def by (fastforce simp: accepts_add token_of_add split: if_splits)

lemma complete_remove:
  assumes "complete a" and "\<And>v t. v \<noteq> u \<Longrightarrow> token_of a u = Some t \<Longrightarrow> token_of a v \<noteq> Some t"
  shows "complete (remove u a)"
  using assms unfolding complete_def by (fastforce simp: accepts_remove token_of_remove split: if_splits)

lemma removed_rejected: "token_of a u = Some t \<Longrightarrow> \<not> accepts (remove u a) t"
  by (simp add: accepts_remove)

lemma replaced_rejected: "token_of a u = Some t \<Longrightarrow> tok u p \<noteq> t \<Longrightarrow> \<not> accepts (add u p a) t"
  by (auto simp: accepts_add)

text \<open>Filling an empty store from an allow list: exactly the tokens of the listed users with
  credentials are accepted.\<close>

definition listed :: "string list \<Rightarrow> (string \<rightharpoonup> UserCredentials) \<Rightarrow> string \<Rightarrow> bool" where
  "listed us creds t \<longleftrightarrow> (\<exists>u \<in> set us. \<exists>c. creds u = Some c \<and> t = tok u (Password c))"

lemma accepts_add_allowed:
  assumes "\<And>u t. token_of a u = Some t \<Longrightarrow> \<exists>c. creds u = Some c \<and> t = tok u (Password c)"
  shows "accepts (add_allowed add us creds a) t \<longleftrightarrow> accepts a t \<or> listed us creds t"
  using assms
proof (induction us arbitrary: a)
  case Nil
  then show ?case by (simp add: listed_def)
next
  case (Cons u us)
  show ?case
  proof (cases "creds u")
    case None
    with Cons show ?thesis by (simp add: listed_def)
  next
    case (Some c)
    let ?a = "add u (Password c) a"
    have "\<exists>c. creds v = Some c \<and> s = tok v (Password c)" if "token_of ?a v = Some s" for v s
      using that Cons.prems Some by (auto simp: token_of_add split: if_splits)
    from Cons.IH [of ?a, OF this]
    have "accepts (add_allowed add us creds ?a) t \<longleftrightarrow> accepts ?a t \<or> listed us creds t" .
    moreover have "accepts ?a t \<longleftrightarrow> accepts a t \<or> t = tok u (Password c)"
      using Cons.prems [of u t] Some by (auto simp: accepts_add)
    ultimately show ?thesis
      using Some by (auto simp: listed_def)
  qed
qed

end

definition basic_token :: "string \<Rightarrow> string \<Rightarrow> string" where
  "basic_token user password = EncodeToString (user @ '':'' @ password)"

interpretation basic_store: credential_store basic_AddUser basic_RemoveUser
  "\<lambda>a. map_bool (ba_tokens a)" ba_users basic_token
  by unfold_locales
    (auto simp: basic_AddUser_def basic_RemoveUser_def basic_token_def map_bool_def Let_def
      split: option.splits)

interpretation bearer_store: credential_store token_AddUser token_RemoveUser
  "\<lambda>a. map_bool (ta_tokens a)" ta_users "\<lambda>user password. password"
  by unfold_locales
    (auto simp: token_AddUser_def token_RemoveUser_def map_bool_def Let_def split: option.splits)

text \<open>The token part of an \<open>Authorization\<close> header.\<close>

definition credentials_of :: "string \<Rightarrow> string \<Rightarrow> string \<Rightarrow> bool" where
  "credentials_of scheme h t \<longleftrightarrow>
     (\<exists>w. h = w @ CHR '' '' # t \<and> prefix scheme w \<and> CHR '' '' \<notin> set w)"

lemma SplitN2_first: "CHR '' '' \<notin> set w \<Longrightarrow> SplitN2 (w @ CHR '' '' # t) = [w, t]"
  by (simp add: SplitN2_def span_first)

lemma SplitN2_none: "CHR '' '' \<notin> set h \<Longrightarrow> SplitN2 h = [h]"
  by (simp add: SplitN2_def span_none)

lemma SplitN2_two:
  "(length (SplitN2 h) \<ge> 2 \<and> P (SplitN2 h ! 1)) \<longleftrightarrow> (\<exists>w t. h = w @ CHR '' '' # t \<and> CHR '' '' \<notin> set w \<and> P t)"
proof (cases "CHR '' '' \<in> set h")
  case False
  then have "h \<noteq> w @ CHR '' '' # t" for w t by (metis in_set_conv_decomp)
  with False show ?thesis by (simp add: SplitN2_none)
next
  case True
  then obtain w t where h: "h = w @ CHR '' '' # t" "CHR '' '' \<notin> set w" by (metis split_list_first)
  have "w' = w \<and> t' = t" if "h = w' @ CHR '' '' # t'" "CHR '' '' \<notin> set w'" for w' t'
    using that(1) append_Cons_first_eq [OF that(2) h(2)] unfolding h(1) by metis
  moreover have "length (SplitN2 h) \<ge> 2 \<and> SplitN2 h ! 1 = t"
    unfolding h(1) using SplitN2_first [OF h(2)] by simp
  ultimately show ?thesis using h by metis
qed

lemma Authenticate_scheme:
  assumes "CHR '' '' \<notin> set scheme"
  shows "(if prefix scheme h
          then let hash = SplitN2 h in if length hash \<ge> 2 then P (hash ! 1) else False
          else False) \<longleftrightarrow> (\<exists>t. credentials_of scheme h t \<and> P t)"
proof -
  have "prefix scheme h \<and> (\<exists>w t. h = w @ CHR '' '' # t \<and> CHR '' '' \<notin> set w \<and> P t)
      \<longleftrightarrow> (\<exists>t. credentials_of scheme h t \<and> P t)"
    unfolding credentials_of_def using prefix_before_first [OF assms] by metis
  then show ?thesis using SplitN2_two [of h P] by (simp add: Let_def) metis
qed

lemma basic_Authenticate_iff:
  "basic_Authenticate h a \<longleftrightarrow> (\<exists>t. credentials_of ''Basic'' h t \<and> map_bool (ba_tokens a) t)"
  unfolding basic_Authenticate_def by (rule Authenticate_scheme) simp

lemma token_Authenticate_iff:
  "token_Authenticate h a \<longleftrightarrow> (\<exists>t. credentials_of ''Bearer'' h t \<and> map_bool (ta_tokens a) t)"
  unfolding token_Authenticate_def by (rule Authenticate_scheme) simp

lemma credentials_of_login:
  "CHR '' '' \<notin> set scheme \<Longrightarrow> credentials_of scheme (scheme @ CHR '' '' # t) t"
  unfolding credentials_of_def by blast

lemma newBasic_accepts:
  "map_bool (ba_tokens (newBasicAuthenticator us creds realm)) t \<longleftrightarrow> basic_store.listed us creds t"
  unfolding newBasicAuthenticator_def
  by (subst basic_store.accepts_add_allowed) (auto simp: map_bool_def)

lemma newToken_accepts:
  "map_bool (ta_tokens (newTokenAuthenticator us creds)) t \<longleftrightarrow> bearer_store.listed us creds t"
  unfolding newTokenAuthenticator_def
  by (subst bearer_store.accepts_add_allowed) (auto simp: map_bool_def)

text \<open>Without a colon in the user names, different credentials have different tokens.\<close>

lemma basic_token_inj:
  assumes "CHR '':'' \<notin> set u" and "CHR '':'' \<notin> set v"
  shows "basic_token u p = basic_token v q \<longleftrightarrow> u = v \<and> p = q"
  using append_Cons_first_eq [OF assms] by (simp add: basic_token_def EncodeToString_inj)

text \<open>The token a login of the basic or the bearer scheme carries is unique.\<close>

lemma credentials_of_unique:
  "credentials_of s h t \<Longrightarrow> credentials_of s' h t' \<Longrightarrow> t = t'"
  unfolding credentials_of_def using append_Cons_first_eq by metis

lemma basic_login_iff:
  "ba_users a u = Some t \<Longrightarrow> basic_Authenticate (basic_GetLogin u a) b \<longleftrightarrow> map_bool (ba_tokens b) t"
  using credentials_of_login [of "''Basic''" t]
  by (auto simp: basic_Authenticate_iff basic_GetLogin_def dest: credentials_of_unique)

lemma token_login_iff:
  "ta_users a u = Some t \<Longrightarrow> token_Authenticate (token_GetLogin u a) b \<longleftrightarrow> map_bool (ta_tokens b) t"
  using credentials_of_login [of "''Bearer''" t]
  by (auto simp: token_Authenticate_iff token_GetLogin_def dest: credentials_of_unique)

section \<open>Properties\<close>


text \<open>
  C23. Round trip of credentials: once a user has been added, with whatever users and passwords before,
  the login string handed out for the user is accepted (the deny authenticator excepted).
\<close>

theorem AddUser_login:
  assumes "auth \<noteq> DenyAuthenticator"
  shows "Authenticate (AddUser u p auth) (GetLogin u (AddUser u p auth))"
proof (cases auth)
  case (BasicAuthenticator a)
  have "ba_users (basic_AddUser u p a) u = Some (basic_token u p)" by (simp add: basic_store.token_of_add)
  with BasicAuthenticator show ?thesis by (simp add: basic_login_iff basic_store.accepts_add)
next
  case (TokenAuthenticator a)
  have "ta_users (token_AddUser u p a) u = Some p" by (simp add: bearer_store.token_of_add)
  with TokenAuthenticator show ?thesis by (simp add: token_login_iff bearer_store.accepts_add)
qed (use assms in auto)

theorem AddUser_login_witness:
  "Authenticate (AddUser ''u'' ''p'' (BasicAuthenticator (newBasicAuthenticator [] Map.empty ''r'')))
     (GetLogin ''u'' (AddUser ''u'' ''p'' (BasicAuthenticator (newBasicAuthenticator [] Map.empty ''r''))))"
  using AddUser_login [of "BasicAuthenticator (newBasicAuthenticator [] Map.empty ''r'')" "''u''" "''p''"]
  by simp

text \<open>
  C24. Revocation: the login string a user had is no longer accepted after the user has been removed,
  nor after the user has been added again with a password that gives another login string.
\<close>

theorem login_revoked:
  assumes "GetLogin u auth \<noteq> []"
  shows "\<not> Authenticate (RemoveUser u auth) (GetLogin u auth)
     \<and> (GetLogin u (AddUser u p auth) \<noteq> GetLogin u auth \<longrightarrow>
          \<not> Authenticate (AddUser u p auth) (GetLogin u auth))"
proof (cases auth)
  case (BasicAuthenticator a)
  with assms obtain t where t: "ba_users a u = Some t" by (auto simp: basic_GetLogin_def split: option.splits)
  have "ba_users (basic_AddUser u p a) u = Some (basic_token u p)" by (simp add: basic_store.token_of_add)
  with BasicAuthenticator t basic_store.removed_rejected [OF t] basic_store.replaced_rejected [OF t, of p]
  show ?thesis by (auto simp: basic_login_iff) (auto simp: basic_GetLogin_def)
next
  case (TokenAuthenticator a)
  with assms obtain t where t: "ta_users a u = Some t" by (auto simp: token_GetLogin_def split: option.splits)
  have "ta_users (token_AddUser u p a) u = Some p" by (simp add: bearer_store.token_of_add)
  with TokenAuthenticator t bearer_store.removed_rejected [OF t] bearer_store.replaced_rejected [OF t, of p]
  show ?thesis by (auto simp: token_login_iff) (auto simp: token_GetLogin_def)
qed (use assms in auto)

text \<open>A store with one user.\<close>

definition one_user :: Authenticator where
  "one_user = TokenAuthenticator (newTokenAuthenticator [''u''] [''u'' \<mapsto> \<lparr>Password = ''p''\<rparr>])"

theorem login_revoked_witness:
  "GetLogin ''u'' one_user = ''Bearer p'' \<and> \<not> Authenticate (RemoveUser ''u'' one_user) ''Bearer p''
     \<and> \<not> Authenticate (AddUser ''u'' ''q'' one_user) ''Bearer p''"
proof -
  have l: "GetLogin ''u'' one_user = ''Bearer p''" "GetLogin ''u'' (AddUser ''u'' ''q'' one_user) = ''Bearer q''"
    by (simp_all add: one_user_def newTokenAuthenticator_def token_AddUser_def token_GetLogin_def)
  then have "GetLogin ''u'' one_user \<noteq> []" by simp
  from login_revoked [OF this, of "''q''"] show ?thesis unfolding l by simp
qed

definition proper_basic :: "basicAuthenticator \<Rightarrow> bool" where
  "proper_basic a \<longleftrightarrow> (\<forall>u t. ba_users a u = Some t \<longrightarrow> CHR '':'' \<notin> set u \<and> (\<exists>p. t = basic_token u p))"

text \<open>
  Isolation of basic users: with user names that contain no colon, removing or re-adding one
  user leaves every other user's login accepted or rejected as before.
\<close>

theorem basic_users_isolated:
  assumes "proper_basic a" and "CHR '':'' \<notin> set u" and "ba_users a v = Some t" and "u \<noteq> v"
  shows "(Authenticate (RemoveUser u (BasicAuthenticator a)) (GetLogin v (BasicAuthenticator a))
            \<longleftrightarrow> Authenticate (BasicAuthenticator a) (GetLogin v (BasicAuthenticator a)))
       \<and> (Authenticate (AddUser u p (BasicAuthenticator a)) (GetLogin v (BasicAuthenticator a))
            \<longleftrightarrow> Authenticate (BasicAuthenticator a) (GetLogin v (BasicAuthenticator a)))"
proof -
  from assms obtain q where q: "t = basic_token v q" "CHR '':'' \<notin> set v" by (auto simp: proper_basic_def)
  have "ba_users a u \<noteq> Some t"
  proof
    assume "ba_users a u = Some t"
    with assms(1) obtain p' where "t = basic_token u p'" unfolding proper_basic_def by metis
    with q(1) basic_token_inj [OF assms(2) q(2)] assms(4) show False by simp
  qed
  moreover have "t \<noteq> basic_token u p"
    using q(1) assms(4) basic_token_inj [OF assms(2) q(2)] by metis
  ultimately show ?thesis
    using assms(3) by (simp add: basic_login_iff basic_store.accepts_remove basic_store.accepts_add)
qed

definition two_users :: basicAuthenticator where
  "two_users = newBasicAuthenticator [''a'', ''b''] [''a'' \<mapsto> \<lparr>Password = ''p''\<rparr>, ''b'' \<mapsto> \<lparr>Password = ''q''\<rparr>] []"

theorem basic_users_isolated_witness:
  "Authenticate (RemoveUser ''a'' (BasicAuthenticator two_users)) (GetLogin ''b'' (BasicAuthenticator two_users))"
proof -
  have u: "ba_users two_users = [''a'' \<mapsto> basic_token ''a'' ''p'', ''b'' \<mapsto> basic_token ''b'' ''q'']"
    by (simp add: two_users_def newBasicAuthenticator_def basic_AddUser_def basic_token_def Let_def)
  then have "proper_basic two_users" by (auto simp: proper_basic_def)
  moreover have "Authenticate (BasicAuthenticator two_users) (GetLogin ''b'' (BasicAuthenticator two_users))"
    using u by (auto simp: basic_login_iff two_users_def newBasic_accepts basic_store.listed_def)
  ultimately show ?thesis
    using basic_users_isolated [of two_users "''a''" "''b''" "basic_token ''b'' ''q''"] u by simp
qed

text \<open>
  Bearer users are not isolated: when two users have the same token, removing one of them makes
  the store reject the login of the other, who is still registered.
\<close>

theorem bearer_shared_token:
  assumes "ta_users a u = Some t" and "ta_users a v = Some t" and "u \<noteq> v"
  shows "GetLogin v (RemoveUser u (TokenAuthenticator a)) = ''Bearer '' @ t
     \<and> \<not> Authenticate (RemoveUser u (TokenAuthenticator a)) (''Bearer '' @ t)"
proof -
  have "ta_users (token_RemoveUser u a) v = Some t" using assms by (simp add: bearer_store.token_of_remove)
  then show ?thesis
    using token_login_iff [of "token_RemoveUser u a" v t "token_RemoveUser u a"]
      bearer_store.removed_rejected [OF assms(1)] by (simp add: token_GetLogin_def)
qed

theorem bearer_shared_token_witness:
  "\<not> Authenticate (RemoveUser ''a'' (AddUser ''b'' ''x'' (AddUser ''a'' ''x'' (TokenAuthenticator
       \<lparr>ta_tokens = Map.empty, ta_users = Map.empty\<rparr>)))) ''Bearer x''"
  using bearer_shared_token [of "token_AddUser ''b'' ''x'' (token_AddUser ''a'' ''x''
      \<lparr>ta_tokens = Map.empty, ta_users = Map.empty\<rparr>)" "''a''" "''x''" "''b''"]
  by (simp add: bearer_store.token_of_add)

text \<open>
  The HTTP front end lets a request pass, with the response untouched, exactly when the
  authenticator accepts its \<open>Authorization\<close> header. Otherwise it answers without a body: status 401
  with a challenge for the basic scheme, status 403 for the others.
\<close>

theorem HandleHttpAuthentication_response:
  assumes "rw_sent writer = None"
  shows "case HandleHttpAuthentication auth request writer of
           (ok, writer') \<Rightarrow>
             (ok \<longleftrightarrow> Authenticate auth (header_get ''Authorization'' (rq_header request)))
             \<and> (if ok then writer' = writer
                else rw_body writer' = rw_body writer
                  \<and> status_of writer' = Some (case auth of BasicAuthenticator a \<Rightarrow> 401 | _ \<Rightarrow> 403)
                  \<and> (\<forall>a. auth = BasicAuthenticator a \<longrightarrow>
                       rw_header writer' = header_add ''WWW-Authenticate'' (basic_GetAuthenticateRequest a) (rw_header writer)))"
  using assms
  by (cases auth) (auto simp: HandleHttpAuthentication_def Let_def status_of_def basic_GetAuthenticateRequest_def)

theorem HandleHttpAuthentication_response_witness:
  "status_of (snd (HandleHttpAuthentication DenyAuthenticator
      \<lparr>rq_header = Map.empty, rq_remote = [], rq_path = [], rq_query = (\<lambda>_. [])\<rparr> new_response)) = Some 403"
  using HandleHttpAuthentication_response [of new_response DenyAuthenticator
      "\<lparr>rq_header = Map.empty, rq_remote = [], rq_path = [], rq_query = (\<lambda>_. [])\<rparr>"]
  by (simp add: new_response_def split: prod.splits)

end
