(* ===== verification/Util_Basic.thy ===== *)
theory Util_Basic
  imports Go_Prelude "HOL-Library.Multiset"
begin

text \<open>
  The package \<open>util\<close> apart from its loggers: atomic booleans (\<open>util/atomic.go\<close>), the set type
  (\<open>util/set.go\<close>), errors with a code (\<open>util/errors.go\<close>) and the Fisher-Yates shuffle
  (\<open>util/shuffle.go\<close>).

  The pseudo random generator is an argument of the shuffle: \<open>d i\<close> is the value \<open>rnd.Intn(N-i)\<close>
  returns in iteration \<open>i\<close>.
\<close>

section \<open>Atomic booleans\<close>

type_synonym AtomicBool = "32 word"

definition AtomicFalse :: AtomicBool where "AtomicFalse = 0"
definition AtomicTrue :: AtomicBool where "AtomicTrue = 1"

definition ToAtomicBool :: "bool \<Rightarrow> AtomicBool" where
  "ToAtomicBool v = (if v then AtomicTrue else AtomicFalse)"

definition CompareAndSwapBool :: "bool \<Rightarrow> bool \<Rightarrow> AtomicBool \<Rightarrow> bool \<times> AtomicBool" where
  "CompareAndSwapBool old new a =
     (let ov = (if old then AtomicTrue else 0); nv = (if new then AtomicTrue else 0)
      in if a = ov then (True, nv) else (False, a))"

definition LoadBool :: "AtomicBool \<Rightarrow> bool" where
  "LoadBool a \<longleftrightarrow> a \<noteq> AtomicFalse"

definition StoreBool :: "bool \<Rightarrow> AtomicBool \<Rightarrow> AtomicBool" where
  "StoreBool v a = (if v then AtomicTrue else 0)"

definition SwapBool :: "bool \<Rightarrow> AtomicBool \<Rightarrow> bool \<times> AtomicBool" where
  "SwapBool new a = (a \<noteq> AtomicFalse, if new then AtomicTrue else 0)"

text \<open>The values the operations produce.\<close>

definition atomic_ok :: "AtomicBool \<Rightarrow> bool" where
  "atomic_ok a \<longleftrightarrow> a = AtomicFalse \<or> a = AtomicTrue"

lemma LoadBool_simps [simp]:
  "LoadBool (StoreBool v a) = v"
  "LoadBool (ToAtomicBool v) = v"
  "LoadBool AtomicTrue" "\<not> LoadBool AtomicFalse"
  by (simp_all add: LoadBool_def StoreBool_def ToAtomicBool_def AtomicTrue_def AtomicFalse_def)

lemma atomic_ok_intros [simp, intro]:
  "atomic_ok (StoreBool v a)" "atomic_ok (ToAtomicBool v)" "atomic_ok AtomicFalse" "atomic_ok AtomicTrue"
  "atomic_ok (snd (SwapBool v a))"
  by (simp_all add: atomic_ok_def StoreBool_def ToAtomicBool_def SwapBool_def AtomicFalse_def)

lemma CompareAndSwapBool_bool:
  assumes "atomic_ok a"
  shows "CompareAndSwapBool old new a =
           (if LoadBool a = old then (True, ToAtomicBool new) else (False, a))"
  using assms
  by (auto simp: CompareAndSwapBool_def atomic_ok_def LoadBool_def ToAtomicBool_def
      AtomicTrue_def AtomicFalse_def)

section \<open>Sets\<close>

type_synonym 'a go_set = "'a \<rightharpoonup> bool"

definition MakeSet :: "'a go_set" where "MakeSet = Map.empty"

definition Set_Add :: "'a \<Rightarrow> 'a go_set \<Rightarrow> 'a go_set" where
  "Set_Add v s = s(v \<mapsto> True)"

definition Set_Remove :: "'a \<Rightarrow> 'a go_set \<Rightarrow> 'a go_set" where
  "Set_Remove v s = s(v := None)"

definition Set_Contains :: "'a \<Rightarrow> 'a go_set \<Rightarrow> bool" where
  "Set_Contains v s = (case s v of None \<Rightarrow> False | Some b \<Rightarrow> b)"

text \<open>The interface of a mutable set: what membership answers after each operation.\<close>

locale finite_set_adt =
  fixes empty :: "'s"
    and add :: "'a \<Rightarrow> 's \<Rightarrow> 's"
    and remove :: "'a \<Rightarrow> 's \<Rightarrow> 's"
    and contains :: "'a \<Rightarrow> 's \<Rightarrow> bool"
  assumes contains_empty: "\<not> contains x empty"
    and contains_add: "contains x (add y s) \<longleftrightarrow> x = y \<or> contains x s"
    and contains_remove: "contains x (remove y s) \<longleftrightarrow> x \<noteq> y \<and> contains x s"
begin

text \<open>A history of additions and removals: the last operation on a value decides.\<close>

lemma contains_fold_add: "contains x (fold add ys s) \<longleftrightarrow> x \<in> set ys \<or> contains x s"
  by (induction ys arbitrary: s) (auto simp: contains_add)

lemma contains_fold_remove: "contains x (fold remove ys s) \<longleftrightarrow> x \<notin> set ys \<and> contains x s"
  by (induction ys arbitrary: s) (auto simp: contains_remove)

lemma contains_build: "contains x (fold remove zs (fold add ys empty)) \<longleftrightarrow> x \<in> set ys - set zs"
  by (auto simp: contains_fold_remove contains_fold_add contains_empty)

end

interpretation util_set: finite_set_adt MakeSet Set_Add Set_Remove Set_Contains
  by unfold_locales (auto simp: MakeSet_def Set_Add_def Set_Remove_def Set_Contains_def)

section \<open>Errors with a code\<close>

record ErrorStringCode =
  Message :: string
  Code :: int

definition New :: "string \<Rightarrow> int \<Rightarrow> ErrorStringCode" where
  "New text code = \<lparr>Message = text, Code = code\<rparr>"

definition Error :: "ErrorStringCode \<Rightarrow> string" where
  "Error err = Message err"

section \<open>Shuffling\<close>

definition swap_at :: "nat \<Rightarrow> nat \<Rightarrow> 'a list \<Rightarrow> 'a list" where
  "swap_at r i xs = xs[r := xs ! i, i := xs ! r]"

function shuffle_loop :: "(nat \<Rightarrow> nat) \<Rightarrow> nat \<Rightarrow> 'a list \<Rightarrow> 'a list" where
  "shuffle_loop d i ret =
     (if i < length ret then shuffle_loop d (Suc i) (swap_at (i + d i) i ret) else ret)"
  by pat_completeness auto
termination
  by (relation "measure (\<lambda>(d, i, ret). length ret - i)") (auto simp: swap_at_def)

declare shuffle_loop.simps [simp del]

definition Shuffle :: "(nat \<Rightarrow> nat) \<Rightarrow> 'a list \<Rightarrow> 'a list" where
  "Shuffle d list = shuffle_loop d 0 list"

definition ShuffleStrings :: "(nat \<Rightarrow> nat) \<Rightarrow> string list \<Rightarrow> string list" where
  "ShuffleStrings d list = shuffle_loop d 0 list"

text \<open>\<open>rnd.Intn(n)\<close> returns a value below \<open>n\<close>.\<close>

definition valid_draws :: "nat \<Rightarrow> (nat \<Rightarrow> nat) \<Rightarrow> bool" where
  "valid_draws N d \<longleftrightarrow> (\<forall>i < N. d i < N - i)"

lemma swap_at_simps [simp]:
  "length (swap_at r i xs) = length xs"
  "r < length xs \<Longrightarrow> i < length xs \<Longrightarrow> mset (swap_at r i xs) = mset xs"
  by (auto simp: swap_at_def mset_swap)

lemma swap_at_nth:
  "r < length xs \<Longrightarrow> i < length xs \<Longrightarrow> j < length xs \<Longrightarrow>
     swap_at r i xs ! j = (if j = i then xs ! r else if j = r then xs ! i else xs ! j)"
  by (simp add: swap_at_def nth_list_update)

lemma shuffle_loop_length [simp]: "length (shuffle_loop d i ret) = length ret"
proof (induction d i ret rule: shuffle_loop.induct)
  case (1 d i ret)
  then show ?case by (subst shuffle_loop.simps) simp
qed

lemma shuffle_loop_mset:
  "valid_draws (length ret) d \<Longrightarrow> mset (shuffle_loop d i ret) = mset ret"
proof (induction d i ret rule: shuffle_loop.induct)
  case (1 d i ret)
  show ?case
  proof (cases "i < length ret")
    case True
    with "1.prems" have "i + d i < length ret"
      by (auto simp: valid_draws_def less_diff_conv add.commute)
    with True "1" show ?thesis
      by (subst shuffle_loop.simps) simp
  qed (simp add: shuffle_loop.simps)
qed

text \<open>Iteration \<open>i\<close> settles position \<open>i\<close>: later iterations leave it alone.\<close>

lemma shuffle_loop_below:
  "valid_draws (length ret) d \<Longrightarrow> j < i \<Longrightarrow> j < length ret \<Longrightarrow> shuffle_loop d i ret ! j = ret ! j"
proof (induction d i ret rule: shuffle_loop.induct)
  case (1 d i ret)
  show ?case
  proof (cases "i < length ret")
    case True
    with "1.prems" have r: "i + d i < length ret"
      by (auto simp: valid_draws_def less_diff_conv add.commute)
    have "shuffle_loop d i ret ! j = shuffle_loop d (Suc i) (swap_at (i + d i) i ret) ! j"
      using True by (subst shuffle_loop.simps) simp
    also have "\<dots> = swap_at (i + d i) i ret ! j"
      using "1.IH" [OF True] "1.prems" by simp
    also have "\<dots> = ret ! j"
      using "1.prems" r by (simp add: swap_at_nth)
    finally show ?thesis .
  qed (simp add: shuffle_loop.simps)
qed

lemma shuffle_loop_at:
  assumes "valid_draws (length ret) d" and "i < length ret"
  shows "shuffle_loop d i ret ! i = ret ! (i + d i)"
proof -
  from assms have r: "i + d i < length ret"
    by (auto simp: valid_draws_def less_diff_conv add.commute)
  have "shuffle_loop d i ret ! i = shuffle_loop d (Suc i) (swap_at (i + d i) i ret) ! i"
    using assms by (subst shuffle_loop.simps) simp
  also have "\<dots> = swap_at (i + d i) i ret ! i"
    by (rule shuffle_loop_below) (use assms in auto)
  finally show ?thesis
    using r assms by (simp add: swap_at_nth)
qed

lemma shuffle_loop_inj:
  assumes "valid_draws (length ret) d" and "valid_draws (length ret) e" and "distinct ret"
    and "shuffle_loop d i ret = shuffle_loop e i ret" and "i \<le> j" and "j < length ret"
  shows "d j = e j"
  using assms
proof (induction d i ret rule: shuffle_loop.induct)
  case (1 d i ret)
  then have i: "i < length ret" by simp
  have r: "i + d i < length ret" "i + e i < length ret"
    using "1.prems" i by (auto simp: valid_draws_def less_diff_conv add.commute)
  have "ret ! (i + d i) = ret ! (i + e i)"
    using shuffle_loop_at [OF "1.prems"(1) i] shuffle_loop_at [OF "1.prems"(2) i] "1.prems"(4) by simp
  with r "1.prems"(3) have eq: "d i = e i"
    by (simp add: nth_eq_iff_index_eq)
  show ?case
  proof (cases "j = i")
    case True
    with eq show ?thesis by simp
  next
    case False
    let ?ret = "swap_at (i + d i) i ret"
    have "shuffle_loop d (Suc i) ?ret = shuffle_loop e (Suc i) ?ret"
      using "1.prems"(4) i eq by (simp add: shuffle_loop.simps [of d i ret] shuffle_loop.simps [of e i ret])
    moreover have "distinct ?ret"
      using "1.prems"(3) r i by (metis swap_at_simps(2) mset_eq_imp_distinct_iff)
    ultimately show ?thesis
      using "1.IH" [OF i] "1.prems" False by simp
  qed
qed

lemma shuffle_loop_cong:
  "(\<And>j. i \<le> j \<Longrightarrow> j < length ret \<Longrightarrow> d j = e j) \<Longrightarrow> shuffle_loop d i ret = shuffle_loop e i ret"
proof (induction d i ret rule: shuffle_loop.induct)
  case (1 d i ret)
  show ?case
  proof (cases "i < length ret")
    case True
    with "1.prems" have "d i = e i" by simp
    with True "1" show ?thesis
      by (simp add: shuffle_loop.simps [of d i ret] shuffle_loop.simps [of e i ret])
  qed (simp add: shuffle_loop.simps)
qed

text \<open>Every rearrangement that agrees on the settled positions can still be reached.\<close>

lemma shuffle_loop_surj:
  assumes "mset ys = mset ret" and "take i ys = take i ret" and "i \<le> length ret"
  shows "\<exists>d. valid_draws (length ret) d \<and> shuffle_loop d i ret = ys"
  using assms
proof (induction "length ret - i" arbitrary: i ret)
  case 0
  then have "length ys = length ret" by (metis size_mset)
  with 0 have "ys = ret" by simp
  moreover have "valid_draws (length ret) (\<lambda>_. 0)" by (simp add: valid_draws_def)
  ultimately show ?case using 0 by (auto simp: shuffle_loop.simps)
next
  case (Suc n)
  then have i: "i < length ret" by simp
  have len: "length ys = length ret" using Suc.prems by (metis size_mset)
  have "mset (drop i ys) = mset (drop i ret)"
  proof -
    have "mset (take i ys) + mset (drop i ys) = mset (take i ret) + mset (drop i ret)"
      using Suc.prems(1) by (metis append_take_drop_id mset_append)
    with Suc.prems(2) show ?thesis by simp
  qed
  moreover have "ys ! i \<in> set (drop i ys)"
    using i len by (metis Cons_nth_drop_Suc list.set_intros(1))
  ultimately have "ys ! i \<in> set (drop i ret)" by (metis set_mset_mset)
  then obtain k where k: "k < length ret - i" "ys ! i = ret ! (i + k)"
    using i by (auto simp: in_set_conv_nth)
  let ?ret = "swap_at (i + k) i ret"
  have "take (Suc i) ys = take (Suc i) ?ret"
  proof (intro nth_take_lemma allI impI)
    fix j assume "j < Suc i"
    then have "j = i \<or> ys ! j = ret ! j \<and> j < i"
      using Suc.prems(2) i len by (metis less_Suc_eq nth_take)
    with i k show "ys ! j = ?ret ! j" by (auto simp: swap_at_nth)
  qed (use i len in auto)
  with Suc i k have "\<exists>d. valid_draws (length ?ret) d \<and> shuffle_loop d (Suc i) ?ret = ys"
    by (intro Suc.hyps(1)) auto
  then obtain d where d: "valid_draws (length ret) d" "shuffle_loop d (Suc i) ?ret = ys"
    by auto
  have "valid_draws (length ret) (d(i := k))"
    using d(1) k(1) by (auto simp: valid_draws_def)
  moreover have "shuffle_loop (d(i := k)) i ret = ys"
    using i d(2) shuffle_loop_cong [of "Suc i" ?ret "d(i := k)" d]
    by (simp add: shuffle_loop.simps [of "d(i := k)" i ret])
  ultimately show ?case by blast
qed

text \<open>The draws of a run as a vector, one per iteration.\<close>

definition draw_vectors :: "nat \<Rightarrow> nat list set" where
  "draw_vectors N = {ds. length ds = N \<and> valid_draws N (nth ds)}"

lemma shuffle_vectors_surj:
  assumes "mset ys = mset xs"
  shows "\<exists>ds \<in> draw_vectors (length xs). shuffle_loop (nth ds) 0 xs = ys"
proof -
  from shuffle_loop_surj [OF assms, of 0] obtain d
    where d: "valid_draws (length xs) d" "shuffle_loop d 0 xs = ys" by auto
  let ?ds = "map d [0..<length xs]"
  have "valid_draws (length xs) (nth ?ds)" using d(1) by (simp add: valid_draws_def)
  moreover have "shuffle_loop (nth ?ds) 0 xs = ys"
    using d(2) shuffle_loop_cong [of 0 xs "nth ?ds" d] by simp
  ultimately show ?thesis by (intro bexI [of _ ?ds]) (auto simp: draw_vectors_def)
qed

section \<open>Properties\<close>

text \<open>
  Shuffling is unbiased: for a list of distinct strings, the possible vectors of draws (draw \<open>i\<close>
  is one of \<open>N - i\<close> values) correspond one to one to the rearrangements of the list, so equally likely
  draws give equally likely rearrangements and no rearrangement is missed.
\<close>

theorem shuffle_uniform:
  assumes "distinct list"
  shows "bij_betw (\<lambda>ds. ShuffleStrings (nth ds) list) (draw_vectors (length list)) {ys. mset ys = mset list}"
  unfolding bij_betw_def
proof
  show "inj_on (\<lambda>ds. ShuffleStrings (nth ds) list) (draw_vectors (length list))"
  proof (rule inj_onI)
    fix ds es
    assume "ds \<in> draw_vectors (length list)" "es \<in> draw_vectors (length list)"
      and eq: "ShuffleStrings (nth ds) list = ShuffleStrings (nth es) list"
    then have v: "length ds = length list" "length es = length list"
        "valid_draws (length list) (nth ds)" "valid_draws (length list) (nth es)"
      by (auto simp: draw_vectors_def)
    have "ds ! j = es ! j" if "j < length list" for j
      using shuffle_loop_inj [OF v(3,4) assms, of 0 j] eq that by (simp add: ShuffleStrings_def)
    with v show "ds = es" by (intro nth_equalityI) auto
  qed
  show "(\<lambda>ds. ShuffleStrings (nth ds) list) ` draw_vectors (length list) = {ys. mset ys = mset list}"
    using shuffle_vectors_surj [of _ list]
    by (fastforce simp: ShuffleStrings_def draw_vectors_def shuffle_loop_mset)
qed

theorem shuffle_uniform_witness:
  "bij_betw (\<lambda>ds. ShuffleStrings (nth ds) [''a'', ''b'', ''c'']) (draw_vectors 3)
     {ys. mset ys = mset [''a'', ''b'', ''c'']}
   \<and> ShuffleStrings (nth [2, 1, 0]) [''a'', ''b'', ''c''] = [''c'', ''a'', ''b'']"
proof
  show "bij_betw (\<lambda>ds. ShuffleStrings (nth ds) [''a'', ''b'', ''c'']) (draw_vectors 3)
     {ys. mset ys = mset [''a'', ''b'', ''c'']}"
    using shuffle_uniform [of "[''a'', ''b'', ''c'']"] by (simp add: numeral_3_eq_3)
  show "ShuffleStrings (nth [2, 1, 0]) [''a'', ''b'', ''c''] = [''c'', ''a'', ''b'']"
    by code_simp
qed

end
