(* ===== verification/Packet_Reader.thy ===== *)
theory Packet_Reader
  imports Go_Prelude
begin

text \<open>
  The package \<open>protocol\<close>: \<open>ReadMpegTsPacket\<close> (\<open>protocol/packet.go\<close>), which cuts a byte stream into
  transport stream packets and finds the packet boundary again after a loss of synchronisation,
  and \<open>FixedReader\<close> (\<open>protocol/reader.go\<close>), which makes a byte stream of a datagram socket.

  An \<open>io.Reader\<close> is a function \<open>rd\<close> with a state: \<open>rd n s\<close> is the answer to a \<open>Read\<close> into a
  buffer of \<open>n\<close> bytes, the bytes that were read, the error and the next state.
  The loops of \<open>ReadMpegTsPacket\<close> end only if the reader makes progress, so they are partial
  functions; \<open>None\<close> is a loop that never ends.
\<close>

datatype io_error = EOF | ErrClosed | ErrIO string

type_synonym 's io_reader = "nat \<Rightarrow> 's \<Rightarrow> bytes \<times> io_error option \<times> 's"

section \<open>Reading packets\<close>

definition MpegTsPacketSize :: nat where "MpegTsPacketSize = 188"
definition MpegTsSyncByte :: u8 where "MpegTsSyncByte = 0x47"

type_synonym MpegTsPacket = bytes

definition make_packet :: MpegTsPacket where
  "make_packet = replicate MpegTsPacketSize 0"

text \<open>\<open>copy(buf[off:], data)\<close>, also the effect of \<open>Read(buf[off:])\<close>.\<close>

definition buf_write :: "nat \<Rightarrow> bytes \<Rightarrow> bytes \<Rightarrow> bytes" where
  "buf_write off data buf = take off buf @ data @ drop (off + length data) buf"

text \<open>The read loop, \<open>for offset < MpegTsPacketSize { ... }\<close>.\<close>

partial_function (option) read_loop ::
  "'s io_reader \<Rightarrow> bytes \<Rightarrow> nat \<Rightarrow> 's \<Rightarrow> ((io_error + bytes) \<times> 's) option" where
  "read_loop rd buf off s =
     (if off < MpegTsPacketSize then
        (case rd (MpegTsPacketSize - off) s of
           (data, Some e, s') \<Rightarrow> Some (Inl e, s')
         | (data, None, s') \<Rightarrow> read_loop rd (buf_write off data buf) (off + length data) s')
      else Some (Inr buf, s))"

text \<open>\<open>for i, bytes := range garbage\<close> up to the first sync byte.\<close>

fun find_sync :: "bytes \<Rightarrow> nat option" where
  "find_sync [] = None"
| "find_sync (b # bs) = (if b = MpegTsSyncByte then Some 0 else map_option Suc (find_sync bs))"

definition ReadMpegTsPacket ::
  "'s io_reader \<Rightarrow> 's \<Rightarrow> ((io_error + MpegTsPacket option) \<times> 's) option" where
  "ReadMpegTsPacket rd s =
     (case read_loop rd make_packet 0 s of
        None \<Rightarrow> None
      | Some (Inl e, s1) \<Rightarrow> Some (Inl e, s1)
      | Some (Inr garbage, s1) \<Rightarrow>
          (if garbage ! 0 \<noteq> MpegTsSyncByte then
             (case find_sync garbage of
                None \<Rightarrow> Some (Inr None, s1)
              | Some sync \<Rightarrow>
                  (case read_loop rd (buf_write 0 (drop sync garbage) make_packet)
                          (MpegTsPacketSize - sync) s1 of
                     None \<Rightarrow> None
                   | Some (Inl e, s2) \<Rightarrow> Some (Inl e, s2)
                   | Some (Inr packet, s2) \<Rightarrow> Some (Inr (Some packet), s2)))
           else Some (Inr (Some garbage), s1)))"

text \<open>What a packet is.\<close>

definition is_packet :: "bytes \<Rightarrow> bool" where
  "is_packet p \<longleftrightarrow> length p = MpegTsPacketSize \<and> p ! 0 = MpegTsSyncByte"

section \<open>Fixed size reader\<close>

text \<open>\<open>bytes.Buffer.Read\<close>: an empty buffer reports \<open>io.EOF\<close> unless nothing was asked for.\<close>

definition buffer_read :: "nat \<Rightarrow> bytes \<Rightarrow> bytes \<times> io_error option \<times> bytes" where
  "buffer_read n b =
     (if b = [] then ([], if n = 0 then None else Some EOF, [])
      else (take n b, None, drop n b))"

record 's FixedReader =
  fr_reader :: 's
  fr_packetSize :: nat
  fr_buffer :: bytes

definition NewFixedReader :: "'s \<Rightarrow> nat \<Rightarrow> 's FixedReader" where
  "NewFixedReader reader psize = \<lparr>fr_reader = reader, fr_packetSize = psize, fr_buffer = []\<rparr>"

definition FixedReader_Read :: "'s io_reader \<Rightarrow> 's FixedReader io_reader" where
  "FixedReader_Read rd n b =
     (let (err, b1) =
        (if fr_buffer b = [] then
           (case rd (fr_packetSize b) (fr_reader b) of
              (p, e, s') \<Rightarrow> (e, b\<lparr>fr_reader := s', fr_buffer := p\<rparr>))
         else (None, b))
      in case buffer_read n (fr_buffer b1) of
           (data, berr, rest) \<Rightarrow>
             (data, case err of None \<Rightarrow> berr | Some e \<Rightarrow> Some e, b1\<lparr>fr_buffer := rest\<rparr>))"

text \<open>\<open>Close\<close> is forwarded when the underlying reader is an \<open>io.Closer\<close> (\<open>Some\<close> of its close
  operation).\<close>

definition FixedReader_Close ::
  "('s \<Rightarrow> io_error option \<times> 's) option \<Rightarrow> 's FixedReader \<Rightarrow> io_error option \<times> 's FixedReader" where
  "FixedReader_Close closer b =
     (case closer of
        Some cl \<Rightarrow> (case cl (fr_reader b) of (e, s') \<Rightarrow> (e, b\<lparr>fr_reader := s'\<rparr>))
      | None \<Rightarrow> (None, b))"

text \<open>The byte stream view of reading one packet: \<open>None\<close> when the stream ends too early, otherwise
  the packet, if a sync byte was found, and the rest of the stream.\<close>

definition next_packet :: "bytes \<Rightarrow> (MpegTsPacket option \<times> bytes) option" where
  "next_packet bs =
     (if length bs < MpegTsPacketSize then None
      else case find_sync (take MpegTsPacketSize bs) of
             None \<Rightarrow> Some (None, drop MpegTsPacketSize bs)
           | Some i \<Rightarrow>
               (if length bs < MpegTsPacketSize + i then None
                else Some (Some (take MpegTsPacketSize (drop i bs)), drop (MpegTsPacketSize + i) bs)))"

lemma find_sync_None: "find_sync bs = None \<longleftrightarrow> MpegTsSyncByte \<notin> set bs"
  by (induction bs) auto

lemma find_sync_Some:
  "find_sync bs = Some i \<longleftrightarrow>
     i < length bs \<and> bs ! i = MpegTsSyncByte \<and> MpegTsSyncByte \<notin> set (take i bs)"
proof (induction bs arbitrary: i)
  case Nil
  then show ?case by simp
next
  case (Cons b bs)
  then show ?case by (cases i) auto
qed

lemma MpegTsPacketSize_pos [simp]: "0 < MpegTsPacketSize" "MpegTsPacketSize \<noteq> 0"
  by (simp_all add: MpegTsPacketSize_def)

lemma length_make_packet [simp]: "length make_packet = MpegTsPacketSize"
  by (simp add: make_packet_def)

section \<open>The contract of a byte source\<close>

text \<open>
  A reader that delivers a byte stream: as long as there are bytes left a read returns some of the
  next ones without an error, afterwards it returns an error and no data. \<open>bytes_left\<close> is the
  stream that is still to come.
\<close>

locale byte_source =
  fixes rd :: "'s io_reader"
    and bytes_left :: "'s \<Rightarrow> bytes"
    and invar :: "'s \<Rightarrow> bool"
  assumes read_data:
      "invar s \<Longrightarrow> 0 < n \<Longrightarrow> bytes_left s \<noteq> [] \<Longrightarrow>
         \<exists>d s'. rd n s = (d, None, s') \<and> d \<noteq> [] \<and> length d \<le> n
            \<and> bytes_left s = d @ bytes_left s' \<and> invar s'"
    and read_end:
      "invar s \<Longrightarrow> 0 < n \<Longrightarrow> bytes_left s = [] \<Longrightarrow>
         \<exists>e s'. rd n s = ([], Some e, s') \<and> bytes_left s' = [] \<and> invar s'"
begin

text \<open>The read loop delivers the next bytes of the stream whatever the sizes of the reads are, or
  fails when the stream is too short; in both cases it ends.\<close>

lemma read_loop_fills:
  assumes "invar s" and "length buf = MpegTsPacketSize" and "off \<le> MpegTsPacketSize"
    and "MpegTsPacketSize - off \<le> length (bytes_left s)"
  shows "\<exists>s'. read_loop rd buf off s =
                Some (Inr (take off buf @ take (MpegTsPacketSize - off) (bytes_left s)), s')
              \<and> bytes_left s' = drop (MpegTsPacketSize - off) (bytes_left s) \<and> invar s'"
  using assms
proof (induction "MpegTsPacketSize - off" arbitrary: s buf off rule: less_induct)
  case less
  show ?case
  proof (cases "off < MpegTsPacketSize")
    case False
    with less.prems show ?thesis by (subst read_loop.simps) simp
  next
    case True
    with less.prems have "bytes_left s \<noteq> []" by auto
    with read_data [OF less.prems(1), of "MpegTsPacketSize - off"] True obtain d s1
      where d: "rd (MpegTsPacketSize - off) s = (d, None, s1)" "d \<noteq> []"
          "length d \<le> MpegTsPacketSize - off" "bytes_left s = d @ bytes_left s1" "invar s1"
      by auto
    let ?buf = "buf_write off d buf"
    have dec: "MpegTsPacketSize - (off + length d) < MpegTsPacketSize - off"
      using d(2) True by (simp add: diff_less_mono2)
    have len: "length ?buf = MpegTsPacketSize"
      using less.prems d(3) True by (simp add: buf_write_def)
    have "\<exists>s'. read_loop rd ?buf (off + length d) s1 =
             Some (Inr (take (off + length d) ?buf
               @ take (MpegTsPacketSize - (off + length d)) (bytes_left s1)), s')
           \<and> bytes_left s' = drop (MpegTsPacketSize - (off + length d)) (bytes_left s1) \<and> invar s'"
      by (rule less.hyps) (use d less.prems True len dec in auto)
    moreover have "take (off + length d) ?buf = take off buf @ d"
      using less.prems True by (simp add: buf_write_def)
    moreover have "MpegTsPacketSize - off = length d + (MpegTsPacketSize - (off + length d))"
      using d(3) True by simp
    ultimately show ?thesis
      using True d by (subst read_loop.simps) simp
  qed
qed

lemma read_loop_fails:
  assumes "invar s" and "length buf = MpegTsPacketSize" and "off \<le> MpegTsPacketSize"
    and "length (bytes_left s) < MpegTsPacketSize - off"
  shows "\<exists>e s'. read_loop rd buf off s = Some (Inl e, s') \<and> bytes_left s' = [] \<and> invar s'"
  using assms
proof (induction "MpegTsPacketSize - off" arbitrary: s buf off rule: less_induct)
  case less
  then have off: "off < MpegTsPacketSize" by auto
  show ?case
  proof (cases "bytes_left s = []")
    case True
    with read_end [OF less.prems(1), of "MpegTsPacketSize - off"] off show ?thesis
      by (subst read_loop.simps) auto
  next
    case False
    with read_data [OF less.prems(1), of "MpegTsPacketSize - off"] off obtain d s1
      where d: "rd (MpegTsPacketSize - off) s = (d, None, s1)" "d \<noteq> []"
          "length d \<le> MpegTsPacketSize - off" "bytes_left s = d @ bytes_left s1" "invar s1"
      by auto
    have dec: "MpegTsPacketSize - (off + length d) < MpegTsPacketSize - off"
      using d(2) off by (simp add: diff_less_mono2)
    have "\<exists>e s'. read_loop rd (buf_write off d buf) (off + length d) s1 = Some (Inl e, s')
            \<and> bytes_left s' = [] \<and> invar s'"
      by (rule less.hyps) (use d less.prems off dec in \<open>auto simp: buf_write_def\<close>)
    with off d(1) show ?thesis by (subst read_loop.simps) simp
  qed
qed

text \<open>The second loop, which completes a packet that starts at offset \<open>i\<close> of the first read.\<close>

lemma resync_read:
  assumes inv: "invar s" and g: "length g = MpegTsPacketSize" and i: "i \<le> MpegTsPacketSize"
  shows "length (bytes_left s) < i \<Longrightarrow>
           \<exists>e s'. read_loop rd (buf_write 0 (drop i g) make_packet) (MpegTsPacketSize - i) s = Some (Inl e, s')
             \<and> bytes_left s' = [] \<and> invar s'" (is "?short \<Longrightarrow> ?fails")
    and "i \<le> length (bytes_left s) \<Longrightarrow>
           \<exists>s'. read_loop rd (buf_write 0 (drop i g) make_packet) (MpegTsPacketSize - i) s =
               Some (Inr (drop i g @ take i (bytes_left s)), s')
             \<and> bytes_left s' = drop i (bytes_left s) \<and> invar s'" (is "?long \<Longrightarrow> ?fills")
proof -
  let ?b = "buf_write 0 (drop i g) make_packet"
  have b: "length ?b = MpegTsPacketSize" "take (MpegTsPacketSize - i) ?b = drop i g"
    using g i by (simp_all add: buf_write_def)
  show "?short \<Longrightarrow> ?fails"
    using read_loop_fails [OF inv b(1), of "MpegTsPacketSize - i"] i by simp
  show "?long \<Longrightarrow> ?fills"
    using read_loop_fills [OF inv b(1), of "MpegTsPacketSize - i"] i b(2) by simp
qed

text \<open>One call of \<open>ReadMpegTsPacket\<close> refines the byte stream view.\<close>

lemma ReadMpegTsPacket_refines:
  assumes inv: "invar s"
  shows "case next_packet (bytes_left s) of
           None \<Rightarrow> \<exists>e s'. ReadMpegTsPacket rd s = Some (Inl e, s') \<and> bytes_left s' = [] \<and> invar s'
         | Some (p, rest) \<Rightarrow>
             \<exists>s'. ReadMpegTsPacket rd s = Some (Inr p, s') \<and> bytes_left s' = rest \<and> invar s'"
proof (cases "length (bytes_left s) < MpegTsPacketSize")
  case True
  with read_loop_fails [OF inv, of make_packet 0] show ?thesis
    by (auto simp: ReadMpegTsPacket_def next_packet_def)
next
  case False
  let ?g = "take MpegTsPacketSize (bytes_left s)"
  have g: "length ?g = MpegTsPacketSize" using False by simp
  from False read_loop_fills [OF inv, of make_packet 0] obtain s1
    where s1: "read_loop rd make_packet 0 s = Some (Inr ?g, s1)"
      "bytes_left s1 = drop MpegTsPacketSize (bytes_left s)" "invar s1" by auto
  show ?thesis
  proof (cases "find_sync ?g")
    case None
    then have "?g ! 0 \<noteq> MpegTsSyncByte" using g by (metis MpegTsPacketSize_pos(1) find_sync_None nth_mem)
    with None False s1 show ?thesis by (simp add: ReadMpegTsPacket_def next_packet_def)
  next
    case (Some i)
    then have i: "i < MpegTsPacketSize" "?g ! i = MpegTsSyncByte" "i = 0 \<or> ?g ! 0 \<noteq> MpegTsSyncByte"
      using find_sync_Some [of ?g i] g by (auto simp: in_set_conv_nth)
    note re = resync_read [OF s1(3) g less_imp_le [OF i(1)]]
    have split: "drop i ?g @ take i (drop MpegTsPacketSize (bytes_left s))
        = take MpegTsPacketSize (drop i (bytes_left s))"
      using i(1) take_add [of "MpegTsPacketSize - i" i "drop i (bytes_left s)"] by (simp add: drop_take)
    consider "i = 0" | "?g ! 0 \<noteq> MpegTsSyncByte" "length (bytes_left s) < MpegTsPacketSize + i"
      | "?g ! 0 \<noteq> MpegTsSyncByte" "MpegTsPacketSize + i \<le> length (bytes_left s)"
      using i(3) by linarith
    then show ?thesis
    proof cases
      case 1
      with Some False s1 i(2) show ?thesis by (simp add: ReadMpegTsPacket_def next_packet_def)
    next
      case 2
      with False s1(2) have "length (bytes_left s1) < i" by simp
      from re(1) [OF this] 2 Some False s1(1) show ?thesis
        by (auto simp: ReadMpegTsPacket_def next_packet_def)
    next
      case 3
      with s1(2) have "i \<le> length (bytes_left s1)" by simp
      from re(2) [OF this] 3 Some False s1 split show ?thesis
        by (auto simp: ReadMpegTsPacket_def next_packet_def add.commute)
    qed
  qed
qed

end

text \<open>Wrapping a byte source into a \<open>FixedReader\<close> gives a byte source for the same stream.\<close>

context byte_source
begin

lemma FixedReader_source:
  "byte_source (FixedReader_Read rd) (\<lambda>b. fr_buffer b @ bytes_left (fr_reader b))
     (\<lambda>b. invar (fr_reader b) \<and> 0 < fr_packetSize b)"
proof
  fix b :: "'s FixedReader" and n :: nat
  assume inv: "invar (fr_reader b) \<and> 0 < fr_packetSize b" and n: "0 < n"
    and left: "fr_buffer b @ bytes_left (fr_reader b) \<noteq> []"
  show "\<exists>d b'. FixedReader_Read rd n b = (d, None, b') \<and> d \<noteq> [] \<and> length d \<le> n
      \<and> fr_buffer b @ bytes_left (fr_reader b) = d @ fr_buffer b' @ bytes_left (fr_reader b')
      \<and> invar (fr_reader b') \<and> 0 < fr_packetSize b'"
  proof (cases "fr_buffer b = []")
    case False
    with inv n show ?thesis by (auto simp: FixedReader_Read_def buffer_read_def)
  next
    case True
    with left inv read_data [of "fr_reader b" "fr_packetSize b"] obtain d s'
      where "rd (fr_packetSize b) (fr_reader b) = (d, None, s')" "d \<noteq> []"
        "bytes_left (fr_reader b) = d @ bytes_left s'" "invar s'" by auto
    with True inv n show ?thesis by (auto simp: FixedReader_Read_def buffer_read_def)
  qed
next
  fix b :: "'s FixedReader" and n :: nat
  assume inv: "invar (fr_reader b) \<and> 0 < fr_packetSize b" and n: "0 < n"
    and left: "fr_buffer b @ bytes_left (fr_reader b) = []"
  from left inv read_end [of "fr_reader b" "fr_packetSize b"] obtain e s'
    where "rd (fr_packetSize b) (fr_reader b) = ([], Some e, s')" "bytes_left s' = []" "invar s'" by auto
  with left inv n show "\<exists>e b'. FixedReader_Read rd n b = ([], Some e, b')
      \<and> fr_buffer b' @ bytes_left (fr_reader b') = [] \<and> invar (fr_reader b') \<and> 0 < fr_packetSize b'"
    by (auto simp: FixedReader_Read_def buffer_read_def)
qed

end

section \<open>Sockets\<close>

text \<open>
  The two kinds of sockets the client hands to these readers. A stream socket (or a file, a pipe)
  holds the chunks that have arrived; a read never joins two chunks. A datagram socket returns one
  datagram per read and discards what does not fit.
\<close>

fun stream_socket_read :: "bytes list io_reader" where
  "stream_socket_read n [] = ([], Some EOF, [])"
| "stream_socket_read n (c # cs) =
     (if length c \<le> n then (c, None, cs) else (take n c, None, drop n c # cs))"

fun datagram_socket_read :: "bytes list io_reader" where
  "datagram_socket_read n [] = ([], Some ErrClosed, [])"
| "datagram_socket_read n (d # ds) = (take n d, None, ds)"

interpretation stream_socket: byte_source stream_socket_read concat "\<lambda>cs. [] \<notin> set cs"
proof
  fix s :: "bytes list" and n :: nat
  assume s: "[] \<notin> set s" and n: "0 < n"
  show "concat s \<noteq> [] \<Longrightarrow> \<exists>d s'. stream_socket_read n s = (d, None, s') \<and> d \<noteq> [] \<and> length d \<le> n
      \<and> concat s = d @ concat s' \<and> [] \<notin> set s'"
    using s n by (cases s) auto
  show "concat s = [] \<Longrightarrow> \<exists>e s'. stream_socket_read n s = ([], Some e, s') \<and> concat s' = [] \<and> [] \<notin> set s'"
    using s by (cases s) auto
qed

text \<open>A \<open>FixedReader\<close> on a datagram socket: the stream is the sequence of datagrams, each cut to the
  packet size.\<close>

definition datagram_stream :: "bytes list FixedReader \<Rightarrow> bytes" where
  "datagram_stream b = fr_buffer b @ concat (map (take (fr_packetSize b)) (fr_reader b))"

definition datagram_ok :: "bytes list FixedReader \<Rightarrow> bool" where
  "datagram_ok b \<longleftrightarrow> 0 < fr_packetSize b \<and> [] \<notin> set (fr_reader b)"

interpretation udp_reader: byte_source "FixedReader_Read datagram_socket_read" datagram_stream datagram_ok
proof
  fix b :: "bytes list FixedReader" and n :: nat
  assume ok: "datagram_ok b" and n: "0 < n"
  note defs = FixedReader_Read_def buffer_read_def datagram_stream_def datagram_ok_def
  show "datagram_stream b \<noteq> [] \<Longrightarrow>
      \<exists>d b'. FixedReader_Read datagram_socket_read n b = (d, None, b') \<and> d \<noteq> [] \<and> length d \<le> n
        \<and> datagram_stream b = d @ datagram_stream b' \<and> datagram_ok b'"
    using ok n by (cases "fr_buffer b = []"; cases "fr_reader b") (auto simp: defs simp del: take_take)
  show "datagram_stream b = [] \<Longrightarrow>
      \<exists>e b'. FixedReader_Read datagram_socket_read n b = ([], Some e, b') \<and> datagram_stream b' = [] \<and> datagram_ok b'"
    using ok n by (cases "fr_reader b") (auto simp: defs)
qed

section \<open>Packets are well-formed for every reader\<close>

text \<open>The documented contract of \<open>io.Reader\<close>: not more bytes than the buffer has room for.\<close>

definition reader_contract :: "'s io_reader \<Rightarrow> bool" where
  "reader_contract rd \<longleftrightarrow> (\<forall>n s. length (fst (rd n s)) \<le> n)"

lemma stream_socket_contract: "reader_contract stream_socket_read"
proof -
  have "length (fst (stream_socket_read n s)) \<le> n" for n s
    by (cases s) auto
  then show ?thesis by (simp add: reader_contract_def)
qed

text \<open>Whatever the reader does within its contract, the loop fills the buffer and keeps the bytes
  that were there.\<close>

lemma read_loop_shape:
  assumes ret: "read_loop rd buf off s = Some (r, s')" and con: "reader_contract rd"
  shows "length buf = MpegTsPacketSize \<longrightarrow> off \<le> MpegTsPacketSize \<longrightarrow>
           (\<forall>b. r = Inr b \<longrightarrow> length b = MpegTsPacketSize \<and> take off b = take off buf)"
proof -
  let ?P = "\<lambda>rd buf off s res. reader_contract rd \<longrightarrow> length buf = MpegTsPacketSize \<longrightarrow> off \<le> MpegTsPacketSize \<longrightarrow>
     (\<forall>b. fst res = Inr b \<longrightarrow> length b = MpegTsPacketSize \<and> take off b = take off buf)"
  have "?P rd buf off s (r, s')"
  proof (rule read_loop.raw_induct [where P = ?P, OF _ ret])
    fix f rd buf off s and res :: "(io_error + bytes) \<times> _"
    assume IH: "\<And>rd buf off s res. f rd buf off s = Some res \<Longrightarrow> ?P rd buf off s res"
      and eq: "(if off < MpegTsPacketSize then
        (case rd (MpegTsPacketSize - off) s of
           (data, Some e, s') \<Rightarrow> Some (Inl e, s')
         | (data, None, s') \<Rightarrow> f rd (buf_write off data buf) (off + length data) s')
      else Some (Inr buf, s)) = Some res"
    obtain d e t where d: "rd (MpegTsPacketSize - off) s = (d, e, t)" by (cases "rd (MpegTsPacketSize - off) s")
    show "?P rd buf off s res"
    proof (intro impI)
      assume c: "reader_contract rd" and len: "length buf = MpegTsPacketSize" and off: "off \<le> MpegTsPacketSize"
      from c d have dl: "length d \<le> MpegTsPacketSize - off" by (metis reader_contract_def fst_conv)
      show "\<forall>b. fst res = Inr b \<longrightarrow> length b = MpegTsPacketSize \<and> take off b = take off buf"
      proof (cases "off < MpegTsPacketSize \<and> e = None")
        case False
        with eq d len show ?thesis by (auto split: if_splits option.splits)
      next
        case True
        with eq d have "f rd (buf_write off d buf) (off + length d) t = Some res" by simp
        have le: "off + length d \<le> MpegTsPacketSize" using dl True by linarith
        from IH [OF \<open>f rd (buf_write off d buf) (off + length d) t = Some res\<close>] c len le
        have "\<forall>b. fst res = Inr b \<longrightarrow> length b = MpegTsPacketSize
            \<and> take (off + length d) b = take (off + length d) (buf_write off d buf)"
          by (simp add: buf_write_def)
        moreover have "take off (buf_write off d buf) = take off buf"
          using len off by (simp add: buf_write_def)
        ultimately show ?thesis
          by (metis (no_types, lifting) le_add1 min.absorb1 take_take)
      qed
    qed
  qed
  with con show ?thesis by simp
qed

lemma read_loop_Inr:
  assumes "read_loop rd buf off s = Some (Inr b, s')" and "reader_contract rd"
    and "length buf = MpegTsPacketSize" and "off \<le> MpegTsPacketSize"
  shows "length b = MpegTsPacketSize" and "take off b = take off buf"
  using read_loop_shape [OF assms(1,2)] assms(3,4) by auto

text \<open>A stream that is out of step: \<open>junk\<close> without a sync byte, then whole packets.\<close>

lemma next_packet_aligned:
  assumes "MpegTsSyncByte \<notin> set junk" and "length junk < MpegTsPacketSize" and "is_packet p"
  shows "next_packet (junk @ p @ rest) = Some (Some p, rest)"
proof -
  let ?bs = "junk @ p @ rest"
  have p: "length p = MpegTsPacketSize" "p ! 0 = MpegTsSyncByte" "p \<noteq> []"
    using assms(3) by (auto simp: is_packet_def)
  have "find_sync (take MpegTsPacketSize ?bs) = Some (length junk)"
    using assms(1,2) p by (simp add: find_sync_Some nth_append)
  with p show ?thesis by (simp add: next_packet_def)
qed

section \<open>Properties\<close>

text \<open>
  C19. For every reader that delivers a byte stream, whatever the sizes of its reads,
  \<open>ReadMpegTsPacket\<close> returns (the loops end) with exactly the next packet of the stream: the 188
  bytes from the first sync byte found among the next 188 bytes, no packet when there is none, and
  an error when the stream ends before that; the bytes after it are left in the reader.
\<close>

theorem ReadMpegTsPacket_stream:
  assumes "byte_source rd bytes_left invar" and "invar s"
  shows "case next_packet (bytes_left s) of
           None \<Rightarrow> \<exists>e s'. ReadMpegTsPacket rd s = Some (Inl e, s') \<and> bytes_left s' = [] \<and> invar s'
         | Some (p, rest) \<Rightarrow>
             \<exists>s'. ReadMpegTsPacket rd s = Some (Inr p, s') \<and> bytes_left s' = rest \<and> invar s'"
  using assms by (rule byte_source.ReadMpegTsPacket_refines)

theorem ReadMpegTsPacket_stream_witness:
  "\<exists>s'. ReadMpegTsPacket stream_socket_read [replicate 3 9, 0x47 # replicate 187 1, [7]] =
       Some (Inr (Some (0x47 # replicate 187 1)), s') \<and> concat s' = [7]"
proof -
  let ?s = "[replicate 3 9, 0x47 # replicate 187 1, [7]] :: bytes list"
  have n: "next_packet (concat ?s) = Some (Some (0x47 # replicate 187 1), [7])"
    by code_simp
  show ?thesis
    using ReadMpegTsPacket_stream [OF stream_socket.byte_source_axioms, of ?s] unfolding n by auto
qed

text \<open>
  Whatever a reader within the \<open>io.Reader\<close> contract does, short reads and errors included, a
  packet that \<open>ReadMpegTsPacket\<close> returns is 188 bytes long and starts with the sync byte 0x47.
\<close>

theorem ReadMpegTsPacket_shape:
  assumes "reader_contract rd" and "ReadMpegTsPacket rd s = Some (Inr (Some p), s')"
  shows "is_packet p"
proof -
  from assms(2) obtain g s1 where g: "read_loop rd make_packet 0 s = Some (Inr g, s1)"
    by (auto simp: ReadMpegTsPacket_def split: option.splits sum.splits)
  from read_loop_Inr [OF g assms(1)] have len: "length g = MpegTsPacketSize" by simp
  show ?thesis
  proof (cases "g ! 0 = MpegTsSyncByte")
    case True
    with assms(2) g len show ?thesis by (simp add: ReadMpegTsPacket_def is_packet_def)
  next
    case False
    with assms(2) g obtain i where i: "find_sync g = Some i"
      and p: "read_loop rd (buf_write 0 (drop i g) make_packet) (MpegTsPacketSize - i) s1 = Some (Inr p, s')"
      by (auto simp: ReadMpegTsPacket_def split: option.splits sum.splits)
    from i len have "i < MpegTsPacketSize" "g ! i = MpegTsSyncByte" by (auto simp: find_sync_Some)
    with read_loop_Inr [OF p assms(1)] len
    have "length p = MpegTsPacketSize" "take (MpegTsPacketSize - i) p = drop i g"
      by (auto simp: buf_write_def)
    moreover from this have "p ! 0 = g ! i"
      using \<open>i < MpegTsPacketSize\<close> len by (metis add_0_right le_add1 nth_drop nth_take zero_less_diff less_imp_le_nat)
    ultimately show ?thesis
      using \<open>g ! i = MpegTsSyncByte\<close> by (simp add: is_packet_def)
  qed
qed

theorem ReadMpegTsPacket_shape_witness:
  "\<exists>p s'. ReadMpegTsPacket stream_socket_read [replicate 3 9, 0x47 # replicate 190 1] =
       Some (Inr (Some p), s') \<and> is_packet p"
proof -
  let ?s = "[replicate 3 9, 0x47 # replicate 190 1] :: bytes list"
  have n: "next_packet (concat ?s) = Some (Some (0x47 # replicate 187 1), [1, 1, 1])"
    by code_simp
  from stream_socket.ReadMpegTsPacket_refines [of ?s] obtain s'
    where "ReadMpegTsPacket stream_socket_read ?s = Some (Inr (Some (0x47 # replicate 187 1)), s')"
    unfolding n by auto
  with ReadMpegTsPacket_shape [OF stream_socket_contract this] show ?thesis by blast
qed

text \<open>
  C25. A \<open>FixedReader\<close> turns a datagram socket into a byte stream: reading packets from it yields the
  packets of the concatenated datagrams, each cut to the configured packet size, independently of
  how the transport stream packets are spread over the datagrams.
\<close>

theorem FixedReader_datagrams:
  assumes "datagram_ok b"
  shows "case next_packet (datagram_stream b) of
           None \<Rightarrow> \<exists>e b'. ReadMpegTsPacket (FixedReader_Read datagram_socket_read) b = Some (Inl e, b')
         | Some (p, rest) \<Rightarrow>
             \<exists>b'. ReadMpegTsPacket (FixedReader_Read datagram_socket_read) b = Some (Inr p, b')
               \<and> datagram_stream b' = rest \<and> datagram_ok b'"
  using udp_reader.ReadMpegTsPacket_refines [OF assms] by (auto split: option.splits)

theorem FixedReader_datagrams_witness:
  "\<exists>b'. ReadMpegTsPacket (FixedReader_Read datagram_socket_read)
          (NewFixedReader [replicate 10 5, 0x47 # replicate 100 1, replicate 87 2 @ [3]] 1500) =
        Some (Inr (Some (0x47 # replicate 100 1 @ replicate 87 2)), b') \<and> datagram_stream b' = [3]"
proof -
  let ?b = "NewFixedReader [replicate 10 5, 0x47 # replicate 100 1, replicate 87 2 @ [3]] 1500"
  have n: "next_packet (datagram_stream ?b) = Some (Some (0x47 # replicate 100 1 @ replicate 87 2), [3])"
    by code_simp
  have "datagram_ok ?b" by code_simp
  from FixedReader_datagrams [OF this] show ?thesis unfolding n by auto
qed

text \<open>
  An empty datagram is not skipped: a read that asks for data while the buffer is empty and gets
  a datagram of length 0 without an error reports \<open>io.EOF\<close>, and so does \<open>ReadMpegTsPacket\<close>, which
  the client takes for the end of the stream.
\<close>

theorem FixedReader_empty_datagram:
  assumes "fr_buffer b = []" and "fr_reader b = [] # ds"
  shows "ReadMpegTsPacket (FixedReader_Read datagram_socket_read) b =
           Some (Inl EOF, b\<lparr>fr_reader := ds\<rparr>)"
  using assms by (cases b) (simp add: ReadMpegTsPacket_def read_loop.simps FixedReader_Read_def buffer_read_def)

theorem FixedReader_empty_datagram_witness:
  "ReadMpegTsPacket (FixedReader_Read datagram_socket_read) (NewFixedReader [[], [0x47]] 1500) =
     Some (Inl EOF, NewFixedReader [[0x47]] 1500)"
  using FixedReader_empty_datagram [of "NewFixedReader [[], [0x47]] 1500" "[[0x47]]"]
  by (simp add: NewFixedReader_def)

end
