(* ===== verification/Stats_Collector.thy ===== *)
theory Stats_Collector
  imports Util_Basic Packet_Reader "HOL-Library.AList"
begin

text \<open>
  The statistics of \<open>metrics/stats.go\<close>: the counters a stream updates (\<open>realCollector\<close>), the
  statistics published from them (\<open>StreamStatistics\<close>), and the loop that computes the ones from the
  others once per second.

  The counters are words of 64 bits; an \<open>int64\<close> is the word with its bits. The maps of the statistics
  are association lists, whose order stands for the order of one iteration over the Go map. The maps
  of the loop are only looked up. The rate \<open>uint64(float64(n) / d.Seconds())\<close> is the argument
  \<open>rate n d\<close> of the definitions that use it: its value in the corner cases (division by zero,
  overflow) depends on the machine.
\<close>

type_synonym i64 = "64 word"

section \<open>Counters of a stream\<close>

record realCollector =
  connections :: i64
  packetsReceived :: u64
  packetsSent :: u64
  packetsDropped :: u64
  duration :: i64
  connected :: AtomicBool

definition zeroCollector :: realCollector where
  "zeroCollector = \<lparr>connections = 0, packetsReceived = 0, packetsSent = 0, packetsDropped = 0,
     duration = 0, connected = AtomicFalse\<rparr>"

definition ConnectionAdded :: "realCollector \<Rightarrow> realCollector" where
  "ConnectionAdded stats = stats\<lparr>connections := connections stats + 1\<rparr>"

definition ConnectionRemoved :: "realCollector \<Rightarrow> realCollector" where
  "ConnectionRemoved stats = stats\<lparr>connections := connections stats + (- 1)\<rparr>"

definition PacketReceived :: "realCollector \<Rightarrow> realCollector" where
  "PacketReceived stats = stats\<lparr>packetsReceived := packetsReceived stats + 1\<rparr>"

definition PacketSent :: "realCollector \<Rightarrow> realCollector" where
  "PacketSent stats = stats\<lparr>packetsSent := packetsSent stats + 1\<rparr>"

definition PacketDropped :: "realCollector \<Rightarrow> realCollector" where
  "PacketDropped stats = stats\<lparr>packetsDropped := packetsDropped stats + 1\<rparr>"

definition SourceConnected :: "realCollector \<Rightarrow> realCollector" where
  "SourceConnected stats = stats\<lparr>connected := StoreBool True (connected stats)\<rparr>"

definition SourceDisconnected :: "realCollector \<Rightarrow> realCollector" where
  "SourceDisconnected stats = stats\<lparr>connected := StoreBool False (connected stats)\<rparr>"

definition IsUpstreamConnected :: "realCollector \<Rightarrow> bool" where
  "IsUpstreamConnected stats = LoadBool (connected stats)"

definition StreamDuration :: "i64 \<Rightarrow> realCollector \<Rightarrow> realCollector" where
  "StreamDuration d stats = stats\<lparr>duration := duration stats + d\<rparr>"

definition clone :: "realCollector \<Rightarrow> realCollector" where
  "clone stats = \<lparr>connections = connections stats, packetsReceived = packetsReceived stats,
     packetsSent = packetsSent stats, packetsDropped = packetsDropped stats,
     duration = duration stats, connected = ToAtomicBool (LoadBool (connected stats))\<rparr>"

text \<open>\<open>stats.invsub(to)\<close> is an assignment to \<open>stats\<close>.\<close>

definition invsub :: "realCollector \<Rightarrow> realCollector \<Rightarrow> realCollector" where
  "invsub to stats = \<lparr>connections = connections to - connections stats,
     packetsReceived = packetsReceived to - packetsReceived stats,
     packetsSent = packetsSent to - packetsSent stats,
     packetsDropped = packetsDropped to - packetsDropped stats,
     duration = duration to - duration stats, connected = connected to\<rparr>"

text \<open>The operations of the interface \<open>Collector\<close>, as data.\<close>

datatype collector_op =
    OpConnectionAdded | OpConnectionRemoved | OpPacketReceived | OpPacketSent | OpPacketDropped
  | OpSourceConnected | OpSourceDisconnected | OpStreamDuration i64

fun collect :: "collector_op \<Rightarrow> realCollector \<Rightarrow> realCollector" where
  "collect OpConnectionAdded = ConnectionAdded"
| "collect OpConnectionRemoved = ConnectionRemoved"
| "collect OpPacketReceived = PacketReceived"
| "collect OpPacketSent = PacketSent"
| "collect OpPacketDropped = PacketDropped"
| "collect OpSourceConnected = SourceConnected"
| "collect OpSourceDisconnected = SourceDisconnected"
| "collect (OpStreamDuration d) = StreamDuration d"

section \<open>Published statistics\<close>

record StreamStatistics =
  Connections :: i64
  MaxConnections :: i64
  FullConnections :: i64
  TotalPacketsReceived :: u64
  TotalPacketsSent :: u64
  TotalPacketsDropped :: u64
  TotalBytesReceived :: u64
  TotalBytesSent :: u64
  TotalBytesDropped :: u64
  TotalStreamTime :: i64
  PacketsPerSecondReceived :: u64
  PacketsPerSecondSent :: u64
  PacketsPerSecondDropped :: u64
  BytesPerSecondReceived :: u64
  BytesPerSecondSent :: u64
  BytesPerSecondDropped :: u64
  Connected :: bool

definition zeroStatistics :: StreamStatistics where
  "zeroStatistics = \<lparr>Connections = 0, MaxConnections = 0, FullConnections = 0,
     TotalPacketsReceived = 0, TotalPacketsSent = 0, TotalPacketsDropped = 0,
     TotalBytesReceived = 0, TotalBytesSent = 0, TotalBytesDropped = 0, TotalStreamTime = 0,
     PacketsPerSecondReceived = 0, PacketsPerSecondSent = 0, PacketsPerSecondDropped = 0,
     BytesPerSecondReceived = 0, BytesPerSecondSent = 0, BytesPerSecondDropped = 0,
     Connected = False\<rparr>"

record realStatistics =
  st_running :: bool
  st_internal :: "(string \<times> realCollector) list"
  st_streams :: "(string \<times> StreamStatistics) list"
  st_global :: StreamStatistics

definition NewStatistics :: "u64 \<Rightarrow> u64 \<Rightarrow> realStatistics" where
  "NewStatistics maxconns fullcons =
     \<lparr>st_running = False, st_internal = [], st_streams = [],
      st_global = zeroStatistics\<lparr>MaxConnections := maxconns, FullConnections := fullcons\<rparr>\<rparr>"

definition reset_global :: "StreamStatistics \<Rightarrow> StreamStatistics" where
  "reset_global g = g\<lparr>Connections := 0, TotalPacketsReceived := 0, TotalPacketsSent := 0,
     TotalPacketsDropped := 0, TotalBytesReceived := 0, TotalBytesSent := 0, TotalBytesDropped := 0,
     TotalStreamTime := 0, PacketsPerSecondReceived := 0, PacketsPerSecondSent := 0,
     PacketsPerSecondDropped := 0, BytesPerSecondReceived := 0, BytesPerSecondSent := 0,
     BytesPerSecondDropped := 0, Connected := False\<rparr>"

definition packet_bytes :: "u64 \<Rightarrow> u64" where
  "packet_bytes n = n * of_nat MpegTsPacketSize"

definition update_stream ::
  "(u64 \<Rightarrow> i64 \<Rightarrow> u64) \<Rightarrow> i64 \<Rightarrow> realCollector \<Rightarrow> StreamStatistics \<Rightarrow> StreamStatistics" where
  "update_stream rate d diff stream =
     stream\<lparr>Connections := Connections stream + connections diff,
       TotalPacketsReceived := TotalPacketsReceived stream + packetsReceived diff,
       TotalPacketsSent := TotalPacketsSent stream + packetsSent diff,
       TotalPacketsDropped := TotalPacketsDropped stream + packetsDropped diff,
       TotalBytesReceived := packet_bytes (TotalPacketsReceived stream + packetsReceived diff),
       TotalBytesSent := packet_bytes (TotalPacketsSent stream + packetsSent diff),
       TotalBytesDropped := packet_bytes (TotalPacketsDropped stream + packetsDropped diff),
       TotalStreamTime := TotalStreamTime stream + duration diff,
       PacketsPerSecondReceived := rate (packetsReceived diff) d,
       PacketsPerSecondSent := rate (packetsSent diff) d,
       PacketsPerSecondDropped := rate (packetsDropped diff) d,
       BytesPerSecondReceived := packet_bytes (rate (packetsReceived diff) d),
       BytesPerSecondSent := packet_bytes (rate (packetsSent diff) d),
       BytesPerSecondDropped := packet_bytes (rate (packetsDropped diff) d),
       Connected := connected diff \<noteq> 0\<rparr>"

definition add_global :: "StreamStatistics \<Rightarrow> StreamStatistics \<Rightarrow> StreamStatistics" where
  "add_global stream g = g\<lparr>Connections := Connections g + Connections stream,
     TotalPacketsReceived := TotalPacketsReceived g + TotalPacketsReceived stream,
     TotalPacketsSent := TotalPacketsSent g + TotalPacketsSent stream,
     TotalPacketsDropped := TotalPacketsDropped g + TotalPacketsDropped stream,
     TotalBytesReceived := TotalBytesReceived g + TotalBytesReceived stream,
     TotalBytesSent := TotalBytesSent g + TotalBytesSent stream,
     TotalBytesDropped := TotalBytesDropped g + TotalBytesDropped stream,
     TotalStreamTime := TotalStreamTime g + TotalStreamTime stream,
     PacketsPerSecondReceived := PacketsPerSecondReceived g + PacketsPerSecondReceived stream,
     PacketsPerSecondSent := PacketsPerSecondSent g + PacketsPerSecondSent stream,
     PacketsPerSecondDropped := PacketsPerSecondDropped g + PacketsPerSecondDropped stream,
     BytesPerSecondReceived := BytesPerSecondReceived g + BytesPerSecondReceived stream,
     BytesPerSecondSent := BytesPerSecondSent g + BytesPerSecondSent stream,
     BytesPerSecondDropped := BytesPerSecondDropped g + BytesPerSecondDropped stream,
     Connected := (if Connected stream then True else Connected g)\<rparr>"

text \<open>The loop of \<open>update\<close>: a stream without an entry in \<open>change\<close> is a nil pointer.\<close>

definition update_entry ::
  "(u64 \<Rightarrow> i64 \<Rightarrow> u64) \<Rightarrow> i64 \<Rightarrow> (string \<rightharpoonup> realCollector) \<Rightarrow> string \<times> StreamStatistics \<Rightarrow>
   (string \<times> StreamStatistics) list \<times> StreamStatistics \<Rightarrow>
   ((string \<times> StreamStatistics) list \<times> StreamStatistics) go" where
  "update_entry rate d change e acc =
     (case change (fst e) of
        None \<Rightarrow> Inl NilDereference
      | Some diff \<Rightarrow>
          (let stream = update_stream rate d diff (snd e)
           in Inr (fst acc @ [(fst e, stream)], add_global stream (snd acc))))"

definition update ::
  "(u64 \<Rightarrow> i64 \<Rightarrow> u64) \<Rightarrow> i64 \<Rightarrow> (string \<rightharpoonup> realCollector) \<Rightarrow> realStatistics \<Rightarrow> realStatistics go" where
  "update rate d change stats =
     go_bind (go_foreach (update_entry rate d change) (st_streams stats) ([], reset_global (st_global stats)))
       (\<lambda>(streams, global). Inr (stats\<lparr>st_streams := streams, st_global := global\<rparr>))"

text \<open>\<open>delta\<close> returns the new state of its argument \<open>previous\<close> and its result \<open>current\<close>.\<close>

definition delta_entry ::
  "string \<times> realCollector \<Rightarrow> (string \<rightharpoonup> realCollector) \<times> (string \<rightharpoonup> realCollector) \<Rightarrow>
   ((string \<rightharpoonup> realCollector) \<times> (string \<rightharpoonup> realCollector)) go" where
  "delta_entry e acc =
     (case fst acc (fst e) of
        None \<Rightarrow> Inl NilDereference
      | Some p \<Rightarrow>
          (let u = clone (snd e)
           in Inr ((fst acc)(fst e \<mapsto> invsub u p), (snd acc)(fst e \<mapsto> u))))"

definition delta ::
  "realStatistics \<Rightarrow> (string \<rightharpoonup> realCollector) \<Rightarrow>
   ((string \<rightharpoonup> realCollector) \<times> (string \<rightharpoonup> realCollector)) go" where
  "delta stats previous = go_foreach delta_entry (st_internal stats) (previous, Map.empty)"

text \<open>\<open>Start\<close> says whether it spawns the loop, \<open>Stop\<close> whether it signals it.\<close>

definition Statistics_Start :: "realStatistics \<Rightarrow> realStatistics \<times> bool" where
  "Statistics_Start stats =
     (if \<not> st_running stats then (stats\<lparr>st_running := True\<rparr>, True) else (stats, False))"

definition Statistics_Stop :: "realStatistics \<Rightarrow> bool" where
  "Statistics_Stop stats = st_running stats"

definition RegisterStream :: "string \<Rightarrow> realStatistics \<Rightarrow> realStatistics" where
  "RegisterStream name stats =
     stats\<lparr>st_internal := AList.update name zeroCollector (st_internal stats),
           st_streams := AList.update name zeroStatistics (st_streams stats)\<rparr>"

definition RemoveStream :: "string \<Rightarrow> realStatistics \<Rightarrow> realStatistics" where
  "RemoveStream name stats =
     stats\<lparr>st_internal := AList.delete name (st_internal stats),
           st_streams := AList.delete name (st_streams stats)\<rparr>"

definition GetStreamStatistics :: "string \<Rightarrow> realStatistics \<Rightarrow> StreamStatistics go" where
  "GetStreamStatistics name stats =
     (case map_of (st_streams stats) name of None \<Rightarrow> Inl NilDereference | Some s \<Rightarrow> Inr s)"

definition GetAllStreamStatistics :: "realStatistics \<Rightarrow> string \<rightharpoonup> StreamStatistics" where
  "GetAllStreamStatistics stats = map_of (st_streams stats)"

definition GetGlobalStatistics :: "realStatistics \<Rightarrow> StreamStatistics" where
  "GetGlobalStatistics stats = st_global stats"

section \<open>The update loop\<close>

text \<open>
  The loop keeps the state of the last tick. A tick has two steps, each under the lock: \<open>delta\<close>, then
  \<open>update\<close> with the difference; collectors and registrations can change in between. A step of the
  loop that is not the next one has no effect: the loop is sequential.
\<close>

record stats_loop =
  lp_stats :: realStatistics
  lp_previous :: "string \<rightharpoonup> realCollector"
  lp_delta :: "(string \<rightharpoonup> realCollector) option"

definition loop_init :: "realStatistics \<Rightarrow> stats_loop" where
  "loop_init stats = \<lparr>lp_stats = stats,
     lp_previous = map_of (map (apsnd clone) (st_internal stats)), lp_delta = None\<rparr>"

datatype stats_event =
    Collect string collector_op
  | TickDelta
  | TickUpdate i64
  | Register string
  | Remove string

definition collect_at :: "string \<Rightarrow> collector_op \<Rightarrow> realStatistics \<Rightarrow> realStatistics" where
  "collect_at name op stats =
     stats\<lparr>st_internal := map (\<lambda>(n, c). (n, if n = name then collect op c else c)) (st_internal stats)\<rparr>"

fun stats_step :: "(u64 \<Rightarrow> i64 \<Rightarrow> u64) \<Rightarrow> stats_event \<Rightarrow> stats_loop \<Rightarrow> stats_loop go" where
  "stats_step rate (Collect name op) lp = Inr (lp\<lparr>lp_stats := collect_at name op (lp_stats lp)\<rparr>)"
| "stats_step rate TickDelta lp =
     (case lp_delta lp of
        Some d \<Rightarrow> Inr lp
      | None \<Rightarrow> go_bind (delta (lp_stats lp) (lp_previous lp))
          (\<lambda>(difference, current). Inr (lp\<lparr>lp_previous := current, lp_delta := Some difference\<rparr>)))"
| "stats_step rate (TickUpdate d) lp =
     (case lp_delta lp of
        None \<Rightarrow> Inr lp
      | Some difference \<Rightarrow> go_bind (update rate d difference (lp_stats lp))
          (\<lambda>stats. Inr (lp\<lparr>lp_stats := stats, lp_delta := None\<rparr>)))"
| "stats_step rate (Register name) lp = Inr (lp\<lparr>lp_stats := RegisterStream name (lp_stats lp)\<rparr>)"
| "stats_step rate (Remove name) lp = Inr (lp\<lparr>lp_stats := RemoveStream name (lp_stats lp)\<rparr>)"

definition run_stats :: "(u64 \<Rightarrow> i64 \<Rightarrow> u64) \<Rightarrow> stats_event list \<Rightarrow> stats_loop \<Rightarrow> stats_loop go" where
  "run_stats rate = go_foreach (stats_step rate)"

section \<open>What the two steps of a tick compute\<close>

lemma update_foreach:
  assumes "\<forall>e \<in> set es. change (fst e) \<noteq> None"
  shows "go_foreach (update_entry rate d change) es (ss, g) =
     (let new = map (\<lambda>(n, s). (n, update_stream rate d (the (change n)) s)) es
      in Inr (ss @ new, fold add_global (map snd new) g))"
  using assms by (induction es arbitrary: ss g) (auto simp: update_entry_def Let_def)

lemma update_eq:
  assumes "\<forall>e \<in> set (st_streams stats). change (fst e) \<noteq> None"
  shows "update rate d change stats =
     (let new = map (\<lambda>(n, s). (n, update_stream rate d (the (change n)) s)) (st_streams stats)
      in Inr (stats\<lparr>st_streams := new, st_global := fold add_global (map snd new) (reset_global (st_global stats))\<rparr>))"
  using update_foreach [OF assms] by (simp add: update_def Let_def)

lemma update_foreach_nil:
  assumes "e \<in> set es" and "change (fst e) = None"
  shows "go_foreach (update_entry rate d change) es acc = Inl NilDereference"
  using assms
  by (induction es arbitrary: acc) (auto simp: update_entry_def Let_def split: option.split)

lemma map_of_apsnd [simp]: "map_of (map (apsnd f) es) n = map_option f (map_of es n)"
  by (induction es) auto

lemma delta_foreach:
  assumes "distinct (map fst es)" and "\<forall>e \<in> set es. p (fst e) \<noteq> None"
  shows "go_foreach delta_entry es (p, q) =
     Inr (\<lambda>n. case map_of es n of None \<Rightarrow> p n | Some c \<Rightarrow> Some (invsub (clone c) (the (p n))),
          q ++ map_of (map (apsnd clone) es))"
  using assms
proof (induction es arbitrary: p q)
  case Nil
  show ?case by simp
next
  case (Cons e es)
  obtain n c where e: "e = (n, c)" by (cases e)
  obtain x where x: "p n = Some x" using Cons.prems e by auto
  let ?p = "p(n \<mapsto> invsub (clone c) x)" and ?q = "q(n \<mapsto> clone c)"
  have n: "n \<notin> fst ` set es" "map_of es n = None" "map_of (map (apsnd clone) es) n = None"
    using Cons.prems(1) e by (auto simp: map_of_eq_None_iff image_image)
  have "go_foreach delta_entry es (?p, ?q) =
     Inr (\<lambda>n. case map_of es n of None \<Rightarrow> ?p n | Some c \<Rightarrow> Some (invsub (clone c) (the (?p n))),
          ?q ++ map_of (map (apsnd clone) es))"
    using Cons.prems by (intro Cons.IH) auto
  moreover have "?q ++ map_of (map (apsnd clone) es) = q ++ map_of (map (apsnd clone) (e # es))"
    using n by (auto simp: e map_add_def fun_eq_iff split: option.splits)
  moreover have "(\<lambda>m. case map_of es m of None \<Rightarrow> ?p m | Some c \<Rightarrow> Some (invsub (clone c) (the (?p m)))) =
      (\<lambda>m. case map_of (e # es) m of None \<Rightarrow> p m | Some c \<Rightarrow> Some (invsub (clone c) (the (p m))))"
    using n x by (auto simp: e fun_eq_iff split: option.splits)
  moreover have "delta_entry e (p, q) = Inr (?p, ?q)"
    using x by (simp add: e delta_entry_def Let_def)
  ultimately show ?case by (simp only: go_foreach.simps go_bind_simps)
qed

lemma delta_foreach_nil:
  assumes "distinct (map fst es)" and "e \<in> set es" and "p (fst e) = None"
  shows "go_foreach delta_entry es (p, q) = Inl NilDereference"
  using assms
proof (induction es arbitrary: p q)
  case (Cons a es)
  show ?case
  proof (cases "p (fst a)")
    case None
    then show ?thesis by (simp add: delta_entry_def)
  next
    case (Some x)
    with Cons.prems have "e \<in> set es" "fst e \<noteq> fst a" by (auto simp: image_iff)
    with Cons Some show ?thesis by (simp add: delta_entry_def Let_def)
  qed
qed simp

section \<open>Invariant of the loop\<close>

definition ops_of :: "string \<Rightarrow> stats_event list \<Rightarrow> collector_op list" where
  "ops_of n es = concat (map (\<lambda>e. case e of Collect m op \<Rightarrow> if m = n then [op] else [] | _ \<Rightarrow> []) es)"

lemma ops_of_simps [simp]:
  "ops_of n [] = []"
  "ops_of n (es @ fs) = ops_of n es @ ops_of n fs"
  "ops_of n (Collect m op # es) = (if m = n then [op] else []) @ ops_of n es"
  "ops_of n (TickDelta # es) = ops_of n es" "ops_of n (TickUpdate d # es) = ops_of n es"
  "ops_of n (Remove m # es) = ops_of n es"
  by (simp_all add: ops_of_def)

text \<open>\<open>published s p b\<close>: the statistics \<open>s\<close> show the counters \<open>p\<close> relative to the counters \<open>b\<close>;
  \<open>pending s f p b\<close>: they will once the difference \<open>f\<close> is added.\<close>

definition pending :: "StreamStatistics \<Rightarrow> realCollector \<Rightarrow> realCollector \<Rightarrow> realCollector \<Rightarrow> bool" where
  "pending s f p b \<longleftrightarrow>
     Connections s + connections f = connections p - connections b
   \<and> TotalPacketsReceived s + packetsReceived f = packetsReceived p - packetsReceived b
   \<and> TotalPacketsSent s + packetsSent f = packetsSent p - packetsSent b
   \<and> TotalPacketsDropped s + packetsDropped f = packetsDropped p - packetsDropped b
   \<and> TotalStreamTime s + duration f = duration p - duration b"

definition published :: "StreamStatistics \<Rightarrow> realCollector \<Rightarrow> realCollector \<Rightarrow> bool" where
  "published s p b \<longleftrightarrow> pending s zeroCollector p b"

lemma published_zero: "published zeroStatistics (clone b) b"
  by (simp add: published_def pending_def zeroStatistics_def zeroCollector_def clone_def)

lemma published_invsub: "published s p b \<Longrightarrow> pending s (invsub (clone c) p) (clone c) b"
  by (simp add: published_def pending_def zeroCollector_def clone_def invsub_def)

lemma pending_update: "pending s f p b \<Longrightarrow> published (update_stream rate d f s) p b"
  by (simp add: published_def pending_def zeroCollector_def update_stream_def)

definition stats_ok :: "realStatistics \<Rightarrow> bool" where
  "stats_ok stats \<longleftrightarrow> distinct (map fst (st_internal stats)) \<and> distinct (map fst (st_streams stats))
     \<and> fst ` set (st_streams stats) = fst ` set (st_internal stats)"

definition fresh_stats :: "realStatistics \<Rightarrow> bool" where
  "fresh_stats stats \<longleftrightarrow> stats_ok stats \<and> (\<forall>s \<in> snd ` set (st_streams stats). s = zeroStatistics)"

text \<open>The relation between the events so far, the state \<open>start\<close> in which the loop was started and the
  state of the loop.\<close>

definition counts_inv :: "realStatistics \<Rightarrow> stats_event list \<Rightarrow> realStatistics \<Rightarrow> bool" where
  "counts_inv start es stats \<longleftrightarrow>
     (\<forall>n c. map_of (st_internal stats) n = Some c \<longrightarrow>
        (\<exists>b. map_of (st_internal start) n = Some b \<and> c = fold collect (ops_of n es) b))"

definition totals_inv ::
  "realStatistics \<Rightarrow> (string \<rightharpoonup> realCollector) option \<Rightarrow> (string \<rightharpoonup> realCollector) \<Rightarrow> realStatistics \<Rightarrow> bool" where
  "totals_inv start df prev stats \<longleftrightarrow>
     (\<forall>n s. map_of (st_streams stats) n = Some s \<longrightarrow>
        (\<exists>b p. map_of (st_internal start) n = Some b \<and> prev n = Some p
          \<and> (case df of
               None \<Rightarrow> published s p b
             | Some df \<Rightarrow> \<exists>f. df n = Some f \<and> pending s f p b)))"

definition loop_inv :: "realStatistics \<Rightarrow> stats_event list \<Rightarrow> stats_loop \<Rightarrow> bool" where
  "loop_inv start es lp \<longleftrightarrow> stats_ok (lp_stats lp) \<and> counts_inv start es (lp_stats lp)
     \<and> totals_inv start (lp_delta lp) (lp_previous lp) (lp_stats lp)"

lemma loop_inv_init:
  assumes "fresh_stats start"
  shows "loop_inv start [] (loop_init start)"
proof -
  have "\<exists>b. map_of (st_internal start) n = Some b \<and> lp_previous (loop_init start) n = Some (clone b) \<and> s = zeroStatistics"
    if "map_of (st_streams start) n = Some s" for n s
  proof -
    from that assms have "n \<in> fst ` set (st_internal start)" "s = zeroStatistics"
      by (force simp: fresh_stats_def stats_ok_def dest: map_of_SomeD)+
    moreover from this obtain b where "map_of (st_internal start) n = Some b"
      by (metis map_of_eq_None_iff not_None_eq)
    ultimately show ?thesis
      by (simp add: loop_init_def)
  qed
  then show ?thesis
    using assms published_zero
    by (force simp: loop_inv_def counts_inv_def totals_inv_def fresh_stats_def loop_init_def)
qed

lemma map_of_collect_at:
  "map_of (st_internal (collect_at m op stats)) n =
     map_option (if n = m then collect op else id) (map_of (st_internal stats) n)"
proof -
  have "map_of (map (\<lambda>(n, c). (n, if n = m then collect op c else c)) es) n =
      map_option (if n = m then collect op else id) (map_of es n)" for es
    by (induction es) auto
  then show ?thesis by (simp add: collect_at_def)
qed

lemma collect_at_keys [simp]:
  "map fst (st_internal (collect_at m op st)) = map fst (st_internal st)"
  "fst ` set (st_internal (collect_at m op st)) = fst ` set (st_internal st)"
  "st_streams (collect_at m op st) = st_streams st"
  by (auto simp: collect_at_def image_image split_def)

lemma loop_inv_collect:
  assumes "loop_inv start es lp"
  shows "loop_inv start (es @ [Collect m op]) (lp\<lparr>lp_stats := collect_at m op (lp_stats lp)\<rparr>)"
proof -
  have "counts_inv start (es @ [Collect m op]) (collect_at m op (lp_stats lp))"
    unfolding counts_inv_def
  proof (intro allI impI)
    fix n c assume "map_of (st_internal (collect_at m op (lp_stats lp))) n = Some c"
    then obtain c0 where c0: "map_of (st_internal (lp_stats lp)) n = Some c0"
        "c = (if n = m then collect op c0 else c0)"
      by (auto simp: map_of_collect_at)
    from c0(1) assms obtain b where "map_of (st_internal start) n = Some b" "c0 = fold collect (ops_of n es) b"
      by (auto simp: loop_inv_def counts_inv_def)
    with c0(2) show "\<exists>b. map_of (st_internal start) n = Some b \<and> c = fold collect (ops_of n (es @ [Collect m op])) b"
      by auto
  qed
  with assms show ?thesis
    by (simp add: loop_inv_def stats_ok_def totals_inv_def)
qed

lemma alist_delete_keys: "fst ` set (AList.delete m xs) = fst ` set xs - {m}"
  by (metis AList.delete_keys set_map set_removeAll)

lemma alist_delete_lookup: "map_of (AList.delete m xs) n = Some v \<Longrightarrow> map_of xs n = Some v"
  by (simp add: AList.delete_conv' split: if_splits)

lemma loop_inv_remove:
  assumes "loop_inv start es lp"
  shows "loop_inv start (es @ [Remove m]) (lp\<lparr>lp_stats := RemoveStream m (lp_stats lp)\<rparr>)"
proof -
  have "stats_ok (RemoveStream m (lp_stats lp))"
    using assms by (simp add: loop_inv_def stats_ok_def RemoveStream_def AList.distinct_delete alist_delete_keys)
  with assms show ?thesis
    unfolding loop_inv_def counts_inv_def totals_inv_def by (auto simp: RemoveStream_def dest: alist_delete_lookup)
qed

lemma stats_ok_lookup:
  assumes "stats_ok st" and "map_of (st_internal st) n = Some c"
  obtains s where "map_of (st_streams st) n = Some s"
  using assms unfolding stats_ok_def by (metis map_of_eq_None_iff option.exhaust option.distinct(1))

lemma stats_ok_lookup':
  assumes "stats_ok st" and "map_of (st_streams st) n = Some s"
  obtains c where "map_of (st_internal st) n = Some c"
  using assms unfolding stats_ok_def by (metis map_of_eq_None_iff option.exhaust option.distinct(1))

lemma loop_inv_delta:
  assumes inv: "loop_inv start es lp" and idle: "lp_delta lp = None"
  obtains lp' where "stats_step rate TickDelta lp = Inr lp'" "loop_inv start (es @ [TickDelta]) lp'"
    "lp_previous lp' = map_option clone \<circ> map_of (st_internal (lp_stats lp))"
    "lp_stats lp' = lp_stats lp"
    "\<exists>df. lp_delta lp' = Some df \<and> (\<forall>n c. map_of (st_internal (lp_stats lp)) n = Some c \<longrightarrow>
        (\<exists>f. df n = Some f \<and> connected f = ToAtomicBool (LoadBool (connected c))))"
proof -
  let ?st = "lp_stats lp" and ?p = "lp_previous lp"
  have ok: "stats_ok ?st" using inv by (simp add: loop_inv_def)
  have tot: "\<exists>b p. map_of (st_internal start) n = Some b \<and> ?p n = Some p \<and> published s p b"
    if "map_of (st_streams ?st) n = Some s" for n s
    using inv that idle by (auto simp: loop_inv_def totals_inv_def)
  have prev: "\<exists>p. ?p n = Some p" if "map_of (st_internal ?st) n = Some c" for n c
    using stats_ok_lookup [OF ok that] tot by metis
  let ?df = "\<lambda>n. case map_of (st_internal ?st) n of None \<Rightarrow> ?p n | Some c \<Rightarrow> Some (invsub (clone c) (the (?p n)))"
  let ?cur = "map_of (map (apsnd clone) (st_internal ?st))"
  let ?lp = "lp\<lparr>lp_previous := ?cur, lp_delta := Some ?df\<rparr>"
  have d: "distinct (map fst (st_internal ?st))" using ok by (simp add: stats_ok_def)
  have "\<forall>e \<in> set (st_internal ?st). ?p (fst e) \<noteq> None"
    using prev map_of_is_SomeI [OF d] by (metis option.distinct(1) prod.collapse)
  from delta_foreach [OF d this, of Map.empty]
  have step: "stats_step rate TickDelta lp = Inr ?lp"
    using idle by (simp add: delta_def)
  have "totals_inv start (Some ?df) ?cur ?st"
    unfolding totals_inv_def
  proof (intro allI impI)
    fix n s assume s: "map_of (st_streams ?st) n = Some s"
    from tot [OF s] obtain b p where bp: "map_of (st_internal start) n = Some b" "?p n = Some p" "published s p b"
      by blast
    obtain c where c: "map_of (st_internal ?st) n = Some c" using stats_ok_lookup' [OF ok s] .
    show "\<exists>b p. map_of (st_internal start) n = Some b \<and> ?cur n = Some p \<and>
        (case Some ?df of None \<Rightarrow> published s p b | Some df \<Rightarrow> \<exists>f. df n = Some f \<and> pending s f p b)"
      using bp c published_invsub [OF bp(3), of c] by auto
  qed
  with inv have "loop_inv start (es @ [TickDelta]) ?lp"
    by (simp add: loop_inv_def counts_inv_def)
  with step show ?thesis
    by (rule that) (auto simp: fun_eq_iff invsub_def clone_def)
qed

lemma map_of_case_prod:
  "map_of (map (\<lambda>(n, s). (n, g n s)) es) n = map_option (g n) (map_of es n)"
  by (induction es) auto

lemma loop_inv_update:
  assumes inv: "loop_inv start es lp" and busy: "lp_delta lp = Some df"
  obtains lp' where "stats_step rate (TickUpdate d) lp = Inr lp'" "loop_inv start (es @ [TickUpdate d]) lp'"
    "lp_previous lp' = lp_previous lp" "lp_delta lp' = None"
    "st_internal (lp_stats lp') = st_internal (lp_stats lp)"
    "st_streams (lp_stats lp') =
       map (\<lambda>(n, s). (n, update_stream rate d (the (df n)) s)) (st_streams (lp_stats lp))"
proof -
  let ?st = "lp_stats lp"
  let ?new = "map (\<lambda>(n, s). (n, update_stream rate d (the (df n)) s)) (st_streams ?st)"
  have ok: "stats_ok ?st" using inv by (simp add: loop_inv_def)
  have tot: "\<exists>b p f. map_of (st_internal start) n = Some b \<and> lp_previous lp n = Some p \<and> df n = Some f
      \<and> pending s f p b" if "map_of (st_streams ?st) n = Some s" for n s
    using inv that busy by (fastforce simp: loop_inv_def totals_inv_def)
  have "\<forall>e \<in> set (st_streams ?st). df (fst e) \<noteq> None"
    using tot map_of_is_SomeI ok unfolding stats_ok_def by (metis option.distinct(1) prod.collapse)
  from update_eq [OF this] obtain g where
    step: "stats_step rate (TickUpdate d) lp = Inr (lp\<lparr>lp_stats := ?st\<lparr>st_streams := ?new, st_global := g\<rparr>, lp_delta := None\<rparr>)"
    using busy by (auto simp: Let_def)
  have "totals_inv start None (lp_previous lp) (?st\<lparr>st_streams := ?new, st_global := g\<rparr>)"
    unfolding totals_inv_def using tot pending_update by (fastforce simp: map_of_case_prod)
  moreover have "stats_ok (?st\<lparr>st_streams := ?new, st_global := g\<rparr>)"
    using ok by (simp add: stats_ok_def split_def image_image comp_def)
  ultimately have "loop_inv start (es @ [TickUpdate d])
      (lp\<lparr>lp_stats := ?st\<lparr>st_streams := ?new, st_global := g\<rparr>, lp_delta := None\<rparr>)"
    using inv by (simp add: loop_inv_def counts_inv_def)
  with step show ?thesis by (rule that) auto
qed

fun is_register :: "stats_event \<Rightarrow> bool" where
  "is_register (Register n) = True"
| "is_register _ = False"

lemma loop_inv_step:
  assumes "loop_inv start es lp" and "\<not> is_register e"
  shows "\<exists>lp'. stats_step rate e lp = Inr lp' \<and> loop_inv start (es @ [e]) lp'"
proof (cases e)
  case (Collect n op)
  with loop_inv_collect [OF assms(1)] show ?thesis by auto
next
  case TickDelta
  show ?thesis
  proof (cases "lp_delta lp")
    case None
    with loop_inv_delta [OF assms(1)] TickDelta show ?thesis by metis
  next
    case Some
    with assms TickDelta show ?thesis by (simp add: loop_inv_def counts_inv_def)
  qed
next
  case (TickUpdate d)
  show ?thesis
  proof (cases "lp_delta lp")
    case None
    with assms TickUpdate show ?thesis by (simp add: loop_inv_def counts_inv_def)
  next
    case Some
    with loop_inv_update [OF assms(1)] TickUpdate show ?thesis by metis
  qed
next
  case (Remove n)
  with loop_inv_remove [OF assms(1)] show ?thesis by auto
qed (use assms in auto)

lemma run_stats_inv:
  assumes "fresh_stats start" and "\<forall>e \<in> set es. \<not> is_register e"
  shows "\<exists>lp. run_stats rate es (loop_init start) = Inr lp \<and> loop_inv start es lp"
  using assms(2)
proof (induction es rule: rev_induct)
  case Nil
  with loop_inv_init [OF assms(1)] show ?case by (simp add: run_stats_def)
next
  case (snoc e es)
  then obtain lp where lp: "run_stats rate es (loop_init start) = Inr lp" "loop_inv start es lp" by auto
  from loop_inv_step [OF lp(2), of e rate] snoc.prems lp(1) show ?case
    by (auto simp: run_stats_def go_foreach_append)
qed

lemma fold_collect_counts:
  "connections (fold collect ops b) = connections b + of_nat (count_list ops OpConnectionAdded)
     - of_nat (count_list ops OpConnectionRemoved)"
  "packetsReceived (fold collect ops b) = packetsReceived b + of_nat (count_list ops OpPacketReceived)"
  "packetsSent (fold collect ops b) = packetsSent b + of_nat (count_list ops OpPacketSent)"
  "packetsDropped (fold collect ops b) = packetsDropped b + of_nat (count_list ops OpPacketDropped)"
proof -
  have op: "connections (collect op b) = connections b + (if op = OpConnectionAdded then 1 else 0)
        - (if op = OpConnectionRemoved then 1 else 0)"
      "packetsReceived (collect op b) = packetsReceived b + (if op = OpPacketReceived then 1 else 0)"
      "packetsSent (collect op b) = packetsSent b + (if op = OpPacketSent then 1 else 0)"
      "packetsDropped (collect op b) = packetsDropped b + (if op = OpPacketDropped then 1 else 0)" for op b
    by (cases op; simp add: ConnectionAdded_def ConnectionRemoved_def PacketReceived_def PacketSent_def
        PacketDropped_def SourceConnected_def SourceDisconnected_def StreamDuration_def)+
  show "connections (fold collect ops b) = connections b + of_nat (count_list ops OpConnectionAdded)
     - of_nat (count_list ops OpConnectionRemoved)"
    by (induction ops arbitrary: b) (auto simp: op)
  show "packetsReceived (fold collect ops b) = packetsReceived b + of_nat (count_list ops OpPacketReceived)"
    by (induction ops arbitrary: b) (auto simp: op)
  show "packetsSent (fold collect ops b) = packetsSent b + of_nat (count_list ops OpPacketSent)"
    by (induction ops arbitrary: b) (auto simp: op)
  show "packetsDropped (fold collect ops b) = packetsDropped b + of_nat (count_list ops OpPacketDropped)"
    by (induction ops arbitrary: b) (auto simp: op)
qed

text \<open>The published bytes are the packets times the packet size, for totals and rates alike.\<close>

definition bytes_ok :: "StreamStatistics \<Rightarrow> bool" where
  "bytes_ok s \<longleftrightarrow> TotalBytesReceived s = packet_bytes (TotalPacketsReceived s)
     \<and> TotalBytesSent s = packet_bytes (TotalPacketsSent s)
     \<and> TotalBytesDropped s = packet_bytes (TotalPacketsDropped s)
     \<and> BytesPerSecondReceived s = packet_bytes (PacketsPerSecondReceived s)
     \<and> BytesPerSecondSent s = packet_bytes (PacketsPerSecondSent s)
     \<and> BytesPerSecondDropped s = packet_bytes (PacketsPerSecondDropped s)"

lemma bytes_ok_update [simp]: "bytes_ok (update_stream rate d f s)"
  by (simp add: bytes_ok_def update_stream_def)

lemma packet_bytes_simps [simp]:
  "packet_bytes 0 = 0" "packet_bytes (a + b) = packet_bytes a + packet_bytes b"
  by (simp_all add: packet_bytes_def distrib_right)

lemma bytes_ok_global:
  "bytes_ok g \<Longrightarrow> \<forall>s \<in> set ss. bytes_ok s \<Longrightarrow> bytes_ok (fold add_global ss g)"
proof (induction ss arbitrary: g)
  case (Cons s ss)
  have "bytes_ok (add_global s g)"
    using Cons.prems by (simp add: bytes_ok_def add_global_def)
  with Cons show ?case by simp
qed simp

lemma global_sums:
  "Connections (fold add_global ss g) = Connections g + sum_list (map Connections ss)"
  "TotalPacketsReceived (fold add_global ss g) = TotalPacketsReceived g + sum_list (map TotalPacketsReceived ss)"
  "TotalPacketsSent (fold add_global ss g) = TotalPacketsSent g + sum_list (map TotalPacketsSent ss)"
  "TotalPacketsDropped (fold add_global ss g) = TotalPacketsDropped g + sum_list (map TotalPacketsDropped ss)"
  "TotalStreamTime (fold add_global ss g) = TotalStreamTime g + sum_list (map TotalStreamTime ss)"
  "PacketsPerSecondReceived (fold add_global ss g) = PacketsPerSecondReceived g + sum_list (map PacketsPerSecondReceived ss)"
  "PacketsPerSecondSent (fold add_global ss g) = PacketsPerSecondSent g + sum_list (map PacketsPerSecondSent ss)"
  "PacketsPerSecondDropped (fold add_global ss g) = PacketsPerSecondDropped g + sum_list (map PacketsPerSecondDropped ss)"
  "Connected (fold add_global ss g) = (Connected g \<or> list_ex Connected ss)"
  "MaxConnections (fold add_global ss g) = MaxConnections g"
  "FullConnections (fold add_global ss g) = FullConnections g"
  by (induction ss arbitrary: g; simp add: add_global_def add.assoc)+

lemma published_counts:
  assumes "loop_inv start es lp" and "lp_delta lp = None"
    and "lp_previous lp = map_option clone \<circ> map_of (st_internal (lp_stats lp))"
    and "map_of (st_streams (lp_stats lp)) n = Some s"
  shows "TotalPacketsReceived s = of_nat (count_list (ops_of n es) OpPacketReceived)
     \<and> TotalPacketsSent s = of_nat (count_list (ops_of n es) OpPacketSent)
     \<and> TotalPacketsDropped s = of_nat (count_list (ops_of n es) OpPacketDropped)
     \<and> Connections s = of_nat (count_list (ops_of n es) OpConnectionAdded)
         - of_nat (count_list (ops_of n es) OpConnectionRemoved)"
proof -
  have ok: "stats_ok (lp_stats lp)" using assms(1) by (simp add: loop_inv_def)
  obtain c where c: "map_of (st_internal (lp_stats lp)) n = Some c" using stats_ok_lookup' [OF ok assms(4)] .
  obtain b where b: "map_of (st_internal start) n = Some b" "c = fold collect (ops_of n es) b"
    using assms(1) c by (auto simp: loop_inv_def counts_inv_def)
  have "published s (clone c) b"
    using assms c b by (force simp: loop_inv_def totals_inv_def)
  then show ?thesis
    by (simp add: published_def pending_def zeroCollector_def clone_def b(2) fold_collect_counts)
qed

lemma update_Inr:
  assumes "update rate d change stats = Inr stats'"
  shows "let new = map (\<lambda>(n, s). (n, update_stream rate d (the (change n)) s)) (st_streams stats)
    in stats' = stats\<lparr>st_streams := new, st_global := fold add_global (map snd new) (reset_global (st_global stats))\<rparr>"
proof -
  have "\<forall>e \<in> set (st_streams stats). change (fst e) \<noteq> None"
  proof (rule ccontr)
    assume "\<not> ?thesis"
    then obtain e where "e \<in> set (st_streams stats)" "change (fst e) = None" by blast
    from update_foreach_nil [where change = change and es = "st_streams stats", OF this] assms
    show False by (simp add: update_def)
  qed
  from update_eq [OF this, of rate d] assms show ?thesis by (simp add: Let_def)
qed

text \<open>The published totals are those of the calls in \<open>es\<close>.\<close>

definition counted :: "stats_event list \<Rightarrow> stats_loop \<Rightarrow> bool" where
  "counted es lp \<longleftrightarrow> (\<forall>n s. map_of (st_streams (lp_stats lp)) n = Some s \<longrightarrow>
        TotalPacketsReceived s = of_nat (count_list (ops_of n es) OpPacketReceived)
      \<and> TotalPacketsSent s = of_nat (count_list (ops_of n es) OpPacketSent)
      \<and> TotalPacketsDropped s = of_nat (count_list (ops_of n es) OpPacketDropped)
      \<and> Connections s = of_nat (count_list (ops_of n es) OpConnectionAdded)
          - of_nat (count_list (ops_of n es) OpConnectionRemoved)
      \<and> map_option IsUpstreamConnected (map_of (st_internal (lp_stats lp)) n) = Some (Connected s))"

text \<open>A complete tick of the loop.\<close>

lemma tick:
  assumes "loop_inv start es lp" and "lp_delta lp = None"
  obtains lp1 lp2 where "stats_step rate TickDelta lp = Inr lp1" "stats_step rate (TickUpdate d) lp1 = Inr lp2"
    "loop_inv start (es @ [TickDelta, TickUpdate d]) lp2"
    "map fst (st_streams (lp_stats lp2)) = map fst (st_streams (lp_stats lp))"
    "counted es lp2"
    "Connections (st_global (lp_stats lp2)) = sum_list (map (Connections \<circ> snd) (st_streams (lp_stats lp2)))"
proof -
  obtain lp1 df where lp1: "stats_step rate TickDelta lp = Inr lp1" "loop_inv start (es @ [TickDelta]) lp1"
      "lp_previous lp1 = map_option clone \<circ> map_of (st_internal (lp_stats lp))" "lp_stats lp1 = lp_stats lp"
      "lp_delta lp1 = Some df"
      "\<And>n c. map_of (st_internal (lp_stats lp)) n = Some c \<Longrightarrow>
         \<exists>f. df n = Some f \<and> connected f = ToAtomicBool (LoadBool (connected c))"
    using loop_inv_delta [OF assms] by metis
  obtain lp2 where lp2: "stats_step rate (TickUpdate d) lp1 = Inr lp2"
      "loop_inv start ((es @ [TickDelta]) @ [TickUpdate d]) lp2" "lp_previous lp2 = lp_previous lp1"
      "lp_delta lp2 = None" "st_internal (lp_stats lp2) = st_internal (lp_stats lp1)"
      "st_streams (lp_stats lp2) =
         map (\<lambda>(n, s). (n, update_stream rate d (the (df n)) s)) (st_streams (lp_stats lp1))"
    by (rule loop_inv_update [OF lp1(2,5)])
  have ok: "stats_ok (lp_stats lp2)" using lp2(2) by (simp add: loop_inv_def)
  have conn: "map_option IsUpstreamConnected (map_of (st_internal (lp_stats lp2)) n) = Some (Connected s)"
    if s: "map_of (st_streams (lp_stats lp2)) n = Some s" for n s
  proof -
    obtain c where c: "map_of (st_internal (lp_stats lp)) n = Some c"
      using stats_ok_lookup' [OF ok s] lp2(5) lp1(4) by metis
    from lp1(6) [OF this] s lp2(6) have "Connected s = (ToAtomicBool (LoadBool (connected c)) \<noteq> 0)"
      by (auto simp: map_of_case_prod update_stream_def)
    then show ?thesis
      using c lp2(5) lp1(4) by (simp add: IsUpstreamConnected_def ToAtomicBool_def AtomicTrue_def AtomicFalse_def)
  qed
  have "update rate d df (lp_stats lp1) = Inr (lp_stats lp2)" using lp1(5) lp2(1) by (auto simp: go_bind_Inr_conv)
  from update_Inr [OF this] have "Connections (st_global (lp_stats lp2)) = sum_list (map (Connections \<circ> snd) (st_streams (lp_stats lp2)))"
    by (simp add: Let_def global_sums reset_global_def comp_assoc)
  moreover have "map fst (st_streams (lp_stats lp2)) = map fst (st_streams (lp_stats lp))"
    using lp2(6) lp1(4) by (simp add: split_def)
  moreover have "counted es lp2"
    using conn published_counts [OF lp2(2,4)] lp2(3,5) lp1(3,4) by (simp add: counted_def comp_def)
  ultimately show ?thesis using that lp1(1) lp2(1,2) by simp
qed

section \<open>Properties\<close>

text \<open>
  C20. The published totals are the numbers of calls the streams made, modulo the width of the counters:
  after a complete tick, whatever calls, ticks and removals came before, every stream shows exactly
  the packets received, sent and dropped and the connections added less those removed since the loop
  was started, and whether its upstream is connected now. The loop does not crash on the way.
\<close>

theorem stats_totals:
  assumes "fresh_stats start" and "\<forall>e \<in> set es. \<not> is_register e"
    and "map_sum id lp_delta (run_stats rate es (loop_init start)) = Inr None"
  shows "\<exists>lp. run_stats rate (es @ [TickDelta, TickUpdate d]) (loop_init start) = Inr lp
     \<and> (\<forall>n s. map_of (st_streams (lp_stats lp)) n = Some s \<longrightarrow>
          TotalPacketsReceived s = of_nat (count_list (ops_of n es) OpPacketReceived)
        \<and> TotalPacketsSent s = of_nat (count_list (ops_of n es) OpPacketSent)
        \<and> TotalPacketsDropped s = of_nat (count_list (ops_of n es) OpPacketDropped)
        \<and> Connections s = of_nat (count_list (ops_of n es) OpConnectionAdded)
            - of_nat (count_list (ops_of n es) OpConnectionRemoved)
        \<and> map_option IsUpstreamConnected (map_of (st_internal (lp_stats lp)) n) = Some (Connected s))"
proof -
  obtain lp where lp: "run_stats rate es (loop_init start) = Inr lp" "loop_inv start es lp"
    using run_stats_inv [OF assms(1,2)] by blast
  then have "lp_delta lp = None" using assms(3) by simp
  with lp(2) obtain lp1 lp2 where tick: "stats_step rate TickDelta lp = Inr lp1" "stats_step rate (TickUpdate d) lp1 = Inr lp2"
    and counts: "counted es lp2"
    by (rule tick [where rate = rate and d = d])
  have "run_stats rate (es @ [TickDelta, TickUpdate d]) (loop_init start) = Inr lp2"
    using lp(1) tick by (simp add: run_stats_def go_foreach_append)
  with counts show ?thesis unfolding counted_def by blast
qed

definition two_streams :: realStatistics where
  "two_streams = RegisterStream ''b'' (RegisterStream ''a'' (NewStatistics 10 8))"

lemma two_streams_fresh: "fresh_stats two_streams"
  by (simp add: two_streams_def fresh_stats_def stats_ok_def RegisterStream_def NewStatistics_def)

theorem stats_totals_witness:
  "\<exists>lp. run_stats (\<lambda>n d. n) ([Collect ''a'' OpPacketSent, Collect ''b'' OpPacketSent, Collect ''a'' OpPacketSent]
       @ [TickDelta, TickUpdate 1]) (loop_init two_streams) = Inr lp
     \<and> (\<forall>s. map_of (st_streams (lp_stats lp)) ''a'' = Some s \<longrightarrow> TotalPacketsSent s = 2)"
proof -
  let ?es = "[Collect ''a'' OpPacketSent, Collect ''b'' OpPacketSent, Collect ''a'' OpPacketSent]"
  have idle: "map_sum id lp_delta (run_stats (\<lambda>n d. n) ?es (loop_init two_streams)) = Inr None"
    by (simp add: run_stats_def loop_init_def)
  show ?thesis
    using stats_totals [OF two_streams_fresh _ idle, of 1] by (fastforce simp: ops_of_def)
qed

text \<open>
  The global statistics are the sums of the published statistics of all streams, connected if one
  of them is, with bytes that are the packets times the packet size and with the configured limits
  kept.
\<close>

theorem global_statistics:
  assumes "update rate d change stats = Inr stats'"
  shows "let g = GetGlobalStatistics stats'; ss = map snd (st_streams stats') in
       Connections g = sum_list (map Connections ss)
     \<and> TotalPacketsReceived g = sum_list (map TotalPacketsReceived ss)
     \<and> TotalPacketsSent g = sum_list (map TotalPacketsSent ss)
     \<and> TotalPacketsDropped g = sum_list (map TotalPacketsDropped ss)
     \<and> TotalStreamTime g = sum_list (map TotalStreamTime ss)
     \<and> PacketsPerSecondReceived g = sum_list (map PacketsPerSecondReceived ss)
     \<and> PacketsPerSecondSent g = sum_list (map PacketsPerSecondSent ss)
     \<and> PacketsPerSecondDropped g = sum_list (map PacketsPerSecondDropped ss)
     \<and> Connected g = list_ex Connected ss
     \<and> bytes_ok g \<and> list_all bytes_ok ss
     \<and> MaxConnections g = MaxConnections (st_global stats)
     \<and> FullConnections g = FullConnections (st_global stats)
     \<and> map fst (st_streams stats') = map fst (st_streams stats)"
proof -
  let ?new = "map (\<lambda>(n, s). (n, update_stream rate d (the (change n)) s)) (st_streams stats)"
  have stats': "stats' = stats\<lparr>st_streams := ?new,
      st_global := fold add_global (map snd ?new) (reset_global (st_global stats))\<rparr>"
    using update_Inr [OF assms] by (simp add: Let_def)
  have all: "\<forall>s \<in> set (map snd ?new). bytes_ok s" by auto
  moreover have "bytes_ok (reset_global (st_global stats))" by (simp add: bytes_ok_def reset_global_def)
  ultimately have "bytes_ok (st_global stats')"
    using bytes_ok_global by (simp add: stats' del: map_map)
  moreover have "map fst (st_streams stats') = map fst (st_streams stats)"
    by (simp add: stats' split_def)
  ultimately show ?thesis
    using all unfolding Let_def GetGlobalStatistics_def
    by (simp add: stats' global_sums reset_global_def list_all_iff del: map_map set_map)
qed

theorem global_statistics_witness:
  "\<exists>stats'. update (\<lambda>n d. n) 1 [''a'' \<mapsto> PacketSent zeroCollector, ''b'' \<mapsto> PacketSent zeroCollector] two_streams = Inr stats'
     \<and> TotalPacketsSent (GetGlobalStatistics stats') = 2"
proof -
  let ?ch = "[''a'' \<mapsto> PacketSent zeroCollector, ''b'' \<mapsto> PacketSent zeroCollector]"
  obtain stats' where u: "update (\<lambda>n d. n) 1 ?ch two_streams = Inr stats'"
      "map snd (st_streams stats') = [update_stream (\<lambda>n d. n) 1 (PacketSent zeroCollector) zeroStatistics,
         update_stream (\<lambda>n d. n) 1 (PacketSent zeroCollector) zeroStatistics]"
    by (simp add: update_def two_streams_def RegisterStream_def NewStatistics_def update_entry_def Let_def)
  then show ?thesis
    using global_statistics [OF u(1)]
    by (simp add: Let_def update_stream_def zeroStatistics_def PacketSent_def zeroCollector_def)
qed

text \<open>
  C21. A stream registered while the loop is running has no entry in the state the loop compares with:
  the next tick dereferences a nil pointer.
\<close>

theorem register_while_running:
  assumes "stats_ok stats" and "n \<notin> fst ` set (st_internal stats)"
  shows "run_stats rate [Register n, TickDelta] (loop_init stats) = Inl NilDereference"
proof -
  let ?st = "RegisterStream n stats"
  have dist: "distinct (map fst (st_internal ?st))"
    using assms(1) by (simp add: stats_ok_def RegisterStream_def AList.distinct_update)
  have "(n, zeroCollector) \<in> set (st_internal ?st)"
    by (rule map_of_SomeD) (simp add: RegisterStream_def AList.update_conv')
  moreover have "lp_previous (loop_init stats) n = None"
    using assms(2) by (simp add: loop_init_def map_of_eq_None_iff)
  ultimately show ?thesis
    using delta_foreach_nil [OF dist, of "(n, zeroCollector)" "lp_previous (loop_init stats)"]
    by (simp add: run_stats_def delta_def loop_init_def)
qed

theorem register_while_running_witness:
  "run_stats (\<lambda>n d. n) [Register ''c'', TickDelta] (loop_init two_streams) = Inl NilDereference"
  using register_while_running [of two_streams "''c''"] two_streams_fresh
  by (simp add: fresh_stats_def two_streams_def RegisterStream_def NewStatistics_def)

end
