(* ===== verification/Stats_Interface.thy ===== *)
theory Stats_Interface
  imports Stats_Collector
begin

text \<open>
  The interfaces \<open>Collector\<close> and \<open>Statistics\<close> of \<open>metrics/stats.go\<close>, each with its two implementations:
  the real one of \<open>Stats_Collector\<close>, and a dummy that is used when statistics are off. A collector is
  \<open>None\<close> for the dummy.
\<close>

section \<open>Collectors\<close>

type_synonym Collector = "realCollector option"

definition iface_collect :: "collector_op \<Rightarrow> Collector \<Rightarrow> Collector" where
  [simp]: "iface_collect op c = map_option (collect op) c"

definition iface_IsUpstreamConnected :: "Collector \<Rightarrow> bool" where
  "iface_IsUpstreamConnected c = (case c of Some r \<Rightarrow> IsUpstreamConnected r | None \<Rightarrow> False)"

section \<open>Statistics\<close>

datatype Statistics =
    RealStatistics realStatistics
  | DummyStatistics

fun iface_Start :: "Statistics \<Rightarrow> Statistics" where
  "iface_Start (RealStatistics stats) = RealStatistics (fst (Statistics_Start stats))"
| "iface_Start DummyStatistics = DummyStatistics"

text \<open>\<open>Stop\<close> says whether the loop is signalled to end.\<close>

fun iface_Stop :: "Statistics \<Rightarrow> bool" where
  "iface_Stop (RealStatistics stats) = Statistics_Stop stats"
| "iface_Stop DummyStatistics = False"

fun iface_RegisterStream :: "string \<Rightarrow> Statistics \<Rightarrow> Collector \<times> Statistics" where
  "iface_RegisterStream name (RealStatistics stats) = (Some zeroCollector, RealStatistics (RegisterStream name stats))"
| "iface_RegisterStream name DummyStatistics = (None, DummyStatistics)"

fun iface_RemoveStream :: "string \<Rightarrow> Statistics \<Rightarrow> Statistics" where
  "iface_RemoveStream name (RealStatistics stats) = RealStatistics (RemoveStream name stats)"
| "iface_RemoveStream name DummyStatistics = DummyStatistics"

fun iface_GetStreamStatistics :: "string \<Rightarrow> Statistics \<Rightarrow> StreamStatistics go" where
  "iface_GetStreamStatistics name (RealStatistics stats) = GetStreamStatistics name stats"
| "iface_GetStreamStatistics name DummyStatistics = Inr zeroStatistics"

fun iface_GetAllStreamStatistics :: "Statistics \<Rightarrow> string \<rightharpoonup> StreamStatistics" where
  "iface_GetAllStreamStatistics (RealStatistics stats) = GetAllStreamStatistics stats"
| "iface_GetAllStreamStatistics DummyStatistics = Map.empty"

fun iface_GetGlobalStatistics :: "Statistics \<Rightarrow> StreamStatistics" where
  "iface_GetGlobalStatistics (RealStatistics stats) = GetGlobalStatistics stats"
| "iface_GetGlobalStatistics DummyStatistics = zeroStatistics"

section \<open>What both implementations have in common\<close>

text \<open>The laws of registration that a client of the interface can rely on: a stream that is registered
  can be asked for without a panic, others keep what they have, and a removed stream is not listed.\<close>

locale statistics_provider =
  fixes register :: "string \<Rightarrow> 's \<Rightarrow> 's"
    and remove :: "string \<Rightarrow> 's \<Rightarrow> 's"
    and get :: "string \<Rightarrow> 's \<Rightarrow> StreamStatistics go"
    and all :: "'s \<Rightarrow> string \<rightharpoonup> StreamStatistics"
  assumes get_registered: "get n (register n s) = Inr zeroStatistics"
    and get_other: "m \<noteq> n \<Longrightarrow> get m (register n s) = get m s"
    and get_other_removed: "m \<noteq> n \<Longrightarrow> get m (remove n s) = get m s"
    and all_register: "dom (all (register n s)) \<subseteq> insert n (dom (all s))"
    and all_remove: "dom (all (remove n s)) = dom (all s) - {n}"
begin

lemma registered_never_panics: "n \<in> set ns \<Longrightarrow> get n (fold register ns s) = Inr zeroStatistics"
proof (induction ns arbitrary: s rule: rev_induct)
  case (snoc m ns)
  then show ?case by (cases "n = m") (auto simp: get_registered get_other)
qed simp

lemma listed_streams: "dom (all (fold remove gone (fold register came s))) \<subseteq> (dom (all s) \<union> set came) - set gone"
proof (induction gone rule: rev_induct)
  case Nil
  show ?case
  proof (induction came rule: rev_induct)
    case (snoc m ns)
    then show ?case using all_register [of m "fold register ns s"] by simp blast
  qed simp
next
  case (snoc m gone)
  then show ?case by (auto simp: all_remove)
qed

end

interpretation stats_iface: statistics_provider "\<lambda>n s. snd (iface_RegisterStream n s)" iface_RemoveStream
  iface_GetStreamStatistics iface_GetAllStreamStatistics
proof
  fix n m :: string and s :: Statistics
  show "iface_GetStreamStatistics n (snd (iface_RegisterStream n s)) = Inr zeroStatistics"
    by (cases s) (simp_all add: GetStreamStatistics_def RegisterStream_def update_conv')
  show "m \<noteq> n \<Longrightarrow> iface_GetStreamStatistics m (snd (iface_RegisterStream n s)) = iface_GetStreamStatistics m s"
    by (cases s) (simp_all add: GetStreamStatistics_def RegisterStream_def update_conv')
  show "m \<noteq> n \<Longrightarrow> iface_GetStreamStatistics m (iface_RemoveStream n s) = iface_GetStreamStatistics m s"
    by (cases s) (simp_all add: GetStreamStatistics_def RemoveStream_def delete_conv')
  show "dom (iface_GetAllStreamStatistics (snd (iface_RegisterStream n s))) \<subseteq> insert n (dom (iface_GetAllStreamStatistics s))"
    by (cases s) (auto simp: GetAllStreamStatistics_def RegisterStream_def update_conv' split: if_splits)
  show "dom (iface_GetAllStreamStatistics (iface_RemoveStream n s)) = dom (iface_GetAllStreamStatistics s) - {n}"
    by (cases s) (auto simp: GetAllStreamStatistics_def RemoveStream_def delete_conv' split: if_splits)
qed

text \<open>
  After any registrations the statistics of a registered stream can be asked for, with or without real
  statistics, and only streams that were registered and not removed are listed.\<close>

theorem registered_streams:
  shows "list_all (\<lambda>n. \<exists>st. iface_GetStreamStatistics n (fold (\<lambda>n s. snd (iface_RegisterStream n s)) came s) = Inr st) came"
    and "dom (iface_GetAllStreamStatistics (fold iface_RemoveStream gone (fold (\<lambda>n s. snd (iface_RegisterStream n s)) came s)))
      \<subseteq> (dom (iface_GetAllStreamStatistics s) \<union> set came) - set gone"
  using stats_iface.registered_never_panics stats_iface.listed_streams by (auto simp: list_all_iff)

end
