(* ===== verification/Streamer.thy ===== *)
theory Streamer
  imports Stream_Connection Access_Control Auth_Users Stats_Interface
begin

text \<open>
  \<open>streaming/streamer.go\<close>: the packet multiplier. This theory has its data and the sequential pieces
  of its goroutines: what the command eater does with a request, what the streaming loop does with a
  packet and with a request, and what it does when its input ends. \<open>Stream_System\<close> puts them together.

  A pointer to a connection is a number, the address of the connection in a store. The pool is a list
  of such addresses without repetition, in the order of one iteration over the Go map. The statistics
  collector is optional: without one the dummy collector is used. The Prometheus counters are output
  only and are left out.
\<close>

datatype Command =
    streamerCommandIgnore
  | streamerCommandStart
  | StreamerCommandAdd
  | StreamerCommandRemove
  | StreamerCommandInhibit
  | StreamerCommandAllow

record ConnectionRequest =
  cr_Command :: Command
  cr_Address :: string
  cr_Connection :: "nat option"
  cr_Waiter :: bool
  cr_Ok :: bool

type_synonym store = "nat \<rightharpoonup> Connection"

record Streamer =
  str_name :: string
  str_queueSize :: nat
  str_running :: AtomicBool
  str_stats :: Collector
  str_events :: bool
  str_auth :: Authenticator
  str_preamble :: bytes

definition NewStreamer :: "string \<Rightarrow> nat \<Rightarrow> Authenticator \<Rightarrow> Streamer" where
  "NewStreamer name qsize auth =
     \<lparr>str_name = name, str_queueSize = qsize, str_running = AtomicFalse, str_stats = None,
      str_events = False, str_auth = auth, str_preamble = []\<rparr>"

definition SetCollector :: "realCollector \<Rightarrow> Streamer \<Rightarrow> Streamer" where
  "SetCollector stats streamer = streamer\<lparr>str_stats := Some stats\<rparr>"

text \<open>The notifier is not nil.\<close>

definition SetNotifier :: "Streamer \<Rightarrow> Streamer" where
  "SetNotifier streamer = streamer\<lparr>str_events := True\<rparr>"

definition SetPreamble :: "bytes \<Rightarrow> Streamer \<Rightarrow> Streamer" where
  "SetPreamble preamble streamer = streamer\<lparr>str_preamble := preamble\<rparr>"

definition new_request :: "Command \<Rightarrow> ConnectionRequest" where
  "new_request c = \<lparr>cr_Command = c, cr_Address = [], cr_Connection = None, cr_Waiter = False, cr_Ok = False\<rparr>"

text \<open>The request \<open>SetInhibit\<close> sends.\<close>

definition SetInhibit :: "bool \<Rightarrow> ConnectionRequest" where
  "SetInhibit inhibit =
     (if inhibit then new_request StreamerCommandInhibit else new_request StreamerCommandAllow)"

definition start_request :: ConnectionRequest where
  "start_request = new_request streamerCommandStart"

definition add_request :: "string \<Rightarrow> nat \<Rightarrow> ConnectionRequest" where
  "add_request addr c = \<lparr>cr_Command = StreamerCommandAdd, cr_Address = addr, cr_Connection = Some c,
     cr_Waiter = True, cr_Ok = False\<rparr>"

definition remove_request :: "string \<Rightarrow> nat \<Rightarrow> ConnectionRequest" where
  "remove_request addr c = \<lparr>cr_Command = StreamerCommandRemove, cr_Address = addr, cr_Connection = Some c,
     cr_Waiter = False, cr_Ok = False\<rparr>"

section \<open>The command eater\<close>

text \<open>One turn of \<open>eatCommands\<close>: whether it goes on. The request is not changed.\<close>

definition eat_request :: "ConnectionRequest \<Rightarrow> bool" where
  "eat_request request = (case cr_Command request of streamerCommandStart \<Rightarrow> False | _ \<Rightarrow> True)"

section \<open>The streaming loop\<close>

record stream_vars =
  sl_pool :: "nat list"
  sl_inhibit :: bool

definition stream_vars_init :: stream_vars where
  "stream_vars_init = \<lparr>sl_pool = [], sl_inhibit = False\<rparr>"

definition report :: "collector_op \<Rightarrow> Streamer \<Rightarrow> Streamer" where
  "report op streamer = streamer\<lparr>str_stats := iface_collect op (str_stats streamer)\<rparr>"

definition close_conn :: "nat \<Rightarrow> store \<Rightarrow> store go" where
  "close_conn c conns =
     (case conns c of
        None \<Rightarrow> Inl NilDereference
      | Some conn \<Rightarrow>
          go_bind (chan_close (conn_Queue conn)) (\<lambda>q. Inr (conns(c \<mapsto> conn\<lparr>conn_Queue := q\<rparr>))))"

text \<open>The body of the loop over the pool: a packet for one connection is queued or dropped.\<close>

definition distribute1 :: "bytes \<Rightarrow> nat \<Rightarrow> store \<times> Streamer \<Rightarrow> (store \<times> Streamer) go" where
  "distribute1 packet c st =
     (case fst st c of
        None \<Rightarrow> Inl NilDereference
      | Some conn \<Rightarrow>
          go_bind (chan_try_send packet (conn_Queue conn))
            (\<lambda>r. Inr (case r of
                 Some q \<Rightarrow> ((fst st)(c \<mapsto> conn\<lparr>conn_Queue := q\<rparr>), report OpPacketSent (snd st))
               | None \<Rightarrow> (fst st, report OpPacketDropped (snd st)))))"

definition distribute :: "bytes \<Rightarrow> nat list \<Rightarrow> store \<times> Streamer \<Rightarrow> (store \<times> Streamer) go" where
  "distribute packet = go_foreach (distribute1 packet)"

text \<open>The branch of the loop for a request. \<open>order\<close> is the order in which the pool is iterated when
  all connections are closed.\<close>

definition stream_request ::
  "(string \<Rightarrow> 'b \<Rightarrow> bool \<times> 'b) \<Rightarrow> nat list \<Rightarrow> ConnectionRequest \<Rightarrow> stream_vars \<Rightarrow> store \<Rightarrow> 'b \<Rightarrow>
   (ConnectionRequest \<times> stream_vars \<times> store \<times> 'b) go" where
  "stream_request accept order request vars conns broker =
     (case cr_Command request of
        StreamerCommandRemove \<Rightarrow>
          (case cr_Connection request of
             None \<Rightarrow> Inl NilDereference
           | Some c \<Rightarrow>
               (case conns c of
                  None \<Rightarrow> Inl NilDereference
                | Some conn \<Rightarrow>
                    go_bind (if \<not> conn_Closed conn then close_conn c conns else Inr conns)
                      (\<lambda>conns'. Inr (request, vars\<lparr>sl_pool := removeAll c (sl_pool vars)\<rparr>, conns', broker))))
      | StreamerCommandAdd \<Rightarrow>
          (case (if \<not> sl_inhibit vars then accept (cr_Address request) broker else (False, broker)) of
             (ok, broker') \<Rightarrow>
               if ok
               then (case cr_Connection request of
                       None \<Rightarrow> Inl NilDereference
                     | Some c \<Rightarrow> Inr (request\<lparr>cr_Ok := True\<rparr>,
                         vars\<lparr>sl_pool := (if c \<in> set (sl_pool vars) then sl_pool vars else sl_pool vars @ [c])\<rparr>,
                         conns, broker'))
               else Inr (request\<lparr>cr_Ok := False\<rparr>, vars, conns, broker'))
      | StreamerCommandInhibit \<Rightarrow>
          go_bind (go_foreach close_conn order conns)
            (\<lambda>conns'. Inr (request, vars\<lparr>sl_inhibit := True\<rparr>, conns', broker))
      | StreamerCommandAllow \<Rightarrow> Inr (request, vars\<lparr>sl_inhibit := False\<rparr>, conns, broker)
      | _ \<Rightarrow> Inr (request, vars, conns, broker))"

text \<open>Facts about the pieces, used by the system.\<close>

lemma report_fields [simp]:
  "str_running (report op s) = str_running s" "str_events (report op s) = str_events s"
  "str_preamble (report op s) = str_preamble s" "str_queueSize (report op s) = str_queueSize s"
  "str_auth (report op s) = str_auth s"
  by (simp_all add: report_def)

lemma close_conn_open:
  assumes "conns c = Some conn" and "\<not> cclosed (conn_Queue conn)"
  shows "close_conn c conns = Inr (conns(c \<mapsto> conn\<lparr>conn_Queue := (conn_Queue conn)\<lparr>cclosed := True\<rparr>\<rparr>))"
  using assms by (simp add: close_conn_def chan_close_def)

lemma close_conn_Inr:
  assumes "close_conn c conns = Inr conns'"
  obtains conn where "conns c = Some conn" "\<not> cclosed (conn_Queue conn)"
    "conns' = conns(c \<mapsto> conn\<lparr>conn_Queue := (conn_Queue conn)\<lparr>cclosed := True\<rparr>\<rparr>)"
  using assms by (auto simp: close_conn_def chan_close_def split: option.splits if_splits)

lemma distribute1_Inr:
  assumes "distribute1 p c (conns, str) = Inr (conns', str')"
  obtains (queued) conn where "conns c = Some conn" "\<not> cclosed (conn_Queue conn)" "chan_room (conn_Queue conn)"
      "conns' = conns(c \<mapsto> conn\<lparr>conn_Queue := (conn_Queue conn)\<lparr>cbuf := cbuf (conn_Queue conn) @ [p]\<rparr>\<rparr>)"
      "str' = report OpPacketSent str"
    | (dropped) conn where "conns c = Some conn" "\<not> cclosed (conn_Queue conn)" "\<not> chan_room (conn_Queue conn)"
      "conns' = conns" "str' = report OpPacketDropped str"
  using assms by (auto simp: distribute1_def chan_try_send_def split: option.splits if_splits)

section \<open>Properties of a distribution\<close>

definition queue_of :: "store \<Rightarrow> nat \<Rightarrow> bytes list" where
  "queue_of conns c = (case conns c of None \<Rightarrow> [] | Some conn \<Rightarrow> cbuf (conn_Queue conn))"

definition has_room :: "store \<Rightarrow> nat \<Rightarrow> bool" where
  "has_room conns c \<longleftrightarrow> (case conns c of None \<Rightarrow> False | Some conn \<Rightarrow> chan_room (conn_Queue conn))"

definition open_conn :: "store \<Rightarrow> nat \<Rightarrow> bool" where
  "open_conn conns c \<longleftrightarrow> (case conns c of None \<Rightarrow> False | Some conn \<Rightarrow> \<not> cclosed (conn_Queue conn))"

definition count_of :: "(realCollector \<Rightarrow> u64) \<Rightarrow> Streamer \<Rightarrow> u64" where
  "count_of f str = (case str_stats str of None \<Rightarrow> 0 | Some c \<Rightarrow> f c)"

lemma count_of_report [simp]:
  "str_stats str \<noteq> None \<Longrightarrow> count_of packetsSent (report OpPacketSent str) = count_of packetsSent str + 1"
  "str_stats str \<noteq> None \<Longrightarrow> count_of packetsDropped (report OpPacketDropped str) = count_of packetsDropped str + 1"
  "count_of packetsSent (report OpPacketDropped str) = count_of packetsSent str"
  "count_of packetsDropped (report OpPacketSent str) = count_of packetsDropped str"
  "str_stats (report op str) = None \<longleftrightarrow> str_stats str = None"
  by (auto simp: count_of_def report_def PacketSent_def PacketDropped_def split: option.splits)



end
