(* ===== verification/Upstream_Client.thy ===== *)
theory Upstream_Client
  imports Streamer
begin

text \<open>
  \<open>streaming/client.go\<close>: the upstream client, which connects to one of a list of servers, reads
  packets and feeds them to its streamer.

  URLs are records of the parts the client looks at; parsing them, name resolution and opening a
  source are arguments of the definitions. What \<open>pull\<close> does besides reading is recorded as a list of
  effects, in order; the packets it sends to the queue are among them. Times are integers
  (nanoseconds).
\<close>

record url =
  u_Scheme :: string
  u_Host :: string
  u_Hostname :: string
  u_Path :: string
  u_RawQuery :: string

datatype 'e client_error =
    ErrInvalidProtocol
  | ErrNoConnection
  | ErrAlreadyConnected
  | ErrNoUrl
  | OtherError 'e

record 's Client =
  cl_name :: string
  cl_urls :: "url option list"
  cl_response :: "nat option"
  cl_input :: "'s option"
  cl_Wait :: int
  cl_ReadTimeout :: int
  cl_running :: AtomicBool
  cl_queueSize :: nat
  cl_interf :: "string option"
  cl_readBufferSize :: int
  cl_packetSize :: nat
  cl_stats :: Collector

section \<open>Construction\<close>

text \<open>The loop over the URIs: parsed URLs fill the slice from the front.\<close>

fun parse_urls :: "(string \<Rightarrow> 'e + url) \<Rightarrow> string list \<Rightarrow> url option list \<times> nat \<Rightarrow> url option list \<times> nat" where
  "parse_urls parse [] (urls, n) = (urls, n)"
| "parse_urls parse (uri # uris) (urls, n) =
     (case parse uri of
        Inr u \<Rightarrow> parse_urls parse uris (urls[n := Some u], n + 1)
      | Inl err \<Rightarrow> parse_urls parse uris (urls, n))"

definition second :: int where "second = 1000000000"

definition NewClient ::
  "(string \<Rightarrow> 'e + url) \<Rightarrow> (string \<Rightarrow> 'e + string) \<Rightarrow> string \<Rightarrow> string list \<Rightarrow> nat \<Rightarrow> nat \<Rightarrow> nat \<Rightarrow> string
     \<Rightarrow> nat \<Rightarrow> nat \<Rightarrow> 'e client_error + 's Client" where
  "NewClient parse interface_by_name name uris reconnect readtimeout qsize intf bufferSize packetSize =
     (case parse_urls parse uris (replicate (length uris) None, 0) of
        (urls, n) \<Rightarrow>
          if n < 1 then Inl ErrNoUrl
          else Inr \<lparr>cl_name = name, cl_urls = urls, cl_response = None, cl_input = None,
                 cl_Wait = wrap64 (int reconnect * second), cl_ReadTimeout = wrap64 (int readtimeout * second),
                 cl_running = AtomicFalse, cl_queueSize = qsize,
                 cl_interf = (if intf \<noteq> [] then (case interface_by_name intf of Inr i \<Rightarrow> Some i | Inl err \<Rightarrow> None) else None),
                 cl_readBufferSize = wrap64 (int bufferSize * int MpegTsPacketSize), cl_packetSize = packetSize,
                 cl_stats = None\<rparr>)"

definition Client_SetCollector :: "Collector \<Rightarrow> 's Client \<Rightarrow> 's Client" where
  "Client_SetCollector stats client = client\<lparr>cl_stats := stats\<rparr>"

definition Client_SetInhibit :: "bool \<Rightarrow> ConnectionRequest" where
  "Client_SetInhibit inhibit = SetInhibit inhibit"

definition Client_Close :: "('s \<Rightarrow> 'e option) \<Rightarrow> 's Client \<Rightarrow> 'e client_error option" where
  "Client_Close close_input client =
     (case cl_input client of
        Some input \<Rightarrow> map_option OtherError (close_input input)
      | None \<Rightarrow> Some ErrNoConnection)"

definition StatusCode :: "'s Client \<Rightarrow> nat" where
  "StatusCode client =
     (case cl_response client of
        Some code \<Rightarrow> code
      | None \<Rightarrow> if cl_input client \<noteq> None then 200 else 0)"

text \<open>\<open>status_text\<close> is \<open>http.StatusText\<close>.\<close>

definition Status :: "(nat \<Rightarrow> string) \<Rightarrow> 's Client \<Rightarrow> string" where
  "Status status_text client = status_text (StatusCode client)"

definition Connected_client :: "'s Client \<Rightarrow> bool" where
  "Connected_client client = LoadBool (cl_running client)"

section \<open>The connection loop\<close>

record loop_vars =
  lo_first :: bool
  lo_deadline :: int
  lo_next :: nat

definition loop_start :: "int \<Rightarrow> 's Client \<Rightarrow> loop_vars" where
  "loop_start now client = \<lparr>lo_first = True, lo_deadline = now + cl_Wait client, lo_next = 0\<rparr>"

text \<open>One turn of the loop up to the connection attempt: \<open>None\<close> when the loop ends, otherwise the time
  it sleeps and the URL it tries. \<open>now\<close> is the time at the start of the turn, \<open>later\<close> the time after the
  sleep.\<close>

definition loop_turn :: "'s Client \<Rightarrow> int \<Rightarrow> int \<Rightarrow> loop_vars \<Rightarrow> (int \<times> url \<times> loop_vars) go option" where
  "loop_turn client now later vars =
     (if lo_first vars \<or> cl_Wait client \<noteq> 0 then
        let sleep = (if lo_first vars then 0
                     else if now < lo_deadline vars then lo_deadline vars - now else 0);
            deadline = (if lo_first vars then lo_deadline vars else later + cl_Wait client);
            next = lo_next vars
        in if length (cl_urls client) \<le> next then Some (Inl IndexOutOfRange)
           else (case cl_urls client ! next of
                   None \<Rightarrow> Some (Inl NilDereference)
                 | Some u \<Rightarrow> Some (Inr (sleep, u, \<lparr>lo_first = False, lo_deadline = deadline,
                     lo_next = (next + 1) mod length (cl_urls client)\<rparr>)))
      else None)"

text \<open>A sequence of turns, with the times of each.\<close>

fun loop_run :: "'s Client \<Rightarrow> (int \<times> int) list \<Rightarrow> loop_vars \<Rightarrow> (int \<times> url) list \<times> panic option" where
  "loop_run client [] vars = ([], None)"
| "loop_run client ((now, later) # ts) vars =
     (case loop_turn client now later vars of
        None \<Rightarrow> ([], None)
      | Some (Inl p) \<Rightarrow> ([], Some p)
      | Some (Inr (sleep, u, vars')) \<Rightarrow> (case loop_run client ts vars' of (us, r) \<Rightarrow> ((sleep, u) # us, r)))"

section \<open>Streaming\<close>

datatype pull_effect =
    EffSourceConnected
  | EffStartStream
  | EffPacketReceived
  | EffQueue bytes
  | EffCloseQueue
  | EffSourceDisconnected

text \<open>The loop of \<open>pull\<close>; it only ends with a read error. \<open>started\<close> says whether the queue exists.\<close>

partial_function (option) pull_loop ::
  "'s io_reader \<Rightarrow> bool \<Rightarrow> pull_effect list \<Rightarrow> 's \<Rightarrow> (io_error \<times> bool \<times> pull_effect list \<times> 's) option" where
  "pull_loop rd started effs s =
     (case ReadMpegTsPacket rd s of
        None \<Rightarrow> None
      | Some (Inl err, s') \<Rightarrow> Some (err, started, effs, s')
      | Some (Inr (Some packet), s') \<Rightarrow>
          pull_loop rd True
            (effs @ (if started then [] else [EffSourceConnected, EffStartStream]) @ [EffPacketReceived, EffQueue packet]) s'
      | Some (Inr None, s') \<Rightarrow> pull_loop rd started effs s')"

definition pull :: "'s io_reader \<Rightarrow> AtomicBool \<Rightarrow> 's \<Rightarrow> (io_error option \<times> pull_effect list \<times> AtomicBool \<times> 's) option" where
  "pull rd running s =
     (if LoadBool running
      then (case pull_loop rd False [] s of
              None \<Rightarrow> None
            | Some (err, started, effs, s') \<Rightarrow>
                Some (Some err, effs @ (if started then [EffCloseQueue, EffSourceDisconnected] else []),
                      StoreBool False running, s'))
      else Some (None, [], running, s))"

text \<open>The calls of the collector among the effects.\<close>

fun collector_call :: "pull_effect \<Rightarrow> collector_op option" where
  "collector_call EffSourceConnected = Some OpSourceConnected"
| "collector_call EffPacketReceived = Some OpPacketReceived"
| "collector_call EffSourceDisconnected = Some OpSourceDisconnected"
| "collector_call _ = None"

definition report_effects :: "pull_effect list \<Rightarrow> Collector \<Rightarrow> Collector" where
  "report_effects effs stats = fold iface_collect (List.map_filter collector_call effs) stats"

section \<open>Connecting\<close>

datatype target =
    OpenFile string
  | HttpGet url
  | Dial string string
  | ListenUdp string
  | ListenMulticastUdp string "string option"
  | ForkCommand string "string list"

fun split_space :: "string \<Rightarrow> string list" where
  "split_space [] = [[]]"
| "split_space (c # cs) =
     (if c = CHR '' '' then [] # split_space cs
      else case split_space cs of w # ws \<Rightarrow> (c # w) # ws | [] \<Rightarrow> [[c]])"

text \<open>The switch over the scheme. \<open>resolve\<close> is name resolution and says whether the address is a
  multicast address, \<open>unescape\<close> decodes a query.\<close>

definition start_target ::
  "(string \<Rightarrow> 'e + bool) \<Rightarrow> (string \<Rightarrow> 'e + string) \<Rightarrow> string option \<Rightarrow> url \<Rightarrow> 'e client_error + target" where
  "start_target resolve unescape interf urly =
     (if u_Scheme urly = ''file'' then Inr (OpenFile (u_Path urly))
      else if u_Scheme urly \<in> {''http'', ''https''} then Inr (HttpGet urly)
      else if u_Scheme urly = ''tcp'' then Inr (Dial (u_Scheme urly) (u_Host urly))
      else if u_Scheme urly \<in> {''unix'', ''unixgram'', ''unixpacket''} then Inr (Dial (u_Scheme urly) (u_Path urly))
      else if u_Scheme urly = ''udp'' then
        (case resolve (u_Host urly) of
           Inl err \<Rightarrow> Inl (OtherError err)
         | Inr multicast \<Rightarrow>
             Inr (if multicast then ListenMulticastUdp (u_Host urly) interf else ListenUdp (u_Host urly)))
      else if u_Scheme urly = ''fork'' then
        (case unescape (u_RawQuery urly) of
           Inl err \<Rightarrow> Inl (OtherError err)
         | Inr arguments \<Rightarrow> Inr (ForkCommand (u_Hostname urly) (split_space arguments)))
      else Inl ErrInvalidProtocol)"

text \<open>\<open>open_target\<close> opens a source: its reader and, for HTTP, the status code of the response. Errors of
  \<open>Close\<close> are only logged. The outer \<open>None\<close> stands for a call that does not return.\<close>

definition start ::
  "'s io_reader \<Rightarrow> (target \<Rightarrow> io_error + 's \<times> nat option) \<Rightarrow> (string \<Rightarrow> io_error + bool) \<Rightarrow> (string \<Rightarrow> io_error + string)
   \<Rightarrow> url \<Rightarrow> 's Client \<Rightarrow> (io_error client_error option \<times> pull_effect list \<times> 's Client) option" where
  "start rd open_target resolve unescape urly client =
     (if cl_input client = None
      then (case start_target resolve unescape (cl_interf client) urly of
              Inl err \<Rightarrow> Some (Some err, [], client)
            | Inr target \<Rightarrow>
                (case open_target target of
                   Inl err \<Rightarrow> Some (Some (OtherError err), [], client)
                 | Inr (input, code) \<Rightarrow>
                     (let running = StoreBool True (cl_running client)
                      in case pull rd running input of
                           None \<Rightarrow> None
                         | Some (err, effs, running', s') \<Rightarrow>
                             Some (map_option OtherError err, effs,
                               client\<lparr>cl_running := running', cl_input := None, cl_response := None,
                                      cl_stats := report_effects effs (cl_stats client)\<rparr>))))
      else Some (Some ErrAlreadyConnected, [], client))"

section \<open>The packets of a byte stream\<close>

lemma next_packet_consumes: "next_packet bs = Some (p, rest) \<Longrightarrow> length rest < length bs"
  by (auto simp: next_packet_def MpegTsPacketSize_def split: if_splits option.splits)

function packets_of :: "bytes \<Rightarrow> bytes list" where
  "packets_of bs =
     (case next_packet bs of
        None \<Rightarrow> []
      | Some (None, rest) \<Rightarrow> packets_of rest
      | Some (Some p, rest) \<Rightarrow> p # packets_of rest)"
  by pat_completeness auto
termination
  by (relation "measure length") (auto dest: next_packet_consumes)

declare packets_of.simps [simp del]

lemma packets_of_next:
  "next_packet bs = None \<Longrightarrow> packets_of bs = []"
  "next_packet bs = Some (None, rest) \<Longrightarrow> packets_of bs = packets_of rest"
  "next_packet bs = Some (Some p, rest) \<Longrightarrow> packets_of bs = p # packets_of rest"
  by (simp_all add: packets_of.simps [of bs])

lemma packets_of_aligned:
  assumes "\<forall>p \<in> set ps. is_packet p" and "length tail < MpegTsPacketSize"
  shows "packets_of (concat ps @ tail) = ps"
  using assms(1)
proof (induction ps)
  case Nil
  show ?case using assms(2) by (simp add: packets_of.simps next_packet_def)
next
  case (Cons p ps)
  have "next_packet ([] @ p @ (concat ps @ tail)) = Some (Some p, concat ps @ tail)"
    using Cons.prems by (intro next_packet_aligned) auto
  with Cons show ?case by (simp add: packets_of_next(3))
qed

lemma packets_of_resync:
  assumes "MpegTsSyncByte \<notin> set junk" and "\<forall>p \<in> set ps. is_packet p" and "ps \<noteq> []" and "length tail < MpegTsPacketSize"
  shows "packets_of (junk @ concat ps @ tail) = ps"
  using assms(1)
proof (induction "length junk" arbitrary: junk rule: less_induct)
  case less
  obtain p qs where ps: "ps = p # qs" using assms(3) by (cases ps) auto
  have p: "length p = MpegTsPacketSize" using assms(2) ps by (simp add: is_packet_def)
  show ?case
  proof (cases "length junk < MpegTsPacketSize")
    case True
    have "next_packet (junk @ p @ (concat qs @ tail)) = Some (Some p, concat qs @ tail)"
      using less.prems True assms(2) ps by (intro next_packet_aligned) auto
    moreover have "packets_of (concat qs @ tail) = qs" using assms(2,4) ps by (intro packets_of_aligned) auto
    ultimately show ?thesis by (simp add: ps packets_of_next(3))
  next
    case False
    let ?rest = "drop MpegTsPacketSize junk @ concat ps @ tail"
    have "find_sync (take MpegTsPacketSize (junk @ concat ps @ tail)) = None"
      using less.prems False by (auto simp: find_sync_None dest: in_set_takeD)
    then have "next_packet (junk @ concat ps @ tail) = Some (None, ?rest)"
      using False by (simp add: next_packet_def)
    moreover have "packets_of ?rest = ps"
      using less.prems False by (intro less.hyps) (auto simp: MpegTsPacketSize_def dest: in_set_dropD)
    ultimately show ?thesis by (simp add: packets_of_next(2))
  qed
qed

definition forwarded :: "bool \<Rightarrow> bytes list \<Rightarrow> pull_effect list" where
  "forwarded started ps =
     (if started \<or> ps = [] then [] else [EffSourceConnected, EffStartStream])
     @ concat (map (\<lambda>p. [EffPacketReceived, EffQueue p]) ps)"

context byte_source
begin

lemma pull_loop_stream:
  assumes "invar s"
  shows "\<exists>e s'. pull_loop rd started effs s =
     Some (e, started \<or> packets_of (bytes_left s) \<noteq> [], effs @ forwarded started (packets_of (bytes_left s)), s')"
  using assms
proof (induction "length (bytes_left s)" arbitrary: s started effs rule: less_induct)
  case less
  note spec = ReadMpegTsPacket_refines [OF less.prems]
  show ?case
  proof (cases "next_packet (bytes_left s)")
    case None
    with spec obtain e s' where "ReadMpegTsPacket rd s = Some (Inl e, s')" by auto
    with None show ?thesis by (simp add: pull_loop.simps packets_of_next(1) forwarded_def)
  next
    case (Some pr)
    obtain p rest where pr: "pr = (p, rest)" by (cases pr)
    with spec Some obtain s' where s': "ReadMpegTsPacket rd s = Some (Inr p, s')" "bytes_left s' = rest" "invar s'" by auto
    have lt: "length (bytes_left s') < length (bytes_left s)"
      using next_packet_consumes Some pr s'(2) by auto
    show ?thesis
    proof (cases p)
      case None
      with less.hyps [OF lt s'(3), of started effs] s' Some pr show ?thesis
        by (simp add: pull_loop.simps [of rd started effs s] packets_of_next(2))
    next
      case (Some q)
      let ?effs = "effs @ (if started then [] else [EffSourceConnected, EffStartStream]) @ [EffPacketReceived, EffQueue q]"
      from less.hyps [OF lt s'(3), of True ?effs] Some s' \<open>next_packet (bytes_left s) = Some pr\<close> pr show ?thesis
        by (auto simp: pull_loop.simps [of rd started effs s] packets_of_next(3) forwarded_def)
    qed
  qed
qed

end

section \<open>The URLs of a client\<close>

definition parsed :: "(string \<Rightarrow> 'e + url) \<Rightarrow> string list \<Rightarrow> url list" where
  "parsed parse uris = [u. Inr u \<leftarrow> map parse uris]"

lemma parse_urls_eq:
  assumes "length us + length uris + k = n"
  shows "parse_urls parse uris (map Some us @ replicate (length uris + k) None, length us) =
     (map Some (us @ parsed parse uris) @ replicate (n - length us - length (parsed parse uris)) None,
      length us + length (parsed parse uris))"
  using assms
proof (induction uris arbitrary: us k)
  case Nil
  then show ?case by (simp add: parsed_def)
next
  case (Cons uri uris)
  show ?case
  proof (cases "parse uri")
    case (Inl e)
    with Cons.IH [of us "Suc k"] Cons.prems show ?thesis by (simp add: parsed_def)
  next
    case (Inr u)
    have "(map Some us @ replicate (length (uri # uris) + k) None)[length us := Some u] =
        map Some (us @ [u]) @ replicate (length uris + k) None"
      by (simp add: list_update_append)
    with Inr Cons.IH [of "us @ [u]" k] Cons.prems show ?thesis by (simp add: parsed_def)
  qed
qed

lemma NewClient_urls:
  assumes "NewClient parse ifs name uris rc rt qs intf bs psz = Inr client"
  shows "cl_urls client = map Some (parsed parse uris) @ replicate (length uris - length (parsed parse uris)) None"
    and "parsed parse uris \<noteq> []" and "cl_Wait client = wrap64 (int rc * second)"
  using assms parse_urls_eq [of "[]" uris 0 "length uris" parse]
  by (auto simp: NewClient_def split: if_splits)

text \<open>Turns of the loop on the leading URLs that are there.\<close>

lemma loop_run_turn:
  assumes "loop_turn client now later vars = Some (Inr (sleep, u, v))"
  shows "fst (loop_run client ((now, later) # ts) vars) = (sleep, u) # fst (loop_run client ts v)"
    and "snd (loop_run client ((now, later) # ts) vars) = snd (loop_run client ts v)"
  using assms by (simp_all split: prod.split)

lemma loop_run_good:
  assumes "cl_Wait client \<noteq> 0" and "\<forall>k < length ts. cl_urls client ! ((lo_next vars + k) mod length (cl_urls client)) \<noteq> None"
    and "lo_next vars < length (cl_urls client)"
  shows "snd (loop_run client ts vars) = None
     \<and> map snd (fst (loop_run client ts vars)) =
         map (\<lambda>k. the (cl_urls client ! ((lo_next vars + k) mod length (cl_urls client)))) [0..<length ts]"
  using assms(2,3)
proof (induction ts arbitrary: vars)
  case Nil
  then show ?case by simp
next
  case (Cons t ts)
  obtain now later where t: "t = (now, later)" by (cases t)
  let ?n = "length (cl_urls client)"
  obtain u where u: "cl_urls client ! lo_next vars = Some u" using Cons.prems by fastforce
  obtain sleep dl where turn: "loop_turn client now later vars =
      Some (Inr (sleep, u, \<lparr>lo_first = False, lo_deadline = dl, lo_next = (lo_next vars + 1) mod ?n\<rparr>))"
    using assms(1) u Cons.prems(2) by (auto simp: loop_turn_def Let_def)
  let ?v = "\<lparr>lo_first = False, lo_deadline = dl, lo_next = (lo_next vars + 1) mod ?n\<rparr>"
  have shift: "((lo_next vars + 1) mod ?n + k) mod ?n = (lo_next vars + Suc k) mod ?n" for k
    by (simp add: mod_simps)
  have "snd (loop_run client ts ?v) = None \<and> map snd (fst (loop_run client ts ?v)) =
      map (\<lambda>k. the (cl_urls client ! ((lo_next ?v + k) mod ?n))) [0..<length ts]"
  proof (rule Cons.IH)
    show "\<forall>k < length ts. cl_urls client ! ((lo_next ?v + k) mod ?n) \<noteq> None"
    proof (intro allI impI)
      fix k assume "k < length ts"
      with Cons.prems(1) have "cl_urls client ! ((lo_next vars + Suc k) mod ?n) \<noteq> None"
        by (metis length_Cons Suc_less_eq)
      then show "cl_urls client ! ((lo_next ?v + k) mod ?n) \<noteq> None"
        unfolding loop_vars.simps shift .
    qed
    have "0 < ?n" using Cons.prems(2) by linarith
    then show "lo_next ?v < ?n" by simp
  qed
  then show ?case
    unfolding loop_vars.simps shift t loop_run_turn [OF turn]
    using u Cons.prems(2)
    by (simp add: upt_conv_Cons map_Suc_upt [symmetric] comp_def del: upt_Suc)
qed

lemma loop_run_append:
  assumes "snd (loop_run client ts vars) = None" and "length (fst (loop_run client ts vars)) = length ts"
  obtains vars' where
    "\<And>us. loop_run client (ts @ us) vars = (case loop_run client us vars' of (xs, r) \<Rightarrow> (fst (loop_run client ts vars) @ xs, r))"
    "lo_first vars' = (lo_first vars \<and> ts = [])"
    "lo_next vars < length (cl_urls client) \<Longrightarrow> lo_next vars' = (lo_next vars + length ts) mod length (cl_urls client)"
  using assms
proof (induction ts arbitrary: vars thesis)
  case Nil
  show ?case by (rule Nil.prems(1) [of vars]) auto
next
  case (Cons t ts)
  obtain now later where t: "t = (now, later)" by (cases t)
  obtain sleep u v where turn: "loop_turn client now later vars = Some (Inr (sleep, u, v))"
    using Cons.prems(2,3) by (auto simp: t split: option.splits sum.splits prod.splits)
  have v: "lo_first v = False" "lo_next v = (lo_next vars + 1) mod length (cl_urls client)"
    using turn by (auto simp: loop_turn_def Let_def split: if_splits option.splits)
  have rest: "snd (loop_run client ts v) = None" "length (fst (loop_run client ts v)) = length ts"
    using Cons.prems(2,3) turn by (auto simp: t split: prod.splits)
  obtain v' where v': "\<And>us. loop_run client (ts @ us) v = (case loop_run client us v' of (xs, r) \<Rightarrow> (fst (loop_run client ts v) @ xs, r))"
      "lo_first v' = (lo_first v \<and> ts = [])"
      "lo_next v < length (cl_urls client) \<Longrightarrow> lo_next v' = (lo_next v + length ts) mod length (cl_urls client)"
    using Cons.IH [OF _ rest] by blast
  show ?case
  proof (rule Cons.prems(1) [of v'])
    show "loop_run client ((t # ts) @ us) vars =
        (case loop_run client us v' of (xs, r) \<Rightarrow> (fst (loop_run client (t # ts) vars) @ xs, r))" for us
      using v'(1) [of us] by (simp add: t turn split: prod.splits)
    show "lo_first v' = (lo_first vars \<and> t # ts = [])" using v'(2) v(1) by simp
    assume "lo_next vars < length (cl_urls client)"
    then have "lo_next v < length (cl_urls client)" using v(2) by (metis mod_less_divisor less_nat_zero_code neq0_conv)
    from v'(3) [OF this] v(2) show "lo_next v' = (lo_next vars + length (t # ts)) mod length (cl_urls client)"
      by (simp add: mod_simps)
  qed
qed

section \<open>Properties\<close>

text \<open>
  C12. The client forwards exactly the packets of the upstream: over any byte stream, however it is cut
  into reads, \<open>pull\<close> ends with the error that ends the stream, having reported the source as connected
  and started the streamer once before the first packet, counted and queued every packet of the stream
  in order, and closed the queue and reported the disconnect after the last one. A stream without a
  packet has no effect.
\<close>

theorem pull_forwards:
  assumes "byte_source rd bytes_left invar" and "invar s" and "LoadBool running"
  shows "\<exists>e s'. pull rd running s =
     Some (Some e,
           (if packets_of (bytes_left s) = [] then []
            else [EffSourceConnected, EffStartStream]
              @ concat (map (\<lambda>p. [EffPacketReceived, EffQueue p]) (packets_of (bytes_left s)))
              @ [EffCloseQueue, EffSourceDisconnected]),
           StoreBool False running, s')"
  using byte_source.pull_loop_stream [OF assms(1,2), of False "[]"] assms(3)
  by (auto simp: pull_def forwarded_def)

definition ts_packet :: "u8 \<Rightarrow> bytes" where
  "ts_packet x = MpegTsSyncByte # replicate 187 x"

lemma ts_packet_ok: "is_packet (ts_packet x)"
  by (simp add: is_packet_def ts_packet_def MpegTsPacketSize_def)

theorem pull_forwards_witness:
  "\<exists>e s'. pull stream_socket_read AtomicTrue [ts_packet 1, ts_packet 2 @ [0]] =
     Some (Some e, [EffSourceConnected, EffStartStream, EffPacketReceived, EffQueue (ts_packet 1),
       EffPacketReceived, EffQueue (ts_packet 2), EffCloseQueue, EffSourceDisconnected], AtomicFalse, s')"
proof -
  let ?s = "[ts_packet 1, ts_packet 2 @ [0]]"
  have "packets_of (concat [ts_packet 1, ts_packet 2] @ [0]) = [ts_packet 1, ts_packet 2]"
    by (rule packets_of_aligned) (auto simp: ts_packet_ok MpegTsPacketSize_def)
  then have ps: "packets_of (concat ?s) = [ts_packet 1, ts_packet 2]" by simp
  have inv: "[] \<notin> set ?s" by (simp add: ts_packet_def)
  from pull_forwards [OF stream_socket.byte_source_axioms inv, of AtomicTrue] ps show ?thesis
    by (simp add: StoreBool_def AtomicFalse_def)
qed

text \<open>
  Resynchronisation: when a stream starts in the middle of a packet, with bytes that contain no sync
  byte, the client skips them and then forwards every whole packet; an incomplete packet at the end is
  dropped.
\<close>

theorem resynchronisation:
  assumes "byte_source rd bytes_left invar" and "invar s" and "LoadBool running"
    and "bytes_left s = junk @ concat ps @ tail" and "MpegTsSyncByte \<notin> set junk"
    and "\<forall>p \<in> set ps. is_packet p" and "ps \<noteq> []" and "length tail < MpegTsPacketSize"
  shows "\<exists>e effs running' s'. pull rd running s = Some (Some e, effs, running', s')
     \<and> [p. EffQueue p \<leftarrow> effs] = ps"
proof -
  have ps: "packets_of (bytes_left s) = ps" using packets_of_resync [OF assms(5-8)] assms(4) by simp
  obtain e s' where "pull_loop rd False [] s = Some (e, True, forwarded False ps, s')"
    using byte_source.pull_loop_stream [OF assms(1,2), of False "[]"] ps assms(7) by auto
  moreover have "[p. EffQueue p \<leftarrow> concat (map (\<lambda>p. [EffPacketReceived, EffQueue p]) qs)] = qs" for qs
    by (induction qs) auto
  ultimately show ?thesis
    using assms(3,7) by (simp add: pull_def forwarded_def)
qed

theorem resynchronisation_witness:
  "\<exists>e effs running' s'. pull stream_socket_read AtomicTrue [[1, 2], [3] @ ts_packet 5] = Some (Some e, effs, running', s')
     \<and> [p. EffQueue p \<leftarrow> effs] = [ts_packet 5]"
proof (rule resynchronisation [OF stream_socket.byte_source_axioms])
  show "concat [[1, 2], [3] @ ts_packet 5] = [1, 2, 3] @ concat [ts_packet 5] @ []" by simp
qed (simp_all add: ts_packet_ok MpegTsSyncByte_def MpegTsPacketSize_def)


definition toy_parse :: "string \<Rightarrow> unit + url" where
  "toy_parse s = (if s = [] then Inl ()
     else Inr \<lparr>u_Scheme = ''tcp'', u_Host = s, u_Hostname = s, u_Path = [], u_RawQuery = []\<rparr>)"

definition toy_client :: "string list \<Rightarrow> unit client_error + unit Client" where
  "toy_client uris = NewClient toy_parse (\<lambda>_. Inl ()) ''c'' uris 10 0 5 [] 5 1316"


text \<open>
  C28. A URI that does not parse crashes the client: \<open>NewClient\<close> leaves its place in the list of URLs nil,
  and after the good URLs have been tried the connection loop dereferences it.
\<close>

theorem unparsable_uri_panics:
  assumes "NewClient parse ifs name uris rc rt qs intf bs psz = Inr client"
    and "length (parsed parse uris) < length uris" and "cl_Wait client \<noteq> 0" and "length ts > length (parsed parse uris)"
  shows "map snd (fst (loop_run client ts (loop_start t client))) = parsed parse uris
     \<and> snd (loop_run client ts (loop_start t client)) = Some NilDereference"
proof -
  let ?good = "parsed parse uris" and ?v = "loop_start t client"
  let ?n = "length (cl_urls client)" and ?ts = "take (length (parsed parse uris)) ts"
  note urls = NewClient_urls [OF assms(1)]
  have n: "?n = length uris" using urls(1) assms(2) by simp
  have start: "lo_next ?v = 0" by (simp add: loop_start_def)
  have len: "length ?ts = length ?good" using assms(4) by simp
  have nth: "cl_urls client ! (k mod ?n) = Some (?good ! k)" if "k < length ?good" for k
    using that assms(2) n by (simp add: urls(1) nth_append)
  have "\<forall>k < length ?ts. cl_urls client ! ((lo_next ?v + k) mod ?n) \<noteq> None"
  proof (intro allI impI)
    fix k assume "k < length ?ts"
    with nth [of k] len start show "cl_urls client ! ((lo_next ?v + k) mod ?n) \<noteq> None" by simp
  qed
  moreover have "lo_next ?v < ?n" using start n assms(2) by linarith
  ultimately have good: "snd (loop_run client ?ts ?v) = None"
      "map snd (fst (loop_run client ?ts ?v)) = map (\<lambda>k. the (cl_urls client ! ((lo_next ?v + k) mod ?n))) [0..<length ?ts]"
    using loop_run_good [OF assms(3), of ?ts ?v] by blast+
  have eq: "map snd (fst (loop_run client ?ts ?v)) = ?good"
    unfolding good(2) by (rule nth_equalityI) (use len nth start in auto)
  then have "length (fst (loop_run client ?ts ?v)) = length ?ts" using len by (metis length_map)
  from loop_run_append [OF good(1) this] obtain v' where v':
      "\<And>us. loop_run client (?ts @ us) ?v = (case loop_run client us v' of (xs, r) \<Rightarrow> (fst (loop_run client ?ts ?v) @ xs, r))"
      "lo_next ?v < ?n \<Longrightarrow> lo_next v' = (lo_next ?v + length ?ts) mod ?n"
    by metis
  have nxt: "lo_next v' = length ?good" using v'(2) start n assms(2) len by fastforce
  obtain now later us where us: "drop (length ?good) ts = (now, later) # us"
    using assms(4) by (metis drop_eq_Nil2 leD neq_Nil_conv surj_pair)
  have "cl_urls client ! length ?good = None" using assms(2) by (simp add: urls(1) nth_append)
  then have "loop_run client ((now, later) # us) v' = ([], Some NilDereference)"
    using nxt n assms(2,3) by (simp add: loop_turn_def Let_def)
  then have "loop_run client (?ts @ drop (length ?good) ts) ?v = (fst (loop_run client ?ts ?v), Some NilDereference)"
    unfolding v'(1) us by simp
  with eq show ?thesis by simp
qed

theorem unparsable_uri_panics_witness:
  "\<exists>client. toy_client [''a'', []] = Inr client
     \<and> snd (loop_run client [(0, 1), (2, 3)] (loop_start 0 client)) = Some NilDereference"
proof -
  obtain client where c: "toy_client [''a'', []] = Inr client" "cl_Wait client \<noteq> 0"
    by (simp add: toy_client_def NewClient_def toy_parse_def second_def)
  have "length (parsed toy_parse [''a'', []]) = 1" by (simp add: parsed_def toy_parse_def)
  with unparsable_uri_panics [OF c(1) [unfolded toy_client_def] _ c(2), of "[(0, 1), (2, 3)]" 0] c(1) show ?thesis
    by auto
qed

text \<open>
  A connection attempt cleans up after itself: whatever the scheme, the source and the end of the
  stream, a client that was not connected is not connected afterwards and reports status 0; an
  unsupported scheme is an error without any effect, and a client that is still connected refuses.
\<close>

theorem start_cleans_up:
  assumes "cl_input client = None" and "cl_response client = None"
    and "start rd open_target resolve unescape urly client = Some (err, effs, client')"
  shows "cl_input client' = None \<and> StatusCode client' = 0 \<and> cl_urls client' = cl_urls client
     \<and> (Connected_client client' \<longrightarrow> Connected_client client)
     \<and> (u_Scheme urly \<notin> {''file'', ''http'', ''https'', ''tcp'', ''unix'', ''unixgram'', ''unixpacket'', ''udp'', ''fork''} \<longrightarrow>
          err = Some ErrInvalidProtocol \<and> effs = [] \<and> client' = client)
     \<and> start rd open_target resolve unescape urly (client\<lparr>cl_input := Some i\<rparr>) =
         Some (Some ErrAlreadyConnected, [], client\<lparr>cl_input := Some i\<rparr>)"
proof -
  have "start_target resolve unescape (cl_interf client) urly = Inl ErrInvalidProtocol"
    if "u_Scheme urly \<notin> {''file'', ''http'', ''https'', ''tcp'', ''unix'', ''unixgram'', ''unixpacket'', ''udp'', ''fork''}"
    using that unfolding start_target_def by auto
  moreover have "StatusCode client' = 0" "cl_input client' = None" "cl_urls client' = cl_urls client"
      "Connected_client client' \<longrightarrow> Connected_client client"
    using assms
    by (auto simp: start_def StatusCode_def Connected_client_def pull_def Let_def
        split: sum.splits option.splits if_splits prod.splits)
  ultimately show ?thesis using assms by (auto simp: start_def)
qed

theorem start_cleans_up_witness:
  "\<exists>client. toy_client [''a''] = Inr client
     \<and> start (\<lambda>n s. ([], Some EOF, s)) (\<lambda>_. Inr ((), None)) (\<lambda>_. Inr False) (\<lambda>_. Inr [])
         \<lparr>u_Scheme = ''gopher'', u_Host = [], u_Hostname = [], u_Path = [], u_RawQuery = []\<rparr> client
       = Some (Some ErrInvalidProtocol, [], client)"
proof -
  let ?u = "\<lparr>u_Scheme = ''gopher'', u_Host = [], u_Hostname = [], u_Path = [], u_RawQuery = []\<rparr>"
  let ?start = "start (\<lambda>n s. ([], Some EOF, s)) (\<lambda>_. Inr ((), None)) (\<lambda>_. Inr False) (\<lambda>_. Inr []) ?u"
  obtain client where c: "toy_client [''a''] = Inr client" "cl_input client = None" "cl_response client = None"
    by (simp add: toy_client_def NewClient_def toy_parse_def)
  obtain err effs client' where s: "?start client = Some (err, effs, client')"
    using c(2) by (auto simp: start_def start_target_def)
  from start_cleans_up [OF c(2,3) s] c(1) s show ?thesis by simp
qed

text \<open>The collector of a client after a connection: the packets of the stream have been counted, and the
  source is reported as disconnected if there were any.\<close>

lemma map_filter_append: "List.map_filter f (xs @ ys) = List.map_filter f xs @ List.map_filter f ys"
  by (simp add: List.map_filter_def)

lemma fold_packets_received:
  "fold iface_collect (List.map_filter collector_call (concat (map (\<lambda>p. [EffPacketReceived, EffQueue p]) ps))) (Some c) =
     Some (c\<lparr>packetsReceived := packetsReceived c + of_nat (length ps)\<rparr>)"
  by (induction ps arbitrary: c) (simp_all add: map_filter_simps PacketReceived_def)

theorem source_statistics:
  assumes "byte_source rd bytes_left invar" and "invar s" and "cl_input client = None" and "cl_stats client = Some c"
    and "start_target resolve unescape (cl_interf client) urly = Inr trg" and "open_target trg = Inr (s, code)"
  shows "\<exists>err effs client'. start rd open_target resolve unescape urly client = Some (err, effs, client')
    \<and> cl_stats client' = Some (c\<lparr>packetsReceived := packetsReceived c + of_nat (length (packets_of (bytes_left s))),
        connected := if packets_of (bytes_left s) = [] then connected c else AtomicFalse\<rparr>)"
proof -
  have run: "LoadBool (StoreBool True (cl_running client))" by simp
  obtain e s' where "pull rd (StoreBool True (cl_running client)) s =
      Some (Some e, forwarded False (packets_of (bytes_left s))
        @ (if packets_of (bytes_left s) \<noteq> [] then [EffCloseQueue, EffSourceDisconnected] else []), StoreBool False (StoreBool True (cl_running client)), s')"
    using byte_source.pull_loop_stream [OF assms(1,2), of False "[]"] run by (auto simp: pull_def)
  then show ?thesis using assms(3-6)
    by (cases "packets_of (bytes_left s)")
      (auto simp: start_def Let_def report_effects_def forwarded_def map_filter_simps map_filter_append fold_packets_received
        PacketReceived_def SourceConnected_def SourceDisconnected_def StoreBool_def AtomicFalse_def)
qed

end
