(* ===== verification/Go_Text.thy ===== *)
theory Go_Text
  imports Go_Prelude
begin

text \<open>
  Text the program produces with the standard library: numbers in decimal (\<open>strconv.Itoa\<close>, the verb \<open>%d\<close>)
  and hexadecimal, and flat JSON objects (\<open>json.Marshal\<close> on a struct of strings and integers), each with
  a reader that is its inverse.
\<close>

section \<open>Digits\<close>

definition digit_char :: "nat \<Rightarrow> char" where
  "digit_char n = (''0123456789abcdef'' ! n)"

text \<open>\<open>strconv.Itoa\<close> and the verb \<open>%d\<close>.\<close>

function nat_string :: "nat \<Rightarrow> string" where
  "nat_string n = (if n < 10 then [digit_char n] else nat_string (n div 10) @ [digit_char (n mod 10)])"
  by pat_completeness auto
termination by (relation "measure id") auto

declare nat_string.simps [simp del]

definition int_string :: "int \<Rightarrow> string" where
  "int_string i = (if i < 0 then CHR ''-'' # nat_string (nat (- i)) else nat_string (nat i))"

text \<open>The verb \<open>%016x\<close> for a 64-bit value.\<close>

definition hex016 :: "u64 \<Rightarrow> string" where
  "hex016 w = map (\<lambda>k. digit_char ((unat w div 16 ^ (15 - k)) mod 16)) [0..<16]"

section \<open>Numbers as text\<close>

text \<open>The value of a string of hexadecimal or decimal digits.\<close>

definition digit_value :: "char \<Rightarrow> nat" where
  "digit_value c = (if c \<in> set ''0123456789'' then of_char c - 48 else of_char c - 87)"

definition text_value :: "nat \<Rightarrow> string \<Rightarrow> nat" where
  "text_value base s = foldl (\<lambda>acc c. acc * base + digit_value c) 0 s"

lemma digit_value_char: "n < 16 \<Longrightarrow> digit_value (digit_char n) = n"
proof -
  have "\<forall>n \<in> set [0..<16]. digit_value (digit_char n) = n" by code_simp
  then show "n < 16 \<Longrightarrow> ?thesis" by simp
qed

lemma text_value_snoc: "text_value base (s @ [c]) = text_value base s * base + digit_value c"
  by (simp add: text_value_def)

lemma nat_string_value: "text_value 10 (nat_string n) = n"
proof (induction n rule: nat_string.induct)
  case (1 n)
  show ?case
  proof (cases "n < 10")
    case True
    then show ?thesis
      by (subst nat_string.simps) (simp add: text_value_def digit_value_char)
  next
    case False
    then show ?thesis
      using 1 by (subst nat_string.simps) (simp add: text_value_snoc digit_value_char)
  qed
qed

lemma hex_digits_value:
  "text_value 16 (map (\<lambda>k. digit_char ((v div 16 ^ (m - k)) mod 16)) [0..<j]) = v div 16 ^ (Suc m - j) mod 16 ^ j"
  if "j \<le> Suc m" for v :: nat
  using that
proof (induction j)
  case 0
  then show ?case by (simp add: text_value_def)
next
  case (Suc j)
  define d where "d = v div 16 ^ (m - j)"
  have "v div 16 ^ (Suc m - j) = d div 16"
    using Suc.prems by (simp add: d_def Suc_diff_le div_mult2_eq [symmetric] mult.commute)
  then have "text_value 16 (map (\<lambda>k. digit_char ((v div 16 ^ (m - k)) mod 16)) [0..<Suc j])
    = (d div 16 mod 16 ^ j) * 16 + d mod 16"
    using Suc by (simp add: text_value_snoc digit_value_char d_def)
  also have "\<dots> = d mod 16 ^ Suc j"
    by (simp add: mod_mult2_eq mult.commute)
  finally show ?case by (simp add: d_def)
qed

lemma hex016_value: "text_value 16 (hex016 w) = unat w"
proof -
  have "unat w < 16 ^ 16" by (rule less_le_trans [OF unsigned_less]) simp
  then show ?thesis
    unfolding hex016_def using hex_digits_value [of 16 15 "unat w"] by simp
qed

lemma hex016_eq_iff [simp]: "hex016 v = hex016 w \<longleftrightarrow> v = w"
  using hex016_value [of v] hex016_value [of w] by (metis word_unat_eq_iff)

section \<open>Flat JSON objects\<close>

datatype json_value = JString string | JInt int

fun json_value_text :: "json_value \<Rightarrow> string" where
  "json_value_text (JString s) = CHR ''\"'' # s @ [CHR ''\"'']"
| "json_value_text (JInt i) = int_string i"

definition json_field :: "string \<times> json_value \<Rightarrow> string" where
  "json_field kv = json_value_text (JString (fst kv)) @ CHR '':'' # json_value_text (snd kv)"

fun json_fields :: "(string \<times> json_value) list \<Rightarrow> string" where
  "json_fields [] = ''}''"
| "json_fields [kv] = json_field kv @ ''}''"
| "json_fields (kv # kvs) = json_field kv @ CHR '','' # json_fields kvs"

text \<open>\<open>json.Marshal\<close> on a struct whose strings have no characters that need to be escaped.\<close>

definition json_object :: "(string \<times> json_value) list \<Rightarrow> string" where
  "json_object kvs = CHR ''{'' # json_fields kvs"

text \<open>A reader for such objects.\<close>

definition number_char :: "char \<Rightarrow> bool" where
  "number_char c \<longleftrightarrow> c \<in> set ''-0123456789''"

definition int_value :: "string \<Rightarrow> int" where
  "int_value s = (case s of [] \<Rightarrow> 0 | c # cs \<Rightarrow> if c = CHR ''-'' then - int (text_value 10 cs) else int (text_value 10 s))"

fun read_string :: "string \<Rightarrow> (string \<times> string) option" where
  "read_string (c # s) =
     (if c = CHR ''\"'' then (case dropWhile (\<lambda>c. c \<noteq> CHR ''\"'') s of
        [] \<Rightarrow> None | q # rest \<Rightarrow> Some (takeWhile (\<lambda>c. c \<noteq> CHR ''\"'') s, rest)) else None)"
| "read_string [] = None"

fun read_value :: "string \<Rightarrow> (json_value \<times> string) option" where
  "read_value s =
     (case s of [] \<Rightarrow> None
      | c # _ \<Rightarrow> if c = CHR ''\"'' then map_option (apfst JString) (read_string s)
                else if number_char c then Some (JInt (int_value (takeWhile number_char s)), dropWhile number_char s)
                else None)"

fun read_fields :: "nat \<Rightarrow> string \<Rightarrow> (string \<times> json_value) list option" where
  "read_fields 0 s = None"
| "read_fields (Suc n) s =
     (if s = ''}'' then Some []
      else (case read_string s of
              Some (k, c # s1) \<Rightarrow>
                if c = CHR '':'' then
                  (case read_value s1 of
                     Some (v, d # s2) \<Rightarrow>
                       if d = CHR '','' then map_option (Cons (k, v)) (read_fields n s2)
                       else if d # s2 = ''}'' then Some [(k, v)] else None
                   | _ \<Rightarrow> None)
                else None
            | _ \<Rightarrow> None))"

text \<open>Every field takes at least one character, so the length of the text is enough fuel.\<close>

definition read_object :: "string \<Rightarrow> (string \<times> json_value) list option" where
  "read_object s = (case s of c # s' \<Rightarrow> if c = CHR ''{'' then read_fields (length s) s' else None | [] \<Rightarrow> None)"

fun plain_value :: "json_value \<Rightarrow> bool" where
  "plain_value (JString s) \<longleftrightarrow> CHR ''\"'' \<notin> set s"
| "plain_value (JInt i) \<longleftrightarrow> True"

definition plain_fields :: "(string \<times> json_value) list \<Rightarrow> bool" where
  "plain_fields kvs \<longleftrightarrow> list_all (\<lambda>(k, v). CHR ''\"'' \<notin> set k \<and> plain_value v) kvs"

lemma number_char_digit: "n < 10 \<Longrightarrow> number_char (digit_char n) \<and> digit_char n \<noteq> CHR ''-''"
proof -
  have "\<forall>n \<in> set [0..<10]. number_char (digit_char n) \<and> digit_char n \<noteq> CHR ''-''" by code_simp
  then show "n < 10 \<Longrightarrow> ?thesis" by simp
qed

lemma nat_string_chars: "nat_string n \<noteq> [] \<and> list_all (\<lambda>c. number_char c \<and> c \<noteq> CHR ''-'') (nat_string n)"
proof (induction n rule: nat_string.induct)
  case (1 n)
  then show ?case
    by (subst (1 2) nat_string.simps) (simp add: number_char_digit)
qed

lemma int_string_chars: "int_string i \<noteq> [] \<and> list_all number_char (int_string i)"
proof -
  have "number_char CHR ''-''" by (simp add: number_char_def)
  then show ?thesis
    using nat_string_chars [of "nat i"] nat_string_chars [of "nat (- i)"]
    by (simp add: int_string_def list_all_iff)
qed

lemma int_string_value: "int_value (int_string i) = i"
proof (cases "i < 0")
  case True
  then show ?thesis by (simp add: int_string_def int_value_def nat_string_value)
next
  case False
  obtain c cs where cs: "nat_string (nat i) = c # cs" "c \<noteq> CHR ''-''"
    using nat_string_chars [of "nat i"] by (cases "nat_string (nat i)") auto
  then show ?thesis using False nat_string_value [of "nat i"] by (simp add: int_string_def int_value_def)
qed

lemma read_string_plain: "CHR ''\"'' \<notin> set s \<Longrightarrow> read_string (CHR ''\"'' # s @ CHR ''\"'' # rest) = Some (s, rest)"
proof -
  assume "CHR ''\"'' \<notin> set s"
  then have "takeWhile (\<lambda>c. c \<noteq> CHR ''\"'') (s @ CHR ''\"'' # rest) = s"
    "dropWhile (\<lambda>c. c \<noteq> CHR ''\"'') (s @ CHR ''\"'' # rest) = CHR ''\"'' # rest"
    by (auto simp: takeWhile_append dropWhile_append)
  then show ?thesis by simp
qed

lemma read_value_text:
  assumes "plain_value v" and "\<not> number_char d"
  shows "read_value (json_value_text v @ d # rest) = Some (v, d # rest)"
proof (cases v)
  case (JString s)
  then show ?thesis using assms read_string_plain [of s "d # rest"] by simp
next
  case (JInt i)
  obtain c cs where cs: "int_string i = c # cs" "number_char c" "list_all number_char cs"
    using int_string_chars [of i] by (cases "int_string i") auto
  have "takeWhile number_char (int_string i @ d # rest) = int_string i"
    "dropWhile number_char (int_string i @ d # rest) = d # rest"
    using int_string_chars [of i] assms(2) by (auto simp: list_all_iff)
  moreover have "c \<noteq> CHR ''\"''" using cs(2) by (auto simp: number_char_def)
  ultimately show ?thesis using JInt cs int_string_value [of i] by simp
qed

lemma read_fields_text: "plain_fields kvs \<Longrightarrow> length kvs < n \<Longrightarrow> read_fields n (json_fields kvs) = Some kvs"
proof (induction kvs arbitrary: n rule: json_fields.induct)
  case 1
  then show ?case by (cases n) auto
next
  case (2 kv)
  obtain k v m where kv: "kv = (k, v)" "n = Suc m" using 2 by (cases kv, cases n) auto
  have "read_value (json_value_text v @ ''}'') = Some (v, ''}'')"
    using 2 kv by (intro read_value_text) (auto simp: plain_fields_def number_char_def)
  moreover have "read_string (CHR ''\"'' # k @ CHR ''\"'' # CHR '':'' # json_value_text v @ ''}'')
    = Some (k, CHR '':'' # json_value_text v @ ''}'')"
    using 2 kv by (intro read_string_plain) (auto simp: plain_fields_def)
  ultimately show ?case using kv by (simp add: json_field_def del: read_string.simps read_value.simps)
next
  case (3 kv kv' kvs)
  obtain k v m where kv: "kv = (k, v)" "n = Suc m" using 3 by (cases kv, cases n) auto
  let ?rest = "CHR '','' # json_fields (kv' # kvs)"
  have "read_value (json_value_text v @ ?rest) = Some (v, ?rest)"
    using 3 kv by (intro read_value_text) (auto simp: plain_fields_def number_char_def)
  moreover have "read_string (CHR ''\"'' # k @ CHR ''\"'' # CHR '':'' # json_value_text v @ ?rest)
    = Some (k, CHR '':'' # json_value_text v @ ?rest)"
    using 3 kv by (intro read_string_plain) (auto simp: plain_fields_def)
  moreover have "read_fields m (json_fields (kv' # kvs)) = Some (kv' # kvs)"
    using 3 kv by (intro "3.IH") (auto simp: plain_fields_def)
  ultimately show ?case using kv by (simp add: json_field_def del: read_string.simps read_value.simps)
qed

lemma length_json_fields: "length kvs < length (json_object kvs)"
  unfolding json_object_def by (induction kvs rule: json_fields.induct) (auto simp: json_field_def)

lemma read_json_object: "plain_fields kvs \<Longrightarrow> read_object (json_object kvs) = Some kvs"
  using read_fields_text [of kvs "length (json_object kvs)"] length_json_fields [of kvs]
  by (simp add: read_object_def json_object_def)

end
