(* ===== verification/Api_Handlers.thy ===== *)
theory Api_Handlers
  imports Upstream_Client Go_Text
begin

text \<open>
  \<open>api/api.go\<close>: the HTTP handlers that report health and statistics as JSON, tell whether a stream is
  connected, and turn a stream on and off.

  A handler takes the request and a response writer and gives the response; \<open>ok\<close> is the environment's
  answer to the write of the body. The control handler also gives the request it sends to the streamer
  of its client. The handler of the Prometheus library is an argument.
\<close>

section \<open>Handlers\<close>

record healthApi =
  ha_stats :: Statistics
  ha_auth :: Authenticator

definition NewHealthApi :: "Statistics \<Rightarrow> Authenticator \<Rightarrow> healthApi" where
  "NewHealthApi stats auth = \<lparr>ha_stats = stats, ha_auth = auth\<rparr>"

text \<open>Both operands of \<open>>=\<close> are signed 64-bit integers.\<close>

definition reached :: "i64 \<Rightarrow> i64 \<Rightarrow> bool" where
  "reached conns limit \<longleftrightarrow> limit \<noteq> 0 \<and> sint conns \<ge> sint limit"

definition health_status :: "StreamStatistics \<Rightarrow> string" where
  "health_status global =
     (if reached (Connections global) (MaxConnections global) then ''full''
      else if reached (Connections global) (FullConnections global) then ''full''
      else ''ok'')"

text \<open>\<open>int(global.BytesPerSecondSent * 8 / 1024)\<close>: the product wraps around.\<close>

definition bandwidth :: "u64 \<Rightarrow> int" where
  "bandwidth rate = int (unat (rate * 8) div 1024)"

definition health_fields :: "StreamStatistics \<Rightarrow> (string \<times> json_value) list" where
  "health_fields global =
     [(''status'', JString (health_status global)),
      (''viewer'', JInt (sint (Connections global))),
      (''limit'', JInt (sint (FullConnections global))),
      (''max'', JInt (sint (MaxConnections global))),
      (''bandwidth'', JInt (bandwidth (BytesPerSecondSent global)))]"

text \<open>The end of the JSON handlers. \<open>json.Marshal\<close> cannot fail on these structs; the branch for its error
  is there as in the code.\<close>

definition json_Marshal :: "(string \<times> json_value) list \<Rightarrow> unit + string" where
  "json_Marshal fs = Inr (json_object fs)"

definition json_reply :: "bool \<Rightarrow> unit + string \<Rightarrow> response \<Rightarrow> response" where
  "json_reply ok marshalled writer =
     (case marshalled of
        Inr text \<Rightarrow> write_body ok (bytes_of text) (write_header 200 writer)
      | Inl err \<Rightarrow> write_body ok (bytes_of ''Internal Server Error'') (write_header 500 writer))"

definition health_ServeHTTP :: "bool \<Rightarrow> http_request \<Rightarrow> response \<Rightarrow> healthApi \<Rightarrow> response" where
  "health_ServeHTTP ok request writer api =
     (case HandleHttpAuthentication (ha_auth api) request (add_header ''Content-Type'' ''application/json'' writer) of
        (False, w) \<Rightarrow> w
      | (True, w) \<Rightarrow> json_reply ok (json_Marshal (health_fields (iface_GetGlobalStatistics (ha_stats api)))) w)"

record statisticsApi =
  sa_stats :: Statistics
  sa_auth :: Authenticator

definition NewStatisticsApi :: "Statistics \<Rightarrow> Authenticator \<Rightarrow> statisticsApi" where
  "NewStatisticsApi stats auth = \<lparr>sa_stats = stats, sa_auth = auth\<rparr>"

definition statistics_status :: "StreamStatistics \<Rightarrow> string" where
  "statistics_status global =
     (if reached (Connections global) (MaxConnections global) then ''overload''
      else if reached (Connections global) (FullConnections global) then ''full''
      else ''ok'')"

definition statistics_fields :: "StreamStatistics \<Rightarrow> (string \<times> json_value) list" where
  "statistics_fields global =
     [(''status'', JString (statistics_status global)),
      (''connections'', JInt (sint (Connections global))),
      (''max_connections'', JInt (sint (MaxConnections global))),
      (''full_connections'', JInt (sint (FullConnections global))),
      (''total_packets_received'', JInt (uint (TotalPacketsReceived global))),
      (''total_packets_sent'', JInt (uint (TotalPacketsSent global))),
      (''total_packets_dropped'', JInt (uint (TotalPacketsDropped global))),
      (''total_bytes_received'', JInt (uint (TotalBytesReceived global))),
      (''total_bytes_sent'', JInt (uint (TotalBytesSent global))),
      (''total_bytes_dropped'', JInt (uint (TotalBytesDropped global))),
      (''total_stream_time_ns'', JInt (sint (TotalStreamTime global))),
      (''packets_per_second_received'', JInt (uint (PacketsPerSecondReceived global))),
      (''packets_per_second_sent'', JInt (uint (PacketsPerSecondSent global))),
      (''packets_per_second_dropped'', JInt (uint (PacketsPerSecondDropped global))),
      (''bytes_per_second_received'', JInt (uint (BytesPerSecondReceived global))),
      (''bytes_per_second_sent'', JInt (uint (BytesPerSecondSent global))),
      (''bytes_per_second_dropped'', JInt (uint (BytesPerSecondDropped global)))]"

definition statistics_ServeHTTP :: "bool \<Rightarrow> http_request \<Rightarrow> response \<Rightarrow> statisticsApi \<Rightarrow> response" where
  "statistics_ServeHTTP ok request writer api =
     (case HandleHttpAuthentication (sa_auth api) request (add_header ''Content-Type'' ''application/json'' writer) of
        (False, w) \<Rightarrow> w
      | (True, w) \<Rightarrow> json_reply ok (json_Marshal (statistics_fields (iface_GetGlobalStatistics (sa_stats api)))) w)"

record 's streamStateApi =
  ss_client :: "'s Client"
  ss_auth :: Authenticator

definition NewStreamStateApi :: "'s Client \<Rightarrow> Authenticator \<Rightarrow> 's streamStateApi" where
  "NewStreamStateApi client auth = \<lparr>ss_client = client, ss_auth = auth\<rparr>"

definition text_reply :: "bool \<Rightarrow> nat \<Rightarrow> string \<Rightarrow> response \<Rightarrow> response" where
  "text_reply ok status text writer = write_body ok (bytes_of text) (write_header status writer)"

definition streamState_ServeHTTP :: "bool \<Rightarrow> http_request \<Rightarrow> response \<Rightarrow> 's streamStateApi \<Rightarrow> response" where
  "streamState_ServeHTTP ok request writer api =
     (case HandleHttpAuthentication (ss_auth api) request (add_header ''Content-Type'' ''text/plain'' writer) of
        (False, w) \<Rightarrow> w
      | (True, w) \<Rightarrow> if Connected_client (ss_client api) then text_reply ok 200 ''200 ok'' w
                    else text_reply ok 404 ''404 not found'' w)"

record streamControlApi =
  sc_auth :: Authenticator

definition NewStreamControlApi :: "Authenticator \<Rightarrow> streamControlApi" where
  "NewStreamControlApi auth = \<lparr>sc_auth = auth\<rparr>"

text \<open>The inhibitor is a client, which sends a request to its streamer.\<close>

definition streamControl_ServeHTTP ::
  "bool \<Rightarrow> http_request \<Rightarrow> response \<Rightarrow> streamControlApi \<Rightarrow> response \<times> ConnectionRequest option" where
  "streamControl_ServeHTTP ok request writer api =
     (case HandleHttpAuthentication (sc_auth api) request (add_header ''Content-Type'' ''text/plain'' writer) of
        (False, w) \<Rightarrow> (w, None)
      | (True, w) \<Rightarrow>
          if length (rq_query request ''offline'') > 0
          then (text_reply ok 202 ''202 accepted'' w, Some (Client_SetInhibit True))
          else if length (rq_query request ''online'') > 0
          then (text_reply ok 202 ''202 accepted'' w, Some (Client_SetInhibit False))
          else (text_reply ok 400 ''400 bad request'' w, None))"

record prometheusApi =
  pa_auth :: Authenticator

definition NewPrometheusApi :: "Authenticator \<Rightarrow> prometheusApi" where
  "NewPrometheusApi auth = \<lparr>pa_auth = auth\<rparr>"

definition prometheus_ServeHTTP ::
  "(http_request \<Rightarrow> response \<Rightarrow> response) \<Rightarrow> http_request \<Rightarrow> response \<Rightarrow> prometheusApi \<Rightarrow> response" where
  "prometheus_ServeHTTP handler request writer api =
     (case HandleHttpAuthentication (pa_auth api) request writer of
        (False, w) \<Rightarrow> w
      | (True, w) \<Rightarrow> handler request w)"

section \<open>Properties\<close>

text \<open>The authentication step of a handler.\<close>

definition authorised :: "Authenticator \<Rightarrow> http_request \<Rightarrow> bool" where
  "authorised auth request \<longleftrightarrow> Authenticate auth (header_get ''Authorization'' (rq_header request))"

lemma auth_pass: "authorised auth request \<Longrightarrow> HandleHttpAuthentication auth request w = (True, w)"
  by (simp add: HandleHttpAuthentication_def authorised_def)

definition refused :: "response \<Rightarrow> bool" where
  "refused w \<longleftrightarrow> rw_body w = [] \<and> status_of w \<in> {Some 401, Some 403}"

lemma auth_refuse:
  assumes "\<not> authorised auth request" and "rw_sent w = None" and "rw_body w = []"
  obtains w' where "HandleHttpAuthentication auth request w = (False, w')" and "refused w'"
proof -
  have "\<exists>w'. HandleHttpAuthentication auth request w = (False, w') \<and> refused w'"
    using assms by (simp add: HandleHttpAuthentication_def authorised_def refused_def Let_def status_of_def)
  then show ?thesis using that by blast
qed

lemma new_response_fields [simp]:
  "rw_sent new_response = None" "rw_body new_response = []" "rw_header new_response = Map.empty"
  by (simp_all add: new_response_def)

lemma json_reply_fields:
  assumes "rw_sent w = None" and "rw_body w = []"
  shows "status_of (json_reply ok (json_Marshal fs) w) = Some 200"
    and "rw_body (json_reply ok (json_Marshal fs) w) = (if ok then bytes_of (json_object fs) else [])"
    and "sent_header k (json_reply ok (json_Marshal fs) w) = header_get k (rw_header w)"
  using assms by (simp_all add: json_reply_def json_Marshal_def status_of_def sent_header_def)

lemma plain_health: "plain_fields (health_fields g)"
  by (simp add: health_fields_def plain_fields_def health_status_def)

lemma plain_statistics: "plain_fields (statistics_fields g)"
  by (simp add: statistics_fields_def plain_fields_def statistics_status_def)

lemma header_get_add_new: "header_get k (header_add k v Map.empty) = v"
  by (simp add: header_get_def header_add_def)


definition full_global :: StreamStatistics where
  "full_global = zeroStatistics\<lparr>Connections := 1, MaxConnections := 2, FullConnections := 1\<rparr>"

definition full_stats :: realStatistics where
  "full_stats = (NewStatistics 2 1)\<lparr>st_global := full_global\<rparr>"

definition plain_request :: http_request where
  "plain_request = \<lparr>rq_header = Map.empty, rq_remote = [], rq_path = [], rq_query = (\<lambda>_. [])\<rparr>"


text \<open>
  Access to the APIs. A request that is not authorised gets an empty answer with status 401 or 403
  from every handler; in particular it does not reach the streamer, whatever its query. An authorised
  control request closes the stream if it has the parameter \<open>offline\<close>, opens it if it has only
  \<open>online\<close>, and is refused with status 400 otherwise; a check answers 200 exactly when the client is
  connected.\<close>

theorem api_access:
  "if authorised auth request
   then snd (streamControl_ServeHTTP ok request new_response (NewStreamControlApi auth)) =
          (if rq_query request ''offline'' \<noteq> [] then Some (SetInhibit True)
           else if rq_query request ''online'' \<noteq> [] then Some (SetInhibit False) else None)
      \<and> status_of (fst (streamControl_ServeHTTP ok request new_response (NewStreamControlApi auth))) =
          Some (if rq_query request ''offline'' \<noteq> [] \<or> rq_query request ''online'' \<noteq> [] then 202 else 400)
      \<and> status_of (streamState_ServeHTTP ok request new_response (NewStreamStateApi client auth)) =
          Some (if Connected_client client then 200 else 404)
      \<and> prometheus_ServeHTTP handler request new_response (NewPrometheusApi auth) = handler request new_response
   else snd (streamControl_ServeHTTP ok request new_response (NewStreamControlApi auth)) = None
      \<and> refused (fst (streamControl_ServeHTTP ok request new_response (NewStreamControlApi auth)))
      \<and> refused (streamState_ServeHTTP ok request new_response (NewStreamStateApi client auth))
      \<and> refused (health_ServeHTTP ok request new_response (NewHealthApi stats auth))
      \<and> refused (statistics_ServeHTTP ok request new_response (NewStatisticsApi stats auth))
      \<and> refused (prometheus_ServeHTTP handler request new_response (NewPrometheusApi auth))"
proof (cases "authorised auth request")
  case True
  then show ?thesis
    by (simp add: streamControl_ServeHTTP_def streamState_ServeHTTP_def prometheus_ServeHTTP_def auth_pass text_reply_def
        NewStreamControlApi_def NewStreamStateApi_def NewPrometheusApi_def Client_SetInhibit_def status_of_def)
next
  case False
  have r: "case HandleHttpAuthentication auth request w of (True, w') \<Rightarrow> False | (False, w') \<Rightarrow> refused w'"
    if "rw_sent w = None" "rw_body w = []" for w
    using auth_refuse [OF False that] by force
  show ?thesis
    using False r [of new_response] r [of "add_header ''Content-Type'' ''text/plain'' new_response"]
      r [of "add_header ''Content-Type'' ''application/json'' new_response"]
    by (auto simp: streamControl_ServeHTTP_def streamState_ServeHTTP_def prometheus_ServeHTTP_def health_ServeHTTP_def
        statistics_ServeHTTP_def NewStreamControlApi_def NewStreamStateApi_def NewPrometheusApi_def NewHealthApi_def
        NewStatisticsApi_def split: prod.splits bool.splits)
qed

end
