(* ===== verification/Cache_Proxy.thy ===== *)
theory Cache_Proxy
  imports Upstream_Client Go_Text
begin

text \<open>
  \<open>streaming/proxy.go\<close>: the caching proxy for static resources: fetching a resource, its entity tag,
  the cache of the fetcher goroutine and the HTTP handler.

  Opening files, HTTP requests and MIME types are arguments. A resource is read with one \<open>Read\<close>, as in
  the code. Times and durations are integers (nanoseconds).
\<close>

section \<open>Entity tags\<close>

definition fnv_offset :: u64 where "fnv_offset = 14695981039346656037"
definition fnv_prime :: u64 where "fnv_prime = 1099511628211"

text \<open>One step of the 64-bit FNV-1a hash.\<close>

definition fnv_step :: "u8 \<Rightarrow> u64 \<Rightarrow> u64" where
  "fnv_step b h = (xor h (ucast b)) * fnv_prime"

definition fnv1a :: "bytes \<Rightarrow> u64" where
  "fnv1a data = fold fnv_step data fnv_offset"

definition Etag :: "bytes \<Rightarrow> string" where
  "Etag data = hex016 (fnv1a data)"

section \<open>Resources\<close>

record fetchableResource =
  fr_data :: bytes
  fr_statusCode :: nat
  fr_etag :: string
  fr_header :: header
  fr_updated :: int

record Proxy =
  px_url :: url
  px_timeout :: int
  px_stale :: int
  px_limit :: int
  px_resource :: "fetchableResource option"
  px_shutdown :: "unit chan"
  px_stats :: Statistics
  px_auth :: Authenticator

definition proxyDefaultLimit :: int where "proxyDefaultLimit = 10 * 1024 * 1024"

definition NewProxy :: "(string \<Rightarrow> 'e + url) \<Rightarrow> string \<Rightarrow> nat \<Rightarrow> nat \<Rightarrow> Authenticator \<Rightarrow> 'e + Proxy" where
  "NewProxy parse uri timeout cache auth =
     (case parse uri of
        Inl err \<Rightarrow> Inl err
      | Inr u \<Rightarrow> Inr \<lparr>px_url = u, px_timeout = wrap64 (int timeout * second), px_stale = wrap64 (int cache * second),
          px_limit = proxyDefaultLimit, px_resource = None, px_shutdown = make_chan 0, px_stats = DummyStatistics, px_auth = auth\<rparr>)"

text \<open>The statistics of a proxy are assigned but never used.\<close>

definition SetStatistics :: "Statistics \<Rightarrow> Proxy \<Rightarrow> Proxy" where
  "SetStatistics stats proxy = proxy\<lparr>px_stats := stats\<rparr>"

definition Proxy_Shutdown :: "Proxy \<Rightarrow> Proxy go" where
  "Proxy_Shutdown proxy = go_bind (chan_close (px_shutdown proxy)) (\<lambda>c. Inr (proxy\<lparr>px_shutdown := c\<rparr>))"

record ('s, 'e) get_result =
  g_reader :: "'s option"
  g_header :: header
  g_status :: nat
  g_length :: int
  g_err :: "'e option"

text \<open>
  \<open>Get\<close>. The result \<open>err\<close> of the HTTP branch is a new variable that shadows the named result, so the
  error of a failed request is not returned.
\<close>

definition Get ::
  "(string \<Rightarrow> 'e + 's) \<Rightarrow> (string \<Rightarrow> int option) \<Rightarrow> (string \<Rightarrow> string) \<Rightarrow> ('e \<Rightarrow> bool)
   \<Rightarrow> (url \<Rightarrow> 'e + nat \<times> 's \<times> int \<times> header) \<Rightarrow> url \<Rightarrow> ('s, 'e) get_result" where
  "Get os_open stat_size mime_type is_ErrPermission http_get u =
     (if u_Scheme u = ''file'' then
        (case os_open (u_Path u) of
           Inr reader \<Rightarrow>
             \<lparr>g_reader = Some reader,
              g_header = (if mime_type (u_Path u) \<noteq> [] then header_set ''Content-Type'' (mime_type (u_Path u)) Map.empty else Map.empty),
              g_status = 200,
              g_length = (case stat_size (u_Path u) of Some n \<Rightarrow> n | None \<Rightarrow> - 1),
              g_err = None\<rparr>
         | Inl err \<Rightarrow>
             \<lparr>g_reader = None, g_header = Map.empty, g_status = (if is_ErrPermission err then 403 else 404),
              g_length = 0, g_err = Some err\<rparr>)
      else
        (case http_get u of
           Inr (status, reader, len, header) \<Rightarrow>
             \<lparr>g_reader = Some reader, g_header = header, g_status = status, g_length = len, g_err = None\<rparr>
         | Inl err \<Rightarrow>
             \<lparr>g_reader = None, g_header = Map.empty, g_status = 502, g_length = 0, g_err = None\<rparr>))"

definition bad_gateway :: bytes where
  "bad_gateway = bytes_of ''Bad Gateway''"

text \<open>\<open>cache\<close>, given the result of \<open>Get\<close>; \<open>now\<close> is the time at its end.\<close>

definition cache :: "'s io_reader \<Rightarrow> ('s, 'e) get_result \<Rightarrow> int \<Rightarrow> Proxy \<Rightarrow> fetchableResource go" where
  "cache rd g now proxy =
     (let finish = (\<lambda>status header data. \<lparr>fr_data = data, fr_statusCode = status, fr_etag = Etag data,
                      fr_header = header, fr_updated = now\<rparr>)
      in if g_err g \<noteq> None then Inr (finish (g_status g) (g_header g) [])
         else if g_length g < 0 \<or> g_length g > px_limit proxy then Inr (finish 502 Map.empty bad_gateway)
         else (case g_reader g of
                 None \<Rightarrow> Inl NilDereference
               | Some reader \<Rightarrow>
                   (let n = nat (g_length g) in
                    case rd n reader of
                      (bs, err, reader') \<Rightarrow>
                        (let data = bs @ replicate (n - length bs) 0
                         in Inr (finish (g_status g) (g_header g)
                              (if err = None \<and> length bs \<noteq> n then take (length bs) data else data))))))"

text \<open>
  The loop of \<open>fetch\<close>. A turn takes one ready case of the \<open>select\<close>: the shutdown, which is ready once the
  channel is closed, or a request that arrives at time \<open>now\<close>; \<open>g\<close> is what \<open>Get\<close> returns if it is called
  for this request, and \<open>done\<close> the time at the end of that fetch. A turn gives the reply, if any, and
  whether the loop goes on.
\<close>

datatype ('s, 'e) fetch_case =
    ShutdownReady
  | RequestReady (rr_now: int) (rr_get: "('s, 'e) get_result") (rr_done: int)

definition is_stale :: "int \<Rightarrow> Proxy \<Rightarrow> bool" where
  "is_stale now proxy = (case px_resource proxy of None \<Rightarrow> True | Some res \<Rightarrow> now - fr_updated res > px_stale proxy)"

fun fetch_turn :: "'s io_reader \<Rightarrow> ('s, 'e) fetch_case \<Rightarrow> Proxy \<Rightarrow> (fetchableResource option \<times> bool \<times> Proxy) go" where
  "fetch_turn rd ShutdownReady proxy = Inr (None, \<not> cclosed (px_shutdown proxy), proxy)"
| "fetch_turn rd (RequestReady now g done) proxy =
     go_bind (if is_stale now proxy
              then go_bind (cache rd g done proxy) (\<lambda>res. Inr (proxy\<lparr>px_resource := Some res\<rparr>))
              else Inr proxy)
       (\<lambda>proxy'. Inr (px_resource proxy', True, proxy'))"

fun fetch :: "'s io_reader \<Rightarrow> ('s, 'e) fetch_case list \<Rightarrow> Proxy \<Rightarrow> (fetchableResource list \<times> Proxy) go" where
  "fetch rd [] proxy = Inr ([], proxy)"
| "fetch rd (c # cs) proxy =
     go_bind (fetch_turn rd c proxy)
       (\<lambda>(reply, running, proxy').
          if \<not> running then Inr ([], proxy')
          else go_bind (fetch rd cs proxy') (\<lambda>(replies, q). Inr (case_option replies (\<lambda>r. r # replies) reply, q)))"

text \<open>\<open>int(proxy.stale.Seconds())\<close> drops the fraction.\<close>

definition whole_seconds :: "int \<Rightarrow> int" where
  "whole_seconds d = sgn d * (\<bar>d\<bar> div second)"

text \<open>The response to a request, given the resource the fetcher returned; \<open>ok\<close> is the environment's
  answer to the write of the body.\<close>

definition Proxy_response :: "Proxy \<Rightarrow> http_request \<Rightarrow> bool \<Rightarrow> fetchableResource \<Rightarrow> response \<Rightarrow> response" where
  "Proxy_response proxy request ok res writer =
     (let w1 = (if header_get ''Content-Type'' (fr_header res) \<noteq> []
                then set_header ''Content-Type'' (header_get ''Content-Type'' (fr_header res)) writer else writer);
          w2 = set_header ''ETag'' (fr_etag res) w1;
          w3 = set_header ''Cache-Control'' (''max-age='' @ int_string (whole_seconds (px_stale proxy))) w2
      in if fr_etag res \<noteq> [] \<and> header_get ''If-None-Match'' (rq_header request) = fr_etag res
         then write_header 304 w3
         else write_body ok (fr_data res)
                (write_header (fr_statusCode res)
                  (set_header ''Content-Length'' (nat_string (length (fr_data res))) w3)))"

text \<open>
  \<open>ServeHTTP\<close> while the fetcher runs: the request is one turn of the fetcher and the handler continues with
  its reply. A panic of the fetcher goroutine ends the program.
\<close>

definition Proxy_ServeHTTP ::
  "'s io_reader \<Rightarrow> int \<Rightarrow> ('s, 'e) get_result \<Rightarrow> int \<Rightarrow> bool \<Rightarrow> http_request \<Rightarrow> response \<Rightarrow> Proxy
   \<Rightarrow> (response \<times> Proxy) go" where
  "Proxy_ServeHTTP rd now g done ok request writer proxy =
     (case HandleHttpAuthentication (px_auth proxy) request writer of
        (False, w) \<Rightarrow> Inr (w, proxy)
      | (True, w) \<Rightarrow> go_bind (fetch_turn rd (RequestReady now g done) proxy)
          (\<lambda>(reply, running, proxy'). case reply of
               Some res \<Rightarrow> Inr (Proxy_response proxy request ok res w, proxy')
             | None \<Rightarrow> Inl NilDereference))"

section \<open>Properties\<close>

text \<open>The prime of the hash is odd, so a hash step loses nothing of the state.\<close>

lemma fnv_prime_inverse: "fnv_prime * 14886173955864302971 = 1"
  by (simp add: fnv_prime_def)

lemma fnv_mult_cancel [simp]: "a * fnv_prime = b * fnv_prime \<longleftrightarrow> a = b"
proof
  assume "a * fnv_prime = b * fnv_prime"
  then have "a * (fnv_prime * 14886173955864302971) = b * (fnv_prime * 14886173955864302971)"
    by (simp only: mult.assoc [symmetric])
  then show "a = b" by (simp add: fnv_prime_inverse)
qed simp

lemma xor_left_cancel: "xor h a = xor h b \<longleftrightarrow> a = (b :: 'a::len word)"
proof
  assume "xor h a = xor h b"
  then have "xor h (xor h a) = xor h (xor h b)" by simp
  then show "a = b" by (simp add: xor.assoc [symmetric])
qed simp

lemma fnv_step_state [simp]: "fnv_step b h = fnv_step b h' \<longleftrightarrow> h = h'"
  by (simp add: fnv_step_def) (metis xor_left_cancel xor.commute)

lemma unat_ucast_byte: "unat (ucast a :: u64) = unat (a :: u8)"
proof -
  have "unat a < 2 ^ 64" by (rule less_le_trans [OF unsigned_less]) simp
  then show ?thesis by (simp add: unsigned_ucast_eq take_bit_nat_eq_self)
qed

lemma ucast_byte_eq: "(ucast a :: u64) = ucast b \<longleftrightarrow> a = (b :: u8)"
  by (metis unat_ucast_byte word_unat_eq_iff)

lemma fnv_step_byte [simp]: "fnv_step b h = fnv_step b' h \<longleftrightarrow> b = b'"
  by (simp add: fnv_step_def xor_left_cancel ucast_byte_eq)

lemma fnv_fold_state [simp]: "fold fnv_step bs h = fold fnv_step bs h' \<longleftrightarrow> h = h'"
  by (induction bs arbitrary: h h') simp_all

lemma Etag_length: "length (Etag data) = 16"
  by (simp add: Etag_def hex016_def)

lemma Etag_not_empty [simp]: "Etag data \<noteq> []"
  using Etag_length [of data] by auto

text \<open>
  The entity tag of a resource has 16 characters, and replacing any single byte of the resource
  by another value always changes it.\<close>

theorem Etag_detects_byte:
  assumes "i < length data" and "b \<noteq> data ! i"
  shows "length (Etag data) = 16 \<and> Etag (data[i := b]) \<noteq> Etag data"
proof -
  have "data = take i data @ data ! i # drop (Suc i) data" using assms by (simp add: id_take_nth_drop)
  then have "fnv1a data = fold fnv_step (drop (Suc i) data) (fnv_step (data ! i) (fold fnv_step (take i data) fnv_offset))"
    unfolding fnv1a_def by (metis comp_apply fold_append fold_simps(2))
  moreover have "fnv1a (data[i := b]) = fold fnv_step (drop (Suc i) data) (fnv_step b (fold fnv_step (take i data) fnv_offset))"
    using assms by (simp add: fnv1a_def upd_conv_take_nth_drop)
  ultimately have "Etag (data[i := b]) \<noteq> Etag data" using assms by (simp add: Etag_def)
  then show ?thesis by (simp add: Etag_length)
qed

theorem Etag_detects_byte_witness:
  "length (Etag [1, 2]) = 16 \<and> Etag ([1, 2][1 := 3]) \<noteq> Etag [1, 2]"
  using Etag_detects_byte [of 1 "[1, 2]" 3] by simp

text \<open>What a fetch yields, by cases over the result of \<open>Get\<close>.\<close>

lemma cache_cases:
  "g_err g \<noteq> None \<Longrightarrow> cache rd g now proxy =
     Inr \<lparr>fr_data = [], fr_statusCode = g_status g, fr_etag = Etag [], fr_header = g_header g, fr_updated = now\<rparr>"
  "g_err g = None \<Longrightarrow> g_length g < 0 \<or> g_length g > px_limit proxy \<Longrightarrow> cache rd g now proxy =
     Inr \<lparr>fr_data = bad_gateway, fr_statusCode = 502, fr_etag = Etag bad_gateway, fr_header = Map.empty, fr_updated = now\<rparr>"
  "g_err g = None \<Longrightarrow> 0 \<le> g_length g \<Longrightarrow> g_length g \<le> px_limit proxy \<Longrightarrow> g_reader g = None \<Longrightarrow>
     cache rd g now proxy = Inl NilDereference"
  by (auto simp: cache_def Let_def)

lemma cache_reads:
  assumes "g_err g = None" "0 \<le> g_length g" "g_length g \<le> px_limit proxy" "g_reader g = Some r"
    and "rd (nat (g_length g)) r = (bs, e, r')" "length bs \<le> nat (g_length g)"
  shows "\<exists>res. cache rd g now proxy = Inr res \<and> fr_statusCode res = g_status g \<and> fr_header res = g_header g
    \<and> fr_updated res = now \<and> fr_etag res = Etag (fr_data res)
    \<and> fr_data res = (if e = None then bs else bs @ replicate (nat (g_length g) - length bs) 0)"
  using assms by (auto simp: cache_def Let_def)

lemma cache_updated: "cache rd g now proxy = Inr res \<Longrightarrow> fr_updated res = now \<and> fr_etag res = Etag (fr_data res)"
  by (auto simp: cache_def Let_def split: if_splits option.splits prod.splits)

text \<open>A run of the fetcher whose cases are all requests.\<close>

definition requests :: "(int \<times> ('s, 'e) get_result \<times> int) list \<Rightarrow> ('s, 'e) fetch_case list" where
  "requests = map (\<lambda>(now, g, done). RequestReady now g done)"

text \<open>\<open>served_from ts i j r\<close>: the reply \<open>r\<close> to request \<open>i\<close> was fetched for request \<open>j\<close>, by then not stale.\<close>

definition served_from :: "'s io_reader \<Rightarrow> Proxy \<Rightarrow> (int \<times> ('s, 'e) get_result \<times> int) list \<Rightarrow> nat \<Rightarrow> nat \<Rightarrow> fetchableResource \<Rightarrow> bool" where
  "served_from rd proxy ts i j r \<longleftrightarrow>
     j \<le> i \<and> cache rd (fst (snd (ts ! j))) (snd (snd (ts ! j))) proxy = Inr r
     \<and> (j < i \<longrightarrow> fst (ts ! i) - snd (snd (ts ! j)) \<le> px_stale proxy)"

lemma cache_resource [simp]: "cache rd g t (proxy\<lparr>px_resource := x\<rparr>) = cache rd g t proxy"
  by (simp add: cache_def)

lemma fetch_turn_request:
  assumes "fetch_turn rd (RequestReady now g done) proxy = Inr (reply, running, q)"
  shows "\<exists>r. reply = Some r \<and> running \<and> q = proxy\<lparr>px_resource := Some r\<rparr> \<and>
    (if is_stale now proxy then cache rd g done proxy = Inr r else px_resource proxy = Some r)"
  using assms
  by (auto simp: go_bind_def is_stale_def split: if_splits sum.splits option.splits)

lemma fetch_snoc:
  "fetch rd (requests (ts @ [t])) proxy = Inr (rs, q) \<Longrightarrow>
   \<exists>rs' p r. rs = rs' @ [r] \<and> fetch rd (requests ts) proxy = Inr (rs', p)
     \<and> fetch_turn rd (RequestReady (fst t) (fst (snd t)) (snd (snd t))) p = Inr (Some r, True, q)"
proof (induction ts arbitrary: proxy rs)
  case Nil
  then show ?case
    using fetch_turn_request [of rd "fst t" "fst (snd t)" "snd (snd t)" proxy]
    by (cases t; cases "fetch_turn rd (RequestReady (fst t) (fst (snd t)) (snd (snd t))) proxy")
      (auto simp: requests_def go_bind_def simp del: fetch_turn.simps split: sum.splits option.splits if_splits)
next
  case (Cons u ts)
  obtain now g dn where u: "u = (now, g, dn)" by (cases u)
  obtain reply running p1 where t1: "fetch_turn rd (RequestReady now g dn) proxy = Inr (reply, running, p1)"
    using Cons.prems u by (cases "fetch_turn rd (RequestReady now g dn) proxy") (auto simp: requests_def go_bind_def)
  obtain r1 where r1: "reply = Some r1" "running" using fetch_turn_request [OF t1] by auto
  obtain rs1 where rs1: "fetch rd (requests (ts @ [t])) p1 = Inr (rs1, q)" "rs = r1 # rs1"
    using Cons.prems u t1 r1 by (auto simp: requests_def go_bind_def split: sum.splits)
  obtain rs' p r where IH: "rs1 = rs' @ [r]" "fetch rd (requests ts) p1 = Inr (rs', p)"
    "fetch_turn rd (RequestReady (fst t) (fst (snd t)) (snd (snd t))) p = Inr (Some r, True, q)"
    using Cons.IH [OF rs1(1)] by blast
  have "fetch rd (requests (u # ts)) proxy = Inr (r1 # rs', p)"
    using IH(2) u t1 r1 by (simp add: requests_def go_bind_def)
  then show ?case using IH rs1(2) by (metis append_Cons)
qed

lemma served_from_append [simp]:
  "i < length ts \<Longrightarrow> served_from rd proxy (ts @ us) i j r = served_from rd proxy ts i j r"
  by (auto simp: served_from_def nth_append)

lemma fetch_state:
  assumes "fetch rd (requests ts) proxy = Inr (rs, q)" and "px_resource proxy = None"
  shows "length rs = length ts \<and> q = proxy\<lparr>px_resource := (if rs = [] then None else Some (last rs))\<rparr>
    \<and> (\<forall>i < length ts. \<exists>j. served_from rd proxy ts i j (rs ! i))
    \<and> (\<forall>i. Suc i < length ts \<longrightarrow> fst (ts ! Suc i) - fr_updated (rs ! i) \<le> px_stale proxy \<longrightarrow> rs ! Suc i = rs ! i)"
  using assms
proof (induction ts arbitrary: rs q rule: rev_induct)
  case Nil
  then show ?case by (cases proxy) (simp add: requests_def)
next
  case (snoc t ts)
  obtain rs' p r where rs: "rs = rs' @ [r]" and run: "fetch rd (requests ts) proxy = Inr (rs', p)"
    and turn: "fetch_turn rd (RequestReady (fst t) (fst (snd t)) (snd (snd t))) p = Inr (Some r, True, q)"
    using fetch_snoc [OF snoc.prems(1)] by blast
  note IH = snoc.IH [OF run snoc.prems(2)]
  then have len: "length rs' = length ts"
    and p: "p = proxy\<lparr>px_resource := (if rs' = [] then None else Some (last rs'))\<rparr>" by auto
  have c: "cache rd g d p = cache rd g d proxy" for g d by (simp add: p)
  have q: "q = proxy\<lparr>px_resource := Some r\<rparr>" and r: "if is_stale (fst t) p
      then cache rd (fst (snd t)) (snd (snd t)) proxy = Inr r else px_resource p = Some r"
    using fetch_turn_request [OF turn] unfolding c p by auto
  have last: "rs' \<noteq> [] \<Longrightarrow> last rs' = rs' ! (length ts - 1)" using len by (simp add: last_conv_nth)
  have new: "\<exists>j. served_from rd proxy (ts @ [t]) (length ts) j r"
  proof (cases "is_stale (fst t) p")
    case True
    then have "served_from rd proxy (ts @ [t]) (length ts) (length ts) r"
      using r by (simp add: served_from_def)
    then show ?thesis ..
  next
    case False
    then have ne: "rs' \<noteq> []" and rl: "r = last rs'" and fresh: "fst t - fr_updated r \<le> px_stale proxy"
      using r by (auto simp: p is_stale_def split: if_splits)
    then have i: "length ts - 1 < length ts" using len by (cases ts) auto
    then obtain j where j: "served_from rd proxy ts (length ts - 1) j r"
      using IH last [OF ne] rl by metis
    have "fr_updated r = snd (snd (ts ! j))" using j cache_updated by (fastforce simp: served_from_def)
    then have "served_from rd proxy (ts @ [t]) (length ts) j r"
      using j fresh i by (auto simp: served_from_def nth_append)
    then show ?thesis ..
  qed
  have same: "rs' ! i = r" if "Suc i = length ts" "fst t - fr_updated (rs' ! i) \<le> px_stale proxy" for i
  proof -
    have i: "i = length ts - 1" and ne: "rs' \<noteq> []" using that len by auto
    then show ?thesis using that(2) last [OF ne] r by (auto simp: p is_stale_def split: if_splits)
  qed
  show ?case using IH new same q by (auto simp: rs nth_append less_Suc_eq)
qed

text \<open>
  C29. The fetcher answers every request. A reply was fetched from upstream either for that very
  request or for an earlier one, and in the second case the fetch had ended at most the cache time
  before the request; as long as the last reply is not older than the cache time it is repeated.\<close>

theorem fetcher_serves_fresh:
  assumes "NewProxy parse uri timeout cachetime auth = Inr proxy"
    and "fetch rd (requests ts) proxy = Inr (rs, q)"
  shows "length rs = length ts
    \<and> (\<forall>i < length ts. \<exists>j. served_from rd proxy ts i j (rs ! i))
    \<and> (\<forall>i. Suc i < length ts \<longrightarrow> fst (ts ! Suc i) - fr_updated (rs ! i) \<le> px_stale proxy \<longrightarrow> rs ! Suc i = rs ! i)"
proof -
  have "px_resource proxy = None" using assms(1) by (auto simp: NewProxy_def split: sum.splits)
  from fetch_state [OF assms(2) this] show ?thesis by blast
qed

definition sample_reader :: "bytes io_reader" where
  "sample_reader n s = (take n s, None, drop n s)"

definition sample_url :: url where
  "sample_url = \<lparr>u_Scheme = ''http'', u_Host = ''a'', u_Hostname = ''a'', u_Path = ''/'', u_RawQuery = []\<rparr>"

definition sample_proxy :: Proxy where
  "sample_proxy = \<lparr>px_url = sample_url, px_timeout = 10 * second, px_stale = 60 * second, px_limit = proxyDefaultLimit,
     px_resource = None, px_shutdown = make_chan 0, px_stats = DummyStatistics, px_auth = PassAuthenticator\<rparr>"

definition sample_get :: "bytes \<Rightarrow> (bytes, unit) get_result" where
  "sample_get d = \<lparr>g_reader = Some d, g_header = Map.empty, g_status = 200, g_length = int (length d), g_err = None\<rparr>"

definition sample_resource :: "bytes \<Rightarrow> int \<Rightarrow> fetchableResource" where
  "sample_resource d t = \<lparr>fr_data = d, fr_statusCode = 200, fr_etag = Etag d, fr_header = Map.empty, fr_updated = t\<rparr>"

definition sample_requests :: "(int \<times> (bytes, unit) get_result \<times> int) list" where
  "sample_requests = [(0, sample_get [1], 1), (second, sample_get [2], 2), (70 * second, sample_get [3], 71 * second)]"

lemma sample_new: "NewProxy (\<lambda>uri. Inr sample_url) ''u'' 10 60 PassAuthenticator = (Inr sample_proxy :: unit + Proxy)"
  by (simp add: NewProxy_def sample_proxy_def wrap64_def second_def)

lemma sample_cache:
  "cache sample_reader (sample_get d) t sample_proxy = Inr (sample_resource d t)" if "length d \<le> 100"
  using that by (simp add: cache_def sample_get_def sample_reader_def sample_resource_def sample_proxy_def proxyDefaultLimit_def)

lemma sample_fetch:
  "fetch sample_reader (requests sample_requests) sample_proxy =
     Inr ([sample_resource [1] 1, sample_resource [1] 1, sample_resource [3] (71 * second)],
          sample_proxy\<lparr>px_resource := Some (sample_resource [3] (71 * second))\<rparr>)"
  by (simp add: sample_requests_def requests_def go_bind_def is_stale_def sample_cache)
    (simp add: sample_proxy_def sample_resource_def second_def)

theorem fetcher_serves_fresh_witness:
  "\<exists>j. served_from sample_reader sample_proxy sample_requests 1 j (sample_resource [1] 1)"
  using fetcher_serves_fresh [OF sample_new sample_fetch] by (simp add: sample_requests_def) (metis One_nat_def lessI less_SucI nth_Cons_0 nth_Cons_Suc)



lemma proxy_keys:
  "canonical_key ''ETag'' = ''Etag''" "canonical_key ''Content-Type'' = ''Content-Type''"
  "canonical_key ''Content-Length'' = ''Content-Length''" "canonical_key ''Cache-Control'' = ''Cache-Control''"
  by code_simp+

lemma Proxy_response_fields:
  assumes "fr_etag res = Etag (fr_data res)"
  shows "sent_header ''ETag'' (Proxy_response proxy request ok res new_response) = Etag (fr_data res)
    \<and> (if header_get ''If-None-Match'' (rq_header request) = Etag (fr_data res)
       then status_of (Proxy_response proxy request ok res new_response) = Some 304
         \<and> rw_body (Proxy_response proxy request ok res new_response) = []
       else status_of (Proxy_response proxy request ok res new_response) = Some (fr_statusCode res)
         \<and> rw_body (Proxy_response proxy request ok res new_response) = (if ok then fr_data res else [])
         \<and> text_value 10 (sent_header ''Content-Length'' (Proxy_response proxy request ok res new_response)) = length (fr_data res)
         \<and> sent_header ''Content-Type'' (Proxy_response proxy request ok res new_response)
             = header_get ''Content-Type'' (fr_header res))"
proof -
  have new: "rw_sent new_response = None" "rw_body new_response = []" "header_get k (rw_header new_response) = []" for k
    by (simp_all add: new_response_def header_get_def)
  show ?thesis
    using assms by (simp add: Proxy_response_def Let_def new sent_header_def status_of_def proxy_keys nat_string_value)
qed

lemma serves_cached:
  assumes "NewProxy parse uri timeout cachetime auth = Inr proxy0"
    and "fetch rd (requests ts) proxy0 = Inr (rs, proxy)"
    and "Authenticate auth (header_get ''Authorization'' (rq_header request))"
    and "Proxy_ServeHTTP rd now g done ok request new_response proxy = Inr (resp, q)"
  shows "\<exists>res. resp = Proxy_response proxy request ok res new_response \<and> px_resource q = Some res
    \<and> fr_etag res = Etag (fr_data res)"
proof -
  have p0: "px_resource proxy0 = None" "px_auth proxy0 = auth" using assms(1) by (auto simp: NewProxy_def split: sum.splits)
  note st = fetch_state [OF assms(2) p0(1)]
  then have px: "px_auth proxy = auth" using p0 by auto
  obtain res where turn: "fetch_turn rd (RequestReady now g done) proxy = Inr (Some res, True, q)"
    and resp: "resp = Proxy_response proxy request ok res new_response"
    using assms(3,4) px
    by (cases "fetch_turn rd (RequestReady now g done) proxy")
      (auto simp: Proxy_ServeHTTP_def HandleHttpAuthentication_def go_bind_def simp del: fetch_turn.simps
        split: option.splits dest: fetch_turn_request)
  have "fr_etag res = Etag (fr_data res)"
  proof (cases "is_stale now proxy")
    case True
    then show ?thesis using fetch_turn_request [OF turn] by (auto dest: cache_updated)
  next
    case False
    then have "rs \<noteq> []" "res = last rs" using fetch_turn_request [OF turn] st by (auto split: if_splits)
    then have "length rs - 1 < length ts" "res = rs ! (length rs - 1)" using st
      by (auto simp: last_conv_nth simp flip: length_greater_0_conv)
    then show ?thesis using st cache_updated unfolding served_from_def by metis
  qed
  then show ?thesis using resp fetch_turn_request [OF turn] by auto
qed

text \<open>
  C30. The response of the proxy to an authenticated request. It carries the entity tag of the cached
  resource; a request that names this tag in \<open>If-None-Match\<close> gets status 304 and no body, every other
  one the cached status, the decimal length of the data and the data.\<close>

theorem Proxy_ServeHTTP_response:
  assumes "NewProxy parse uri timeout cachetime auth = Inr proxy0"
    and "fetch rd (requests ts) proxy0 = Inr (rs, proxy)"
    and "Authenticate auth (header_get ''Authorization'' (rq_header request))"
    and "Proxy_ServeHTTP rd now g done ok request new_response proxy = Inr (resp, q)"
  shows "\<exists>res. px_resource q = Some res \<and> sent_header ''ETag'' resp = Etag (fr_data res)
    \<and> (if header_get ''If-None-Match'' (rq_header request) = Etag (fr_data res)
       then status_of resp = Some 304 \<and> rw_body resp = []
       else status_of resp = Some (fr_statusCode res) \<and> rw_body resp = (if ok then fr_data res else [])
         \<and> text_value 10 (sent_header ''Content-Length'' resp) = length (fr_data res)
         \<and> sent_header ''Content-Type'' resp = header_get ''Content-Type'' (fr_header res))"
proof -
  obtain res where res: "resp = Proxy_response proxy request ok res new_response" "px_resource q = Some res"
      "fr_etag res = Etag (fr_data res)"
    using serves_cached [OF assms] by blast
  then show ?thesis using Proxy_response_fields [OF res(3)] by blast
qed

definition sample_request :: "string \<Rightarrow> http_request" where
  "sample_request tag = \<lparr>rq_header = header_set ''If-None-Match'' tag Map.empty, rq_remote = ''c'', rq_path = ''/'', rq_query = (\<lambda>_. [])\<rparr>"

lemma sample_serve:
  "Proxy_ServeHTTP sample_reader 72000000000 (sample_get [4]) 73000000000 True (sample_request tag) new_response
     (sample_proxy\<lparr>px_resource := Some (sample_resource [3] (71 * second))\<rparr>)
   = Inr (Proxy_response sample_proxy (sample_request tag) True (sample_resource [3] (71 * second)) new_response,
          sample_proxy\<lparr>px_resource := Some (sample_resource [3] (71 * second))\<rparr>)"
  by (simp add: Proxy_ServeHTTP_def HandleHttpAuthentication_def go_bind_def is_stale_def sample_proxy_def
      sample_resource_def second_def Proxy_response_def)

theorem Proxy_ServeHTTP_response_witness:
  "status_of (Proxy_response sample_proxy (sample_request (Etag [3])) True (sample_resource [3] (71 * second)) new_response) = Some 304"
proof -
  have "header_get ''If-None-Match'' (rq_header (sample_request tag)) = tag" for tag by (simp add: sample_request_def)
  then show ?thesis
    using Proxy_ServeHTTP_response [OF sample_new sample_fetch _ sample_serve [of "Etag [3]"]]
    by (simp add: sample_resource_def)
qed

text \<open>
  C40. A failed request to an HTTP upstream crashes the program: \<open>Get\<close> returns no error, because the
  variable that holds it is local to the branch, and the fetcher then reads from a missing body.\<close>

theorem failed_upstream_panics:
  assumes "u_Scheme (px_url proxy) \<noteq> ''file''" and "http_get (px_url proxy) = Inl err"
    and "0 \<le> px_limit proxy" and "is_stale now proxy"
    and "Authenticate (px_auth proxy) (header_get ''Authorization'' (rq_header request))"
  shows "Proxy_ServeHTTP rd now (Get os_open stat_size mime_type is_ErrPermission http_get (px_url proxy)) done ok
    request writer proxy = Inl NilDereference"
  using assms by (simp add: Proxy_ServeHTTP_def HandleHttpAuthentication_def go_bind_def Get_def cache_cases)

theorem failed_upstream_panics_witness:
  "Proxy_ServeHTTP sample_reader 0
     (Get (\<lambda>_. Inl ()) (\<lambda>_. None) (\<lambda>_. []) (\<lambda>_. False) (\<lambda>_. Inl ()) sample_url)
     1 True (sample_request []) new_response sample_proxy = Inl NilDereference"
  using failed_upstream_panics [of sample_proxy "\<lambda>_. Inl ()" "()" 0 "sample_request []"]
  by (simp add: sample_proxy_def sample_url_def proxyDefaultLimit_def is_stale_def)

end
