(* ===== verification/Event_Queue.thy ===== *)
theory Event_Queue
  imports Auth_Users
begin

text \<open>
  The package \<open>event\<close>: the notification queue (\<open>event/queue.go\<close>), the heartbeat
  (\<open>event/heartbeat.go\<close>) and the URL handler (\<open>event/urlhandler.go\<close>).

  The queue counts the active connections and calls the registered handlers when the count crosses
  the configured limit, and on every heartbeat. A handler call is recorded as a value. The handlers
  of one event type are a list of entries with distinct keys; Go iterates over such a map in any
  order, and the list stands for one of them. Counters are Go \<open>int\<close>s of 64 bits.
\<close>

datatype Type = TypeLimitHit | TypeLimitMiss | TypeHeartbeat

datatype changeType = changeConnect | changeHeartbeat

record stateChange =
  sc_typ :: changeType
  sc_connected :: int
  sc_when :: int

datatype args = LimitArgs int int int | HeartbeatArgs int

record 'h call =
  call_handler :: 'h
  call_type :: Type
  call_args :: args

record 'h Queue =
  q_limit :: int
  q_handlers :: "Type \<rightharpoonup> ('h \<times> bool) list"
  q_notifier :: "stateChange chan option"
  q_connections :: int
  q_shutdown :: "unit chan option"
  q_running :: bool
  q_waiter :: nat

definition queueSize :: nat where "queueSize = 10"

definition MaxInt32 :: int where "MaxInt32 = 2 ^ 31 - 1"

definition NewQueue :: "int \<Rightarrow> 'h Queue go" where
  "NewQueue limit =
     (if limit < 0 then Inl (ExplicitPanic ''limit is out of range'')
      else Inr \<lparr>q_limit = limit, q_handlers = Map.empty, q_notifier = None, q_connections = 0,
                q_shutdown = None, q_running = False, q_waiter = 0\<rparr>)"

text \<open>\<open>Start\<close> also spawns the goroutine \<open>run\<close>.\<close>

definition Start :: "'h Queue \<Rightarrow> 'h Queue" where
  "Start reporter =
     (if \<not> q_running reporter
      then reporter\<lparr>q_shutdown := Some (make_chan 0), q_notifier := Some (make_chan queueSize),
                    q_running := True, q_waiter := q_waiter reporter + 1\<rparr>
      else reporter)"

text \<open>\<open>Shutdown\<close> up to the wait for the goroutine.\<close>

definition Shutdown :: "'h Queue \<Rightarrow> 'h Queue go" where
  "Shutdown reporter =
     (if q_running reporter
      then (case q_shutdown reporter of
              None \<Rightarrow> Inl NilDereference
            | Some c \<Rightarrow> go_bind (chan_close c) (\<lambda>c'. Inr (reporter\<lparr>q_shutdown := Some c'\<rparr>)))
      else Inr reporter)"

definition notify_handlers :: "Type \<Rightarrow> args \<Rightarrow> 'h Queue \<Rightarrow> 'h call list" where
  "notify_handlers t a reporter =
     (case q_handlers reporter t of
        None \<Rightarrow> []
      | Some hs \<Rightarrow> map (\<lambda>(h, ok). \<lparr>call_handler = h, call_type = t, call_args = a\<rparr>)
                       (filter snd hs))"

definition handleHeartbeat :: "int \<Rightarrow> 'h Queue \<Rightarrow> 'h Queue \<times> 'h call list" where
  "handleHeartbeat now reporter = (reporter, notify_handlers TypeHeartbeat (HeartbeatArgs now) reporter)"

definition new_count :: "int \<Rightarrow> int \<Rightarrow> int" where
  "new_count delta conns =
     (if delta < 0 \<and> wrap64 (- delta) > conns then 0
      else if delta > wrap64 (MaxInt32 - conns) then MaxInt32
      else wrap64 (conns + delta))"

definition handleConnect :: "int \<Rightarrow> 'h Queue \<Rightarrow> 'h Queue \<times> 'h call list" where
  "handleConnect delta reporter =
     (let conns = q_connections reporter;
          newconn = new_count delta conns;
          limit = q_limit reporter;
          calls =
            (if limit \<noteq> 0 then
               if conns \<ge> limit then
                 if newconn < limit
                 then notify_handlers TypeLimitMiss (LimitArgs conns newconn limit) reporter
                 else []
               else
                 if newconn \<ge> limit
                 then notify_handlers TypeLimitHit (LimitArgs conns newconn limit) reporter
                 else []
             else [])
      in (reporter\<lparr>q_connections := newconn\<rparr>, calls))"

definition handle :: "stateChange \<Rightarrow> 'h Queue \<Rightarrow> 'h Queue \<times> 'h call list" where
  "handle message reporter =
     (case sc_typ message of
        changeConnect \<Rightarrow> handleConnect (sc_connected message) reporter
      | changeHeartbeat \<Rightarrow> handleHeartbeat (sc_when message) reporter)"

text \<open>One iteration of the loop of \<open>run\<close>, for the branch of the \<open>select\<close> that was chosen; \<open>None\<close> if
  that branch is not ready. The flag says whether the loop goes on.\<close>

datatype run_choice = ChooseShutdown | ChooseMessage

definition run_step :: "run_choice \<Rightarrow> 'h Queue \<Rightarrow> (bool \<times> 'h Queue \<times> 'h call list) option" where
  "run_step choice reporter =
     (case choice of
        ChooseShutdown \<Rightarrow>
          (case q_shutdown reporter of
             Some c \<Rightarrow> if cclosed c then Some (False, reporter, []) else None
           | None \<Rightarrow> None)
      | ChooseMessage \<Rightarrow>
          (case q_notifier reporter of
             None \<Rightarrow> None
           | Some c \<Rightarrow>
               (case chan_recv c of
                  Some (Some message, c') \<Rightarrow>
                    (case handle message (reporter\<lparr>q_notifier := Some c'\<rparr>) of
                       (reporter', calls) \<Rightarrow> Some (True, reporter', calls))
                | _ \<Rightarrow> None)))"

text \<open>The end of \<open>run\<close>: close and drain the notification channel.\<close>

definition run_end :: "'h Queue \<Rightarrow> 'h Queue go" where
  "run_end reporter =
     (case q_notifier reporter of
        None \<Rightarrow> Inl NilDereference
      | Some c \<Rightarrow> go_bind (chan_close c)
          (\<lambda>c'. Inr (reporter\<lparr>q_notifier := chan_drain c', q_running := False,
                              q_waiter := q_waiter reporter - 1\<rparr>)))"

definition RegisterEventHandler :: "Type \<Rightarrow> 'h \<Rightarrow> 'h Queue \<Rightarrow> 'h Queue" where
  "RegisterEventHandler t handler reporter =
     (if q_running reporter then reporter
      else
        let hs = (case q_handlers reporter t of None \<Rightarrow> [] | Some hs \<Rightarrow> hs)
        in reporter\<lparr>q_handlers := (q_handlers reporter)
             (t \<mapsto> filter (\<lambda>e. fst e \<noteq> handler) hs @ [(handler, True)])\<rparr>)"

definition UnregisterEventHandler :: "Type \<Rightarrow> 'h \<Rightarrow> 'h Queue \<Rightarrow> 'h Queue" where
  "UnregisterEventHandler t handler reporter =
     (if q_running reporter then reporter
      else
        (case q_handlers reporter t of
           None \<Rightarrow> reporter
         | Some hs \<Rightarrow>
             if handler \<in> set (map fst hs)
             then reporter\<lparr>q_handlers := (q_handlers reporter)
                    (t \<mapsto> filter (\<lambda>e. fst e \<noteq> handler) hs)\<rparr>
             else reporter))"

text \<open>Sending a notification: \<open>None\<close> while the sender is blocked (for ever, when the queue has never
  been started).\<close>

definition notify :: "stateChange \<Rightarrow> 'h Queue \<Rightarrow> 'h Queue option go" where
  "notify message reporter =
     (case q_notifier reporter of
        None \<Rightarrow> Inr None
      | Some c \<Rightarrow> go_bind (chan_try_send message c)
          (\<lambda>r. Inr (map_option (\<lambda>c'. reporter\<lparr>q_notifier := Some c'\<rparr>) r)))"

definition NotifyConnect :: "int \<Rightarrow> 'h Queue \<Rightarrow> 'h Queue option go" where
  "NotifyConnect delta reporter =
     notify \<lparr>sc_typ = changeConnect, sc_connected = delta, sc_when = 0\<rparr> reporter"

definition NotifyHeartbeat :: "int \<Rightarrow> 'h Queue \<Rightarrow> 'h Queue option go" where
  "NotifyHeartbeat now reporter =
     notify \<lparr>sc_typ = changeHeartbeat, sc_connected = 0, sc_when = now\<rparr> reporter"

text \<open>A heartbeat has a ticker, which ticks until it is stopped. \<open>time.NewTicker\<close> panics when the
  interval is not positive. Stopping a ticker does not close its channel.\<close>

record Heartbeat =
  hb_interval :: int
  hb_ticking :: bool

definition NewHeartbeat :: "int \<Rightarrow> Heartbeat go" where
  "NewHeartbeat interval =
     (if interval \<le> 0 then Inl (ExplicitPanic ''non-positive interval for NewTicker'')
      else Inr \<lparr>hb_interval = interval, hb_ticking = True\<rparr>)"

definition Heartbeat_Stop :: "Heartbeat \<Rightarrow> Heartbeat" where
  "Heartbeat_Stop heartbeat = heartbeat\<lparr>hb_ticking := False\<rparr>"

text \<open>The loop of a heartbeat: a notification per tick of its ticker.\<close>

definition heartbeat_loop :: "int list \<Rightarrow> stateChange list" where
  "heartbeat_loop ticks = map (\<lambda>now. \<lparr>sc_typ = changeHeartbeat, sc_connected = 0, sc_when = now\<rparr>) ticks"

section \<open>URL handler\<close>

record UrlHandler =
  uh_Url :: string
  uh_userauth :: "UserAuthenticator option"

definition NewUrlHandler ::
  "(string \<Rightarrow> 'e + string) \<Rightarrow> string \<Rightarrow> UserAuthenticator option \<Rightarrow> 'e + UrlHandler" where
  "NewUrlHandler parse urly userauth =
     (case parse urly of
        Inr u \<Rightarrow> Inr \<lparr>uh_Url = u, uh_userauth = userauth\<rparr>
      | Inl err \<Rightarrow> Inl err)"

text \<open>The GET request a handler sends: its URL and its header.\<close>

definition HandleEvent :: "UrlHandler \<Rightarrow> string \<times> header" where
  "HandleEvent handler =
     (uh_Url handler,
      case uh_userauth handler of
        Some auth \<Rightarrow> header_add ''Authorization'' (user_GetLogin auth) Map.empty
      | None \<Rightarrow> Map.empty)"

section \<open>Sequences of messages\<close>

fun handle_all :: "stateChange list \<Rightarrow> 'h Queue \<Rightarrow> 'h Queue \<times> 'h call list" where
  "handle_all [] reporter = (reporter, [])"
| "handle_all (m # ms) reporter =
     (case handle m reporter of
        (r1, c1) \<Rightarrow> case handle_all ms r1 of (r2, c2) \<Rightarrow> (r2, c1 @ c2))"

definition connect_msg :: "int \<Rightarrow> stateChange" where
  "connect_msg d = \<lparr>sc_typ = changeConnect, sc_connected = d, sc_when = 0\<rparr>"

lemma handle_fields [simp]:
  "q_limit (fst (handle m r)) = q_limit r"
  "q_handlers (fst (handle m r)) = q_handlers r"
  "q_notifier (fst (handle m r)) = q_notifier r"
  "q_running (fst (handle m r)) = q_running r"
  "q_shutdown (fst (handle m r)) = q_shutdown r"
  by (simp_all add: handle_def handleConnect_def handleHeartbeat_def Let_def split: changeType.split)

lemma handle_all_fields [simp]:
  "q_limit (fst (handle_all ms r)) = q_limit r"
  "q_handlers (fst (handle_all ms r)) = q_handlers r"
  by (induction ms arbitrary: r) (auto split: prod.splits, (metis fst_conv handle_fields)+)

lemma handle_all_append:
  "handle_all (ms @ ns) r =
     (case handle_all ms r of (r1, c1) \<Rightarrow> case handle_all ns r1 of (r2, c2) \<Rightarrow> (r2, c1 @ c2))"
  by (induction ms arbitrary: r) (auto split: prod.splits)

section \<open>The saturating counter\<close>

definition count_ok :: "int \<Rightarrow> bool" where
  "count_ok n \<longleftrightarrow> 0 \<le> n \<and> n \<le> MaxInt32"

definition saturate :: "int \<Rightarrow> int" where
  "saturate n = max 0 (min MaxInt32 n)"

lemma new_count_saturates:
  assumes "count_ok conns" and "- (2 ^ 63) < delta" and "delta < 2 ^ 63"
  shows "new_count delta conns = saturate (conns + delta)"
proof -
  have "wrap64 (MaxInt32 - conns) = MaxInt32 - conns" "wrap64 (- delta) = - delta"
    using assms by (auto intro!: wrap64_id simp: count_ok_def MaxInt32_def)
  moreover have "wrap64 (conns + delta) = conns + delta" if "conns + delta \<le> MaxInt32" "0 \<le> conns + delta"
    using that by (intro wrap64_id) (auto simp: MaxInt32_def)
  ultimately show ?thesis
    using assms(1) by (auto simp: new_count_def saturate_def count_ok_def MaxInt32_def)
qed

lemma saturate_ok [simp]: "count_ok (saturate n)"
  by (simp add: saturate_def count_ok_def MaxInt32_def)

lemma saturate_id: "count_ok n \<Longrightarrow> saturate n = n"
  by (auto simp: saturate_def count_ok_def)

lemma handle_connect_msg:
  "q_connections (fst (handle (connect_msg d) r)) = new_count d (q_connections r)"
  by (simp add: handle_def connect_msg_def handleConnect_def Let_def)

section \<open>Handler calls\<close>

definition registered :: "'h \<Rightarrow> Type \<Rightarrow> 'h Queue \<Rightarrow> bool" where
  "registered h t r \<longleftrightarrow>
     (\<exists>hs. q_handlers r t = Some hs \<and> distinct (map fst hs) \<and> (h, True) \<in> set hs)"

lemma filter_notify:
  assumes "registered h t r"
  shows "filter (\<lambda>c. call_handler c = h) (notify_handlers t a r) =
           [\<lparr>call_handler = h, call_type = t, call_args = a\<rparr>]"
proof -
  from assms obtain xs ys where hs: "q_handlers r t = Some (xs @ (h, True) # ys)"
      and d: "distinct (map fst (xs @ (h, True) # ys))"
    unfolding registered_def by (metis split_list)
  have no: "filter (\<lambda>c. call_handler c = h)
      (map (\<lambda>(h, ok). \<lparr>call_handler = h, call_type = t, call_args = a\<rparr>) (filter snd zs)) = []"
    if "h \<notin> fst ` set zs" for zs
    using that by (induction zs) auto
  from d have "h \<notin> fst ` set xs" "h \<notin> fst ` set ys" by auto
  with hs no [of xs] no [of ys] show ?thesis by (simp add: notify_handlers_def)
qed

text \<open>The crossing of the limit a message causes, if any.\<close>

definition crossing :: "int \<Rightarrow> int \<Rightarrow> int \<Rightarrow> Type option" where
  "crossing limit conns new =
     (if limit = 0 then None
      else if conns \<ge> limit \<and> new < limit then Some TypeLimitMiss
      else if conns < limit \<and> new \<ge> limit then Some TypeLimitHit
      else None)"

text \<open>The limit events that the handlers \<open>hit\<close> and \<open>miss\<close> are called for, in order. The program
  registers a handler of its own for every notification, so the two are different ones.\<close>

definition limit_types :: "'h \<Rightarrow> 'h \<Rightarrow> 'h call list \<Rightarrow> Type list" where
  "limit_types hit miss calls = map call_type
     (filter (\<lambda>c. call_type c = TypeLimitHit \<and> call_handler c = hit \<or> call_type c = TypeLimitMiss \<and> call_handler c = miss) calls)"

lemma limit_types_append [simp]:
  "limit_types hit miss [] = []"
  "limit_types hit miss (xs @ ys) = limit_types hit miss xs @ limit_types hit miss ys"
  by (simp_all add: limit_types_def)

lemma notify_type: "c \<in> set (notify_handlers t a r) \<Longrightarrow> call_type c = t"
  by (auto simp: notify_handlers_def split: option.splits)

lemma limit_types_notify:
  "registered hit TypeLimitHit r \<Longrightarrow> limit_types hit miss (notify_handlers TypeLimitHit a r) = [TypeLimitHit]"
  "registered miss TypeLimitMiss r \<Longrightarrow> limit_types hit miss (notify_handlers TypeLimitMiss a r) = [TypeLimitMiss]"
  "limit_types hit miss (notify_handlers TypeHeartbeat a r) = []"
proof -
  have only: "filter P (notify_handlers t a r) = filter (\<lambda>c. call_handler c = h) (notify_handlers t a r)"
    if "\<And>c. call_type c = t \<Longrightarrow> P c \<longleftrightarrow> call_handler c = h" for P t h
    using that notify_type by (intro filter_cong) blast+
  show "registered hit TypeLimitHit r \<Longrightarrow> limit_types hit miss (notify_handlers TypeLimitHit a r) = [TypeLimitHit]"
    unfolding limit_types_def by (subst only [of _ _ hit]) (simp_all add: filter_notify)
  show "registered miss TypeLimitMiss r \<Longrightarrow> limit_types hit miss (notify_handlers TypeLimitMiss a r) = [TypeLimitMiss]"
    unfolding limit_types_def by (subst only [of _ _ miss]) (simp_all add: filter_notify)
  show "limit_types hit miss (notify_handlers TypeHeartbeat a r) = []"
    by (auto simp: limit_types_def filter_empty_conv dest: notify_type)
qed

lemma limit_types_handle:
  assumes "registered hit TypeLimitHit r" and "registered miss TypeLimitMiss r"
  shows "limit_types hit miss (snd (handle m r)) =
           (case crossing (q_limit r) (q_connections r) (q_connections (fst (handle m r))) of
              None \<Rightarrow> [] | Some t \<Rightarrow> [t])"
  using limit_types_notify [where hit = hit and miss = miss and r = r] assms
  by (cases "sc_typ m") (auto simp: handle_def handleConnect_def handleHeartbeat_def Let_def crossing_def)

text \<open>Hits and misses in turn.\<close>

fun alternates :: "bool \<Rightarrow> Type list \<Rightarrow> bool" where
  "alternates full [] = True"
| "alternates full (t # ts) =
     (t = (if full then TypeLimitMiss else TypeLimitHit) \<and> alternates (\<not> full) ts)"

lemma alternates_handle_all:
  assumes "registered hit TypeLimitHit r" and "registered miss TypeLimitMiss r" and "q_limit r \<noteq> 0"
  shows "alternates (q_connections r \<ge> q_limit r) (limit_types hit miss (snd (handle_all ms r)))
     \<and> (q_connections (fst (handle_all ms r)) \<ge> q_limit r
          \<longleftrightarrow> (q_connections r \<ge> q_limit r) = even (length (limit_types hit miss (snd (handle_all ms r)))))"
  using assms
proof (induction ms arbitrary: r)
  case Nil
  then show ?case by (simp add: limit_types_def)
next
  case (Cons m ms)
  obtain r1 c1 where h: "handle m r = (r1, c1)" by (cases "handle m r")
  obtain r2 c2 where t: "handle_all ms r1 = (r2, c2)" by (cases "handle_all ms r1")
  have same: "q_limit r1 = q_limit r" "q_handlers r1 = q_handlers r"
    using h handle_fields [of m r] by simp_all
  then have reg: "registered hit TypeLimitHit r1" "registered miss TypeLimitMiss r1"
    using Cons.prems by (auto simp: registered_def)
  from Cons.IH [OF reg] same Cons.prems(3) t
  have IH: "alternates (q_connections r1 \<ge> q_limit r) (limit_types hit miss c2)"
      "q_connections r2 \<ge> q_limit r \<longleftrightarrow> (q_connections r1 \<ge> q_limit r) = even (length (limit_types hit miss c2))"
    by auto
  have "limit_types hit miss c1 = (case crossing (q_limit r) (q_connections r) (q_connections r1) of
      None \<Rightarrow> [] | Some t \<Rightarrow> [t])"
    using limit_types_handle [OF Cons.prems(1,2), of m] h by simp
  with IH h t Cons.prems(3) show ?case
    by (auto simp: crossing_def split: if_splits)
qed

section \<open>The loop\<close>

text \<open>\<open>n\<close> iterations of \<open>run\<close> that each take a message.\<close>

fun run_messages :: "nat \<Rightarrow> 'h Queue \<Rightarrow> ('h Queue \<times> 'h call list) option" where
  "run_messages 0 r = Some (r, [])"
| "run_messages (Suc n) r =
     (case run_step ChooseMessage r of
        Some (True, r1, c1) \<Rightarrow> map_option (apsnd (\<lambda>c2. c1 @ c2)) (run_messages n r1)
      | _ \<Rightarrow> None)"

lemma handle_notifier: "handle m (r\<lparr>q_notifier := x\<rparr>) = apfst (\<lambda>q. q\<lparr>q_notifier := x\<rparr>) (handle m r)"
  by (simp add: handle_def handleConnect_def handleHeartbeat_def notify_handlers_def Let_def
      split: changeType.split)

lemma run_messages_in_order:
  assumes "q_notifier r = Some c" and "cbuf c = ms @ rest" and "cwaiting c = 0"
  shows "run_messages (length ms) r =
           Some (apfst (\<lambda>q. q\<lparr>q_notifier := Some (c\<lparr>cbuf := rest\<rparr>)\<rparr>) (handle_all ms r))"
  using assms
proof (induction ms arbitrary: r c)
  case Nil
  then show ?case by simp
next
  case (Cons m ms)
  let ?c = "c\<lparr>cbuf := ms @ rest, cwaiting := 0\<rparr>"
  obtain r1 c1 where h: "handle m r = (r1, c1)" by (cases "handle m r")
  have step: "run_step ChooseMessage r = Some (True, r1\<lparr>q_notifier := Some ?c\<rparr>, c1)"
    using Cons.prems h by (simp add: run_step_def chan_recv_def handle_notifier)
  have n: "handle_all ns (q\<lparr>q_notifier := x\<rparr>) = apfst (\<lambda>q. q\<lparr>q_notifier := x\<rparr>) (handle_all ns q)" for ns q x
    by (induction ns arbitrary: q) (auto simp: handle_notifier split: prod.splits)
  have "run_messages (length ms) (r1\<lparr>q_notifier := Some ?c\<rparr>) =
      Some (apfst (\<lambda>q. q\<lparr>q_notifier := Some (?c\<lparr>cbuf := rest\<rparr>)\<rparr>) (handle_all ms (r1\<lparr>q_notifier := Some ?c\<rparr>)))"
    by (rule Cons.IH) auto
  moreover have "?c\<lparr>cbuf := rest\<rparr> = c\<lparr>cbuf := rest\<rparr>" using Cons.prems(3) by (cases c) simp
  ultimately show ?case
    using step h by (auto simp: n split: prod.splits)
qed

section \<open>The interface Notifiable\<close>

text \<open>What streamers and heartbeats rely on (\<open>event/notifications.go\<close>): changes of the number of connections
  are not lost, whatever else is sent and however far the dispatcher has come. \<open>turn\<close> is one message handled by the
  dispatcher, \<open>tracks n q\<close> says that it has been told of \<open>n\<close> connections.\<close>

fun announce :: "(int \<Rightarrow> 'q \<Rightarrow> 'q option go) \<Rightarrow> int list \<Rightarrow> 'q \<Rightarrow> 'q option go" where
  "announce send [] q = Inr (Some q)"
| "announce send (d # ds) q =
     (case send d q of Inl p \<Rightarrow> Inl p | Inr None \<Rightarrow> Inr None | Inr (Some q') \<Rightarrow> announce send ds q')"

locale notifiable =
  fixes notify_connect :: "int \<Rightarrow> 'q \<Rightarrow> 'q option go"
    and notify_heartbeat :: "int \<Rightarrow> 'q \<Rightarrow> 'q option go"
    and turn :: "'q \<Rightarrow> 'q option"
    and tracks :: "int \<Rightarrow> 'q \<Rightarrow> bool"
  assumes connect_tracks:
      "tracks n q \<Longrightarrow> notify_connect d q = Inr (Some q') \<Longrightarrow> \<bar>d\<bar> \<le> 1 \<Longrightarrow> count_ok (n + d) \<Longrightarrow> tracks (n + d) q'"
    and heartbeat_tracks: "tracks n q \<Longrightarrow> notify_heartbeat now q = Inr (Some q') \<Longrightarrow> tracks n q'"
    and turn_tracks: "tracks n q \<Longrightarrow> turn q = Some q' \<Longrightarrow> tracks n q'"
begin

lemma announce_tracks:
  "tracks n q \<Longrightarrow> announce notify_connect ds q = Inr (Some q') \<Longrightarrow> \<forall>d \<in> set ds. \<bar>d\<bar> \<le> 1 \<Longrightarrow>
     \<forall>k. count_ok (n + sum_list (take k ds)) \<Longrightarrow> tracks (n + sum_list ds) q'"
proof (induction ds arbitrary: n q)
  case (Cons d ds)
  then obtain q1 where q1: "notify_connect d q = Inr (Some q1)" "announce notify_connect ds q1 = Inr (Some q')"
    by (auto split: sum.splits option.splits)
  have ok: "count_ok (n + d + sum_list (take k ds))" for k using Cons.prems(4) [rule_format, of "Suc k"] by (simp add: add.assoc)
  have "tracks (n + d) q1" using connect_tracks [OF Cons.prems(1) q1(1)] Cons.prems(3) ok [of 0] by simp
  from Cons.IH [OF this q1(2)] Cons.prems(3) ok show ?case by (simp add: add.assoc)
qed simp

end

definition change_of :: "stateChange \<Rightarrow> int" where
  "change_of m = (if sc_typ m = changeConnect then sc_connected m else 0)"

definition waiting_messages :: "'h Queue \<Rightarrow> stateChange list" where
  "waiting_messages q = (case q_notifier q of None \<Rightarrow> [] | Some c \<Rightarrow> cbuf c)"

text \<open>The counter of the queue is the number of connections at some point in the past, and will be \<open>n\<close>
  when the messages that wait are handled. It never saturates on the way.\<close>

definition counting :: "int \<Rightarrow> 'h Queue \<Rightarrow> bool" where
  "counting n q \<longleftrightarrow> (\<forall>m \<in> set (waiting_messages q). \<bar>change_of m\<bar> \<le> 1)
     \<and> (\<forall>k. count_ok (q_connections q + sum_list (map change_of (take k (waiting_messages q)))))
     \<and> q_connections q + sum_list (map change_of (waiting_messages q)) = n"

lemma handle_change:
  assumes "count_ok (q_connections q)" and "count_ok (q_connections q + change_of m)" and "\<bar>change_of m\<bar> \<le> 1"
  shows "q_connections (fst (handle m q)) = q_connections q + change_of m"
proof (cases "sc_typ m")
  case changeConnect
  then have "\<bar>sc_connected m\<bar> \<le> 1" "change_of m = sc_connected m" using assms(3) by (simp_all add: change_of_def)
  then show ?thesis
    using changeConnect new_count_saturates [OF assms(1), of "sc_connected m"] saturate_id [OF assms(2)]
    by (simp add: handle_def handleConnect_def Let_def)
next
  case changeHeartbeat
  then show ?thesis by (simp add: handle_def handleHeartbeat_def change_of_def)
qed

lemma counting_handle:
  assumes "counting n q" and "waiting_messages q = m # ms" and "q_connections q' = q_connections (fst (handle m q))" and "waiting_messages q' = ms"
  shows "counting n q'"
proof -
  have ok: "count_ok (q_connections q + sum_list (map change_of (take k (m # ms))))" for k
    using assms(1,2) by (simp add: counting_def)
  have "q_connections q' = q_connections q + change_of m"
    using assms ok [of 0] ok [of 1] by (subst assms(3), intro handle_change) (auto simp: counting_def)
  then show ?thesis using assms ok [of "Suc k" for k] by (simp add: counting_def add.assoc)
qed

lemma notify_Inr:
  assumes "notify m q = Inr (Some q')"
  obtains c where "q_notifier q = Some c" "q' = q\<lparr>q_notifier := Some (c\<lparr>cbuf := cbuf c @ [m]\<rparr>)\<rparr>"
  using assms by (auto simp: notify_def chan_try_send_def go_bind_def split: option.splits if_splits)

lemma counting_send:
  assumes "counting n q" and "notify m q = Inr (Some q')" and "\<bar>change_of m\<bar> \<le> 1" and "count_ok (n + change_of m)"
  shows "counting (n + change_of m) q'"
  using assms(2)
proof (cases rule: notify_Inr)
  case (1 c)
  then have "waiting_messages q' = waiting_messages q @ [m]" "q_connections q' = q_connections q" by (simp_all add: waiting_messages_def)
  moreover have "count_ok (q_connections q + sum_list (map change_of (take k (waiting_messages q @ [m]))))" for k
    using assms by (cases "k \<le> length (waiting_messages q)") (auto simp: counting_def add.assoc [symmetric])
  ultimately show ?thesis using assms(1,3) by (simp add: counting_def)
qed

lemma change_of_simps [simp]:
  "change_of (connect_msg d) = d"
  "change_of \<lparr>sc_typ = changeHeartbeat, sc_connected = c, sc_when = w\<rparr> = 0"
  by (simp_all add: change_of_def connect_msg_def)

lemma counting_count: "counting n q \<Longrightarrow> count_ok n"
  unfolding counting_def by (metis order_refl take_all)

text \<open>The queue implements the interface.\<close>

definition queue_turn :: "'h Queue \<Rightarrow> 'h Queue option" where
  "queue_turn q = map_option (fst \<circ> snd) (run_step ChooseMessage q)"

lemma run_step_Some:
  assumes "run_step ChooseMessage q = Some (running, q', calls)"
  obtains c m ms q1 where "q_notifier q = Some c" "cbuf c = m # ms" "handle m q = (q1, calls)"
    "q' = q1\<lparr>q_notifier := Some (c\<lparr>cbuf := ms, cwaiting := cwaiting c - 1\<rparr>)\<rparr>"
  using assms
  by (auto simp: run_step_def chan_recv_def handle_notifier apfst_def map_prod_def
      split: option.splits list.splits prod.splits if_splits)

lemma counting_turn:
  assumes "counting n q" and "run_step ChooseMessage q = Some (running, q', calls)"
  shows "counting n q'"
  using assms(2)
proof (cases rule: run_step_Some)
  case (1 c m ms q1)
  show ?thesis by (rule counting_handle [OF assms(1), of m ms]) (use 1 in \<open>simp_all add: waiting_messages_def\<close>)
qed

interpretation nq: notifiable NotifyConnect NotifyHeartbeat queue_turn counting
proof
  show "counting (n + d) q'" if "counting n q" "NotifyConnect d q = Inr (Some q')" "\<bar>d\<bar> \<le> 1" "count_ok (n + d)"
    for n d and q q' :: "'h Queue"
    using counting_send [OF that(1) that(2) [unfolded NotifyConnect_def connect_msg_def [symmetric]]] that(3,4) by simp
  show "counting n q'" if "counting n q" "NotifyHeartbeat now q = Inr (Some q')" for n now and q q' :: "'h Queue"
    using counting_send [OF that(1) that(2) [unfolded NotifyHeartbeat_def]] counting_count [OF that(1)] by simp
  show "counting n q'" if "counting n q" "queue_turn q = Some q'" for n and q q' :: "'h Queue"
    using that by (auto simp: queue_turn_def intro: counting_turn)
qed

section \<open>Properties\<close>

text \<open>
  Hysteresis: for every sequence of messages, the handlers that are registered for the two limit
  events see hits and misses strictly in turn, beginning with the one that the count at the start leaves
  open, and after the messages the count is at or above the limit exactly if the last event was a hit
  (or there was none and it was so before).
\<close>

theorem limit_events_alternate:
  assumes "registered hit TypeLimitHit r" and "registered miss TypeLimitMiss r" and "q_limit r \<noteq> 0"
    and "handle_all ms r = (r', calls)"
  shows "alternates (q_connections r \<ge> q_limit r) (limit_types hit miss calls)
     \<and> (q_connections r' \<ge> q_limit r
          \<longleftrightarrow> (q_connections r \<ge> q_limit r) = even (length (limit_types hit miss calls)))"
  using alternates_handle_all [OF assms(1-3), of ms] assms(4) by simp

definition watched_queue :: "nat Queue" where
  "watched_queue = \<lparr>q_limit = 2, q_handlers = [TypeLimitHit \<mapsto> [(7, True)], TypeLimitMiss \<mapsto> [(8, True)]],
     q_notifier = None, q_connections = 0, q_shutdown = None, q_running = False, q_waiter = 0\<rparr>"

theorem limit_events_alternate_witness:
  "alternates False (limit_types 7 8 (snd (handle_all (map connect_msg [1, 1, 1, -1, -1, 1]) watched_queue)))
   \<and> limit_types 7 8 (snd (handle_all (map connect_msg [1, 1, 1, -1, -1, 1]) watched_queue))
       = [TypeLimitHit, TypeLimitMiss, TypeLimitHit]"
proof -
  let ?ms = "map connect_msg [1, 1, 1, -1, -1, 1]"
  have reg: "registered 7 TypeLimitHit watched_queue" "registered 8 TypeLimitMiss watched_queue"
      "q_limit watched_queue \<noteq> 0" "\<not> q_limit watched_queue \<le> q_connections watched_queue"
    by (simp_all add: registered_def watched_queue_def)
  have "limit_types 7 8 (snd (handle_all ?ms watched_queue)) = [TypeLimitHit, TypeLimitMiss, TypeLimitHit]"
    by code_simp
  moreover obtain r' calls where "handle_all ?ms watched_queue = (r', calls)"
    by (cases "handle_all ?ms watched_queue")
  ultimately show ?thesis
    using limit_events_alternate [OF reg(1-3), of ?ms r' calls] reg(4) by simp
qed

text \<open>
  The connection counter saturates: whatever changes are reported (the most negative integer
  excepted), it stays between 0 and \<open>MaxInt32\<close>, and as long as the reported changes never take the
  true number of connections out of that range the counter is exactly the sum of the changes.
\<close>

theorem connection_counter:
  assumes "count_ok (q_connections r)" and "\<forall>d \<in> set ds. - (2 ^ 63) < d \<and> d < 2 ^ 63"
  shows "count_ok (q_connections (fst (handle_all (map connect_msg ds) r)))
     \<and> ((\<forall>k \<le> length ds. count_ok (q_connections r + sum_list (take k ds))) \<longrightarrow>
          q_connections (fst (handle_all (map connect_msg ds) r)) = q_connections r + sum_list ds)"
  using assms
proof (induction ds arbitrary: r)
  case Nil
  then show ?case by simp
next
  case (Cons d ds)
  obtain r1 c1 where h: "handle (connect_msg d) r = (r1, c1)" by (cases "handle (connect_msg d) r")
  have r1: "q_connections r1 = saturate (q_connections r + d)"
    using handle_connect_msg [of d r] h new_count_saturates [OF Cons.prems(1), of d] Cons.prems(2) by simp
  have IH: "count_ok (q_connections (fst (handle_all (map connect_msg ds) r1)))
      \<and> ((\<forall>k \<le> length ds. count_ok (q_connections r1 + sum_list (take k ds))) \<longrightarrow>
          q_connections (fst (handle_all (map connect_msg ds) r1)) = q_connections r1 + sum_list ds)"
    using Cons.prems(2) r1 by (intro Cons.IH) auto
  show ?case
  proof (intro conjI impI)
    show "count_ok (q_connections (fst (handle_all (map connect_msg (d # ds)) r)))"
      using IH h by (auto split: prod.splits)
    assume pre: "\<forall>k \<le> length (d # ds). count_ok (q_connections r + sum_list (take k (d # ds)))"
    have "q_connections r1 = q_connections r + d"
      using pre [rule_format, of 1] r1 by (simp add: saturate_id)
    moreover have "count_ok (q_connections r + d + sum_list (take k ds))" if "k \<le> length ds" for k
      using pre [rule_format, of "Suc k"] that by (simp add: add.assoc)
    ultimately show "q_connections (fst (handle_all (map connect_msg (d # ds)) r)) = q_connections r + sum_list (d # ds)"
      using IH h by (auto split: prod.splits)
  qed
qed

theorem connection_counter_witness:
  "q_connections (fst (handle_all (map connect_msg [5, -9]) watched_queue)) = 0
   \<and> count_ok (q_connections (fst (handle_all (map connect_msg [5, -9]) watched_queue)))"
proof
  show "q_connections (fst (handle_all (map connect_msg [5, -9]) watched_queue)) = 0" by code_simp
  show "count_ok (q_connections (fst (handle_all (map connect_msg [5, -9]) watched_queue)))"
    using connection_counter [of watched_queue "[5, -9]"] by (simp add: watched_queue_def count_ok_def MaxInt32_def)
qed

text \<open>
  The loop of the queue handles the notifications one by one in the order in which they were
  sent: taking \<open>n\<close> messages has the effects and makes the handler calls of the first \<open>n\<close> messages
  of the channel, and the others stay in it.
\<close>

theorem run_in_order:
  assumes "q_notifier r = Some c" and "cbuf c = ms @ rest" and "cwaiting c = 0"
  shows "run_messages (length ms) r =
           Some (apfst (\<lambda>q. q\<lparr>q_notifier := Some (c\<lparr>cbuf := rest\<rparr>)\<rparr>) (handle_all ms r))"
  using assms by (rule run_messages_in_order)

definition backlog_queue :: "nat Queue" where
  "backlog_queue = watched_queue\<lparr>q_notifier := Some
     \<lparr>cbuf = map connect_msg [1, 1, -1], ccap = 10, cclosed = False, cwaiting = 0\<rparr>\<rparr>"

theorem run_in_order_witness:
  "\<exists>q cs. run_messages 2 backlog_queue = Some (q, cs) \<and> q_connections q = 2
     \<and> limit_types 7 8 cs = [TypeLimitHit] \<and> map_option cbuf (q_notifier q) = Some [connect_msg (-1)]"
proof -
  let ?ms = "map connect_msg [1, 1]"
  have run: "run_messages 2 backlog_queue =
      Some (apfst (\<lambda>q. q\<lparr>q_notifier := Some \<lparr>cbuf = [connect_msg (-1)], ccap = 10, cclosed = False, cwaiting = 0\<rparr>\<rparr>)
        (handle_all ?ms backlog_queue))"
    using run_in_order [of backlog_queue _ ?ms "[connect_msg (-1)]"]
    by (simp add: backlog_queue_def numeral_2_eq_2)
  have "q_connections (fst (handle_all ?ms backlog_queue)) = 2" by code_simp
  moreover have "limit_types 7 8 (snd (handle_all ?ms backlog_queue)) = [TypeLimitHit]" by code_simp
  ultimately show ?thesis
    unfolding run by (cases "handle_all ?ms backlog_queue") simp
qed

text \<open>
  Shutdown: once the loop of a running queue has seen the shutdown signal and ended, the queue is
  not running, its channel is closed and empty and a further notification panics; the counter and the
  handlers survive, and starting again opens a fresh channel. A second shutdown before the loop has
  ended panics.
\<close>

theorem queue_shutdown:
  assumes "q_running r = False"
  shows "\<exists>r1 r2. Shutdown (Start r) = Inr r1
     \<and> run_step ChooseShutdown r1 = Some (False, r1, []) \<and> run_end r1 = Inr r2
     \<and> \<not> q_running r2 \<and> q_waiter r2 = q_waiter r
     \<and> NotifyConnect d r2 = Inl SendOnClosedChannel
     \<and> q_connections r2 = q_connections r \<and> q_handlers r2 = q_handlers r
     \<and> q_notifier (Start r2) = Some (make_chan queueSize)
     \<and> Shutdown r1 = Inl CloseOfClosedChannel"
  using assms
  by (simp add: Start_def Shutdown_def run_step_def run_end_def NotifyConnect_def notify_def chan_defs)

theorem queue_shutdown_witness:
  "\<exists>r1. Shutdown (Start watched_queue) = Inr r1 \<and> Shutdown r1 = Inl CloseOfClosedChannel"
  using queue_shutdown [of watched_queue 1] by (auto simp: watched_queue_def)

definition handlers_ok :: "'h Queue \<Rightarrow> bool" where
  "handlers_ok r \<longleftrightarrow> (\<forall>t hs. q_handlers r t = Some hs \<longrightarrow> distinct (map fst hs) \<and> list_all snd hs)"

text \<open>
  Handlers can only change while the queue is idle: registering makes the handler one that is
  called for that event, registering again changes nothing else, unregistering undoes it, and all of
  these are ignored while the queue runs.
\<close>

theorem handler_registration:
  assumes "handlers_ok r"
  shows "handlers_ok (RegisterEventHandler t h r) \<and> handlers_ok (UnregisterEventHandler t h r)
     \<and> (if q_running r then RegisterEventHandler t h r = r \<and> UnregisterEventHandler t h r = r
        else registered h t (RegisterEventHandler t h r)
          \<and> \<not> registered h t (UnregisterEventHandler t h (RegisterEventHandler t h r))
          \<and> (\<forall>k s. (k, s) \<noteq> (h, t) \<longrightarrow>
               (registered k s (RegisterEventHandler t h r) \<longleftrightarrow> registered k s r)))"
proof (cases "q_running r")
  case True
  then show ?thesis using assms by (simp add: RegisterEventHandler_def UnregisterEventHandler_def)
next
  case False
  let ?hs = "case q_handlers r t of None \<Rightarrow> [] | Some hs \<Rightarrow> hs"
  have hs: "distinct (map fst ?hs)" "list_all snd ?hs"
    using assms by (auto simp: handlers_ok_def split: option.splits)
  let ?new = "filter (\<lambda>e. fst e \<noteq> h) ?hs @ [(h, True)]"
  have reg: "RegisterEventHandler t h r = r\<lparr>q_handlers := (q_handlers r)(t \<mapsto> ?new)\<rparr>"
    using False by (simp add: RegisterEventHandler_def Let_def)
  have new: "distinct (map fst ?new)" "list_all snd ?new"
    using hs by (auto simp: distinct_map_filter list_all_iff)
  have "handlers_ok (RegisterEventHandler t h r)"
    using assms new unfolding reg handlers_ok_def by auto
  moreover have "handlers_ok (UnregisterEventHandler t h r)"
    using assms False by (auto simp: handlers_ok_def UnregisterEventHandler_def distinct_map_filter list_all_iff
        split: option.splits)
  moreover have "registered h t (RegisterEventHandler t h r)"
    using new(1) unfolding reg registered_def by auto
  moreover have "\<not> registered h t (UnregisterEventHandler t h (RegisterEventHandler t h r))"
    using False unfolding reg by (auto simp: UnregisterEventHandler_def registered_def)
  moreover have "registered k s (RegisterEventHandler t h r) \<longleftrightarrow> registered k s r" if "(k, s) \<noteq> (h, t)" for k s
    using that new hs unfolding reg registered_def by (auto split: option.splits)
  ultimately show ?thesis using False by simp
qed

theorem handler_registration_witness:
  "registered 3 TypeHeartbeat (RegisterEventHandler TypeHeartbeat 3 watched_queue)"
proof -
  have "handlers_ok watched_queue"
    by (auto simp: handlers_ok_def watched_queue_def split: if_splits)
  moreover have "\<not> q_running watched_queue" by (simp add: watched_queue_def)
  ultimately show ?thesis
    using handler_registration [of watched_queue TypeHeartbeat 3] by presburger
qed

text \<open>
  A notification request carries the credentials of the configured user: a server with the same
  user list, user database and authentication type accepts the request's \<open>Authorization\<close> header, for
  the first user of the list with credentials.
\<close>

theorem HandleEvent_authenticates:
  assumes "auth_Users cred = u # us" and "creds u = Some c" and "auth_Type cred \<in> {[], ''basic'', ''bearer''}"
  shows "Authenticate (NewAuthenticator cred creds)
           (header_get ''Authorization''
             (snd (HandleEvent \<lparr>uh_Url = url, uh_userauth = NewUserAuthenticator cred (NewAuthenticator cred creds)\<rparr>)))"
proof -
  let ?login = "GetLogin u (NewAuthenticator cred creds)"
  have h: "header_get ''Authorization''
      (snd (HandleEvent \<lparr>uh_Url = url, uh_userauth = NewUserAuthenticator cred (NewAuthenticator cred creds)\<rparr>)) = ?login"
    using assms(1) by (simp add: HandleEvent_def NewUserAuthenticator_def user_GetLogin_def http_defs)
  have u: "u \<in> set (auth_Users cred)" using assms(1) by simp
  have "Authenticate (NewAuthenticator cred creds) ?login"
  proof (cases "auth_Type cred = []")
    case True
    then show ?thesis by (simp add: NewAuthenticator_def)
  next
    case False
    from False assms(3) consider "auth_Type cred = ''basic''" | "auth_Type cred = ''bearer''" by auto
    then show ?thesis
    proof cases
      case 1
      have "ba_users (newBasicAuthenticator (auth_Users cred) creds (auth_Realm cred)) u = Some (basic_token u (Password c))"
        using u assms(2) by (simp add: newBasicAuthenticator_def basic_store.token_of_add_allowed)
      with 1 u assms(2) show ?thesis
        by (auto simp: NewAuthenticator_def basic_login_iff newBasic_accepts basic_store.listed_def)
    next
      case 2
      have "ta_users (newTokenAuthenticator (auth_Users cred) creds) u = Some (Password c)"
        using u assms(2) by (simp add: newTokenAuthenticator_def bearer_store.token_of_add_allowed)
      with 2 u assms(2) show ?thesis
        by (auto simp: NewAuthenticator_def token_login_iff newToken_accepts bearer_store.listed_def)
    qed
  qed
  with h show ?thesis by simp
qed

theorem HandleEvent_authenticates_witness:
  "Authenticate (NewAuthenticator \<lparr>auth_Type = ''bearer'', auth_Realm = [], auth_User = [], auth_Users = [''u'']\<rparr>
       [''u'' \<mapsto> \<lparr>Password = ''t''\<rparr>])
     (header_get ''Authorization''
       (snd (HandleEvent \<lparr>uh_Url = ''http://h/'',
          uh_userauth = NewUserAuthenticator \<lparr>auth_Type = ''bearer'', auth_Realm = [], auth_User = [], auth_Users = [''u'']\<rparr>
            (NewAuthenticator \<lparr>auth_Type = ''bearer'', auth_Realm = [], auth_User = [], auth_Users = [''u'']\<rparr>
               [''u'' \<mapsto> \<lparr>Password = ''t''\<rparr>])\<rparr>)))"
  by (rule HandleEvent_authenticates [of _ "''u''" "[]" _ "\<lparr>Password = ''t''\<rparr>"]) simp_all

end
