(* ===== verification/Log_Lines.thy ===== *)
theory Log_Lines
  imports Go_Prelude
begin

text \<open>
  \<open>util/log.go\<close>: log lines and the loggers that pass them on. A line is a dictionary; the file logger is
  in \<open>File_Logger\<close>.

  A logger is a tree of wrappers over outputs. What \<open>Logd\<close> does is given as the list of the lines each
  output gets, in order. The loggers of the modules refer to the global standard logger through a shared
  slice, so they see its replacement; here they have a constructor of their own and the present global
  logger is an argument. A global logger that refers to itself recurses for ever, which is \<open>None\<close>.
\<close>

section \<open>Dictionaries\<close>

text \<open>An \<open>interface{}\<close> value: a string or something else.\<close>

datatype 'v any = AnyString string | AnyOther 'v

type_synonym 'v Dict = "string \<rightharpoonup> 'v any"

text \<open>The loop of \<open>LogFunnel\<close>, from index \<open>i\<close> on.\<close>

function funnel_from :: "nat \<Rightarrow> 'v any list \<Rightarrow> 'v Dict \<Rightarrow> 'v Dict" where
  "funnel_from i keyValues d =
     (if i + 1 < length keyValues
      then funnel_from (i + 2) keyValues
             (case keyValues ! i of AnyString k \<Rightarrow> d(k \<mapsto> keyValues ! (i + 1)) | AnyOther _ \<Rightarrow> d)
      else d)"
  by pat_completeness auto
termination
  by (relation "measure (\<lambda>(i, keyValues, d). length keyValues - i)") auto

declare funnel_from.simps [simp del]

definition LogFunnel :: "'v any list \<Rightarrow> 'v Dict" where
  "LogFunnel keyValues = funnel_from 0 keyValues Map.empty"

section \<open>Loggers\<close>

datatype 'v Logger =
    DummyLogger
  | ConsoleLogger
  | FileLoggerOutput
  | GlobalStandardLogger
  | ModuleLogger "'v Dict" bool "'v Logger"
  | MultiLogger "'v Logger list"

datatype log_output = ToConsole | ToFile

definition KeyModule :: string where "KeyModule = ''module''"
definition KeyTime :: string where "KeyTime = ''time''"

text \<open>One line in the loop of \<open>ModuleLogger.Logd\<close>; \<open>now\<close> is the formatted time.\<close>

definition process_line :: "string \<Rightarrow> 'v Dict \<Rightarrow> bool \<Rightarrow> 'v Dict \<Rightarrow> 'v Dict" where
  "process_line now defaults addTimestamp line =
     (let processed = Map.empty ++ defaults;
          processed = (if addTimestamp then processed(KeyTime \<mapsto> AnyString now) else processed)
      in processed ++ line)"

text \<open>\<open>combine\<close> runs the calls of a multi logger one after the other.\<close>

fun combine :: "'a list option list \<Rightarrow> 'a list option" where
  "combine [] = Some []"
| "combine (None # rs) = None"
| "combine (Some xs # rs) = map_option (append xs) (combine rs)"

function Logd_in ::
  "bool \<Rightarrow> 'v Logger \<Rightarrow> string \<Rightarrow> 'v Logger \<Rightarrow> 'v Dict list \<Rightarrow> (log_output \<times> 'v Dict) list option" where
  "Logd_in g backing now DummyLogger lns = Some []"
| "Logd_in g backing now ConsoleLogger lns = Some (map (Pair ToConsole) lns)"
| "Logd_in g backing now FileLoggerOutput lns = Some (map (Pair ToFile) lns)"
| "Logd_in g backing now GlobalStandardLogger lns = (if g then Logd_in False backing now backing lns else None)"
| "Logd_in g backing now (ModuleLogger defaults addTimestamp logger) lns =
     Logd_in g backing now logger (map (process_line now defaults addTimestamp) lns)"
| "Logd_in g backing now (MultiLogger loggers) lns =
     combine (map (\<lambda>backer. Logd_in g backing now backer lns) loggers)"
  by pat_completeness auto
termination
  by (relation "measures [\<lambda>(g, backing, now, logger, lns). if g then 1 else 0, \<lambda>(g, backing, now, logger, lns). size logger]")
    (auto simp: less_Suc_eq_le size_list_estimation')

definition Logd :: "'v Logger \<Rightarrow> string \<Rightarrow> 'v Logger \<Rightarrow> 'v Dict list \<Rightarrow> (log_output \<times> 'v Dict) list option" where
  "Logd global now logger lns = Logd_in True global now logger lns"

definition Logkv :: "'v Logger \<Rightarrow> string \<Rightarrow> 'v Logger \<Rightarrow> 'v any list \<Rightarrow> (log_output \<times> 'v Dict) list option" where
  "Logkv global now logger keyValues = Logd global now logger [LogFunnel keyValues]"

definition NewGlobalModuleLogger :: "string \<Rightarrow> 'v Dict \<Rightarrow> 'v Logger" where
  "NewGlobalModuleLogger module dict =
     ModuleLogger ((Map.empty ++ dict)(KeyModule \<mapsto> AnyString module)) False GlobalStandardLogger"

text \<open>The new global logger and the old one.\<close>

definition SetGlobalStandardLogger :: "'v Logger \<Rightarrow> 'v Logger \<Rightarrow> 'v Logger \<times> 'v Logger" where
  "SetGlobalStandardLogger logger old = (logger, old)"

section \<open>Properties\<close>

text \<open>The pairs of an argument list whose key is a string, and the dictionary they make up: of several
  values for a key the last one counts.\<close>

fun pairs_of :: "'v any list \<Rightarrow> (string \<times> 'v any) list" where
  "pairs_of (AnyString k # v # kvs) = (k, v) # pairs_of kvs"
| "pairs_of (AnyOther x # v # kvs) = pairs_of kvs"
| "pairs_of _ = []"

lemma funnel_from_pairs: "funnel_from i kvs d = d ++ map_of (rev (pairs_of (drop i kvs)))"
proof (induction i kvs d rule: funnel_from.induct)
  case (1 i kvs d)
  show ?case
  proof (cases "i + 1 < length kvs")
    case True
    then have "drop i kvs = kvs ! i # kvs ! (i + 1) # drop (i + 2) kvs"
      by (metis Cons_nth_drop_Suc Suc_eq_plus1 add_2_eq_Suc' add_lessD1)
    then show ?thesis using True 1
      by (subst funnel_from.simps) (auto split: any.split simp: map_add_def fun_eq_iff split: option.split)
  next
    case False
    then have "pairs_of (drop i kvs) = []"
      by (cases "drop i kvs" rule: pairs_of.cases) (auto dest: arg_cong [of _ _ length])
    then show ?thesis using False by (subst funnel_from.simps) simp
  qed
qed

text \<open>
  C34. The index loop of \<open>LogFunnel\<close> ends on every argument list and yields the dictionary of its
  key-value pairs: pairs whose key is not a string and an odd last argument are ignored, and the last
  value of a repeated key counts.\<close>

theorem LogFunnel_pairs: "LogFunnel keyValues = map_of (rev (pairs_of keyValues))"
  by (simp add: LogFunnel_def funnel_from_pairs)

text \<open>
  What ends up in the log when a module logs a line while the global logger is the timestamping
  wrapper that \<open>main\<close> installs: exactly one line at the output, in which the caller's values have
  precedence over the time stamp and the module name, those over the defaults of the module.\<close>

theorem module_log_line:
  assumes "output = ConsoleLogger \<and> sink = ToConsole \<or> output = FileLoggerOutput \<and> sink = ToFile"
  shows "Logkv (fst (SetGlobalStandardLogger (ModuleLogger Map.empty True output) old)) now
           (NewGlobalModuleLogger module dict) keyValues
     = Some [(sink, \<lambda>k. case map_of (rev (pairs_of keyValues)) k of
          Some v \<Rightarrow> Some v
        | None \<Rightarrow> if k = KeyModule then Some (AnyString module)
                 else if dict k \<noteq> None then dict k
                 else if k = KeyTime then Some (AnyString now) else None)]"
  using assms
  by (auto simp: Logkv_def Logd_def SetGlobalStandardLogger_def NewGlobalModuleLogger_def process_line_def Let_def
      LogFunnel_def funnel_from_pairs fun_eq_iff map_add_def KeyModule_def KeyTime_def split: option.splits)

theorem module_log_line_witness:
  "\<exists>line. Logkv (fst (SetGlobalStandardLogger (ModuleLogger Map.empty True ConsoleLogger) DummyLogger)) ''noon''
       (NewGlobalModuleLogger ''client'' Map.empty) [AnyString ''event'', AnyOther (7 :: nat), AnyOther 1] = Some [(ToConsole, line)]
     \<and> line ''event'' = Some (AnyOther 7) \<and> line ''module'' = Some (AnyString ''client'') \<and> line ''time'' = Some (AnyString ''noon'')"
  using module_log_line [of ConsoleLogger ToConsole DummyLogger "''noon''" "''client''" Map.empty "[AnyString ''event'', AnyOther (7 :: nat), AnyOther 1]"]
  by (simp add: KeyModule_def KeyTime_def)

end
