(* ===== verification/File_Logger.thy ===== *)
theory File_Logger
  imports Log_Lines
begin

text \<open>
  \<open>util/log.go\<close>: the file logger, a goroutine that writes queued lines to a file and reopens or closes
  the file on signals.

  The environment answers whether closing, opening and writing succeed. \<open>marshal\<close> encodes a line and
  may fail. \<open>fl_written\<close> is the text that got into the file, line by line; it is never read. A failed
  \<open>os.OpenFile\<close> leaves an interface that holds a nil file in \<open>logger.log\<close>, which is not equal to nil:
  writing to it and closing it give an error, while a nil interface panics. Messages to standard output
  are left out.
\<close>

section \<open>State\<close>

datatype log_signal = UserSignal | hupSignal | shutdownSignal

datatype log_handle = NilLog | NilFile | OpenLog

definition signalQueueLength :: nat where "signalQueueLength = 100"
definition logQueueLength :: nat where "logQueueLength = 100"

record 'l FileLogger =
  fl_signals :: "log_signal chan"
  fl_notify :: bool
  fl_name :: string
  fl_log :: log_handle
  fl_messages :: "'l chan"
  fl_lines :: u64
  fl_drops :: u64
  fl_errors :: u64
  fl_written :: "string list"

section \<open>Operations\<close>

text \<open>The result is whether there was an error.\<close>

definition reopenLog :: "bool \<Rightarrow> bool \<Rightarrow> 'l FileLogger \<Rightarrow> bool \<times> 'l FileLogger" where
  "reopenLog close_ok open_ok logger =
     (let err = (case fl_log logger of NilLog \<Rightarrow> False | NilFile \<Rightarrow> True | OpenLog \<Rightarrow> \<not> close_ok)
      in if err then (True, logger\<lparr>fl_log := NilLog\<rparr>)
         else if open_ok then (False, logger\<lparr>fl_log := OpenLog\<rparr>)
         else (True, logger\<lparr>fl_log := NilFile\<rparr>))"

text \<open>The goroutine \<open>handle\<close> is started at the end. The argument \<open>sigusr\<close> is not used.\<close>

definition NewFileLogger :: "bool \<Rightarrow> string \<Rightarrow> bool \<Rightarrow> 'l FileLogger option" where
  "NewFileLogger open_ok logfile sigusr =
     (let logger = \<lparr>fl_signals = make_chan signalQueueLength, fl_notify = False, fl_name = logfile, fl_log = NilLog,
                    fl_messages = make_chan logQueueLength, fl_lines = 0, fl_drops = 0, fl_errors = 0, fl_written = []\<rparr>
      in case reopenLog True open_ok logger of
           (True, _) \<Rightarrow> None
         | (False, logger') \<Rightarrow> Some (logger'\<lparr>fl_notify := True\<rparr>))"

text \<open>One line in the loop of \<open>Logd\<close>: it is queued or dropped.\<close>

definition log_line :: "'l \<Rightarrow> 'l FileLogger \<Rightarrow> 'l FileLogger go" where
  "log_line line logger =
     go_bind (chan_try_send line (fl_messages logger))
       (\<lambda>r. Inr (case r of
            Some q \<Rightarrow> logger\<lparr>fl_messages := q\<rparr>
          | None \<Rightarrow> logger\<lparr>fl_drops := fl_drops logger + 1\<rparr>))"

definition FileLogger_Logd :: "'l list \<Rightarrow> 'l FileLogger \<Rightarrow> 'l FileLogger go" where
  "FileLogger_Logd = go_foreach log_line"

definition format_line :: "string \<Rightarrow> string \<Rightarrow> string" where
  "format_line now data = ''['' @ now @ ''] '' @ data @ [CHR 0x0A]"

definition writeLog :: "('l \<Rightarrow> 'e + string) \<Rightarrow> string \<Rightarrow> bool \<Rightarrow> 'l \<Rightarrow> 'l FileLogger \<Rightarrow> 'l FileLogger" where
  "writeLog marshal now write_ok line logger =
     (if fl_log logger \<noteq> NilLog then
        (case marshal line of
           Inr data \<Rightarrow>
             (let written = (if fl_log logger = OpenLog \<and> write_ok then [format_line now data] else [])
              in logger\<lparr>fl_written := fl_written logger @ written, fl_lines := fl_lines logger + 1\<rparr>)
         | Inl err \<Rightarrow> logger\<lparr>fl_errors := fl_errors logger + 1\<rparr>)
      else logger\<lparr>fl_errors := fl_errors logger + 1\<rparr>)"

text \<open>\<open>Close\<close> sends a signal; \<open>None\<close> while the sender is blocked.\<close>

definition FileLogger_Close :: "'l FileLogger \<Rightarrow> 'l FileLogger go option" where
  "FileLogger_Close logger =
     (case chan_try_send hupSignal (fl_signals logger) of
        Inl p \<Rightarrow> Some (Inl p)
      | Inr None \<Rightarrow> None
      | Inr (Some q) \<Rightarrow> Some (Inr (logger\<lparr>fl_signals := q\<rparr>)))"

definition closeLog :: "bool \<Rightarrow> 'l FileLogger \<Rightarrow> (bool \<times> 'l FileLogger) go option" where
  "closeLog close_ok logger =
     (case chan_try_send shutdownSignal (fl_signals logger) of
        Inl p \<Rightarrow> Some (Inl p)
      | Inr None \<Rightarrow> None
      | Inr (Some q) \<Rightarrow>
          Some (case fl_log logger of
             NilLog \<Rightarrow> Inl NilDereference
           | NilFile \<Rightarrow> Inr (True, logger\<lparr>fl_notify := False, fl_signals := q, fl_log := NilLog\<rparr>)
           | OpenLog \<Rightarrow> Inr (\<not> close_ok, logger\<lparr>fl_notify := False, fl_signals := q, fl_log := NilLog\<rparr>)))"

text \<open>One turn of the loop of \<open>handle\<close>: a case of the \<open>select\<close> that is ready, with the answers of the
  environment. The result is whether the loop goes on.\<close>

datatype handle_case =
    TakeSignal bool bool
  | TakeMessage string bool

fun handle_turn ::
  "('l \<Rightarrow> 'e + string) \<Rightarrow> handle_case \<Rightarrow> 'l FileLogger \<Rightarrow> (bool \<times> 'l FileLogger) go option" where
  "handle_turn marshal (TakeSignal close_ok open_ok) logger =
     (case chan_recv (fl_signals logger) of
        Some (Some sig, q) \<Rightarrow>
          (let logger' = logger\<lparr>fl_signals := q\<rparr>
           in case sig of
                UserSignal \<Rightarrow> Some (Inr (True, snd (reopenLog close_ok open_ok logger')))
              | hupSignal \<Rightarrow> map_option (map_sum id (\<lambda>(err, l). (True, l))) (closeLog close_ok logger')
              | shutdownSignal \<Rightarrow> Some (Inr (False, logger')))
      | _ \<Rightarrow> None)"
| "handle_turn marshal (TakeMessage now write_ok) logger =
     (case chan_recv (fl_messages logger) of
        Some (Some line, q) \<Rightarrow> Some (Inr (True, writeLog marshal now write_ok line (logger\<lparr>fl_messages := q\<rparr>)))
      | _ \<Rightarrow> None)"

section \<open>Runs\<close>

text \<open>What happens to a file logger: calls of \<open>Logd\<close> and \<open>Close\<close>, the arrival of the user signal, which
  the runtime drops when the queue is full or the handler removed, and turns of \<open>handle\<close>.\<close>

datatype 'l log_event =
    LogCall "'l list"
  | CloseCall
  | UserSignalArrives
  | Turn handle_case

definition signal_arrives :: "'l FileLogger \<Rightarrow> 'l FileLogger go" where
  "signal_arrives logger =
     (if fl_notify logger
      then go_bind (chan_try_send UserSignal (fl_signals logger))
             (\<lambda>r. Inr (case r of Some q \<Rightarrow> logger\<lparr>fl_signals := q\<rparr> | None \<Rightarrow> logger))
      else Inr logger)"

fun log_step ::
  "('l \<Rightarrow> 'e + string) \<Rightarrow> 'l log_event \<Rightarrow> bool \<times> 'l FileLogger \<Rightarrow> (bool \<times> 'l FileLogger) go option" where
  "log_step marshal (LogCall lns) (running, logger) = Some (map_sum id (Pair running) (FileLogger_Logd lns logger))"
| "log_step marshal CloseCall (running, logger) = map_option (map_sum id (Pair running)) (FileLogger_Close logger)"
| "log_step marshal UserSignalArrives (running, logger) = Some (map_sum id (Pair running) (signal_arrives logger))"
| "log_step marshal (Turn c) (running, logger) = (if running then handle_turn marshal c logger else None)"

fun log_run ::
  "('l \<Rightarrow> 'e + string) \<Rightarrow> 'l log_event list \<Rightarrow> bool \<times> 'l FileLogger \<Rightarrow> (bool \<times> 'l FileLogger) go option" where
  "log_run marshal [] s = Some (Inr s)"
| "log_run marshal (e # es) s =
     (case log_step marshal e s of
        None \<Rightarrow> None
      | Some (Inl p) \<Rightarrow> Some (Inl p)
      | Some (Inr s') \<Rightarrow> log_run marshal es s')"

section \<open>Properties\<close>

text \<open>The lines given to \<open>Logd\<close> in a run.\<close>

fun logged :: "'l log_event list \<Rightarrow> 'l list" where
  "logged [] = []"
| "logged (LogCall lns # es) = lns @ logged es"
| "logged (_ # es) = logged es"

text \<open>\<open>accounted\<close>: every line of \<open>ls\<close> is counted as a line, an error or dropped, or waits in the queue;
  the file has the text of some of them, and the order is that of the calls.\<close>

definition texts_of :: "('l \<Rightarrow> 'e + string) \<Rightarrow> 'l list \<Rightarrow> string list \<Rightarrow> bool" where
  "texts_of marshal ws texts \<longleftrightarrow> list_all2 (\<lambda>w text. \<exists>t d. marshal w = Inr d \<and> text = format_line t d) ws texts"

definition accounted :: "('l \<Rightarrow> 'e + string) \<Rightarrow> 'l list \<Rightarrow> 'l FileLogger \<Rightarrow> bool" where
  "accounted marshal ls logger \<longleftrightarrow>
     of_nat (length ls) = fl_lines logger + fl_errors logger + fl_drops logger + of_nat (length (cbuf (fl_messages logger)))
     \<and> \<not> cclosed (fl_messages logger) \<and> \<not> cclosed (fl_signals logger)
     \<and> (\<exists>ws. texts_of marshal ws (fl_written logger) \<and> subseq (ws @ cbuf (fl_messages logger)) ls)"

lemma accounted_parts:
  assumes "accounted marshal ls logger"
  obtains ws where "of_nat (length ls) = fl_lines logger + fl_errors logger + fl_drops logger + of_nat (length (cbuf (fl_messages logger)))"
    "\<not> cclosed (fl_messages logger)" "\<not> cclosed (fl_signals logger)"
    "texts_of marshal ws (fl_written logger)" "subseq (ws @ cbuf (fl_messages logger)) ls"
  using assms by (auto simp: accounted_def)

lemma accounted_cong:
  assumes "accounted marshal ls logger" and "fl_lines logger' = fl_lines logger" "fl_errors logger' = fl_errors logger"
    "fl_drops logger' = fl_drops logger" "fl_messages logger' = fl_messages logger" "fl_written logger' = fl_written logger"
    "\<not> cclosed (fl_signals logger')"
  shows "accounted marshal ls logger'"
  using assms by (simp add: accounted_def)

lemma accounted_line:
  assumes "accounted marshal ls logger" and "log_line line logger = Inr logger'"
  shows "accounted marshal (ls @ [line]) logger'"
proof -
  from assms(1) obtain ws where acc: "of_nat (length ls) = fl_lines logger + fl_errors logger + fl_drops logger + of_nat (length (cbuf (fl_messages logger)))"
    "\<not> cclosed (fl_messages logger)" "\<not> cclosed (fl_signals logger)"
    "texts_of marshal ws (fl_written logger)" "subseq (ws @ cbuf (fl_messages logger)) ls"
    by (rule accounted_parts)
  show ?thesis
  proof (cases "chan_room (fl_messages logger)")
    case True
    then have l: "logger' = logger\<lparr>fl_messages := (fl_messages logger)\<lparr>cbuf := cbuf (fl_messages logger) @ [line]\<rparr>\<rparr>"
      using assms(2) acc by (simp add: log_line_def chan_try_send_def)
    have "subseq ((ws @ cbuf (fl_messages logger)) @ [line]) (ls @ [line])"
      using acc(5) by (intro list_emb_append_mono) auto
    then show ?thesis using acc by (auto simp: accounted_def l algebra_simps)
  next
    case False
    then have l: "logger' = logger\<lparr>fl_drops := fl_drops logger + 1\<rparr>"
      using assms(2) acc by (simp add: log_line_def chan_try_send_def)
    have "subseq (ws @ cbuf (fl_messages logger)) (ls @ [line])" using acc(5) by (rule list_emb_prefix)
    then show ?thesis using acc by (auto simp: accounted_def l algebra_simps)
  qed
qed

lemma accounted_lines:
  "accounted marshal ls logger \<Longrightarrow> FileLogger_Logd lns logger = Inr logger' \<Longrightarrow> accounted marshal (ls @ lns) logger'"
proof (induction lns arbitrary: ls logger)
  case (Cons l lns)
  then obtain lg where "log_line l logger = Inr lg" "FileLogger_Logd lns lg = Inr logger'"
    by (auto simp: FileLogger_Logd_def go_bind_Inr_conv)
  with Cons.IH [OF accounted_line [OF Cons.prems(1)]] show ?case by simp
qed (simp add: FileLogger_Logd_def)

lemma reopenLog_fields [simp]:
  "fl_lines (snd (reopenLog c p l)) = fl_lines l" "fl_errors (snd (reopenLog c p l)) = fl_errors l"
  "fl_drops (snd (reopenLog c p l)) = fl_drops l" "fl_messages (snd (reopenLog c p l)) = fl_messages l"
  "fl_written (snd (reopenLog c p l)) = fl_written l" "fl_signals (snd (reopenLog c p l)) = fl_signals l"
  "fl_notify (snd (reopenLog c p l)) = fl_notify l"
  by (simp_all add: reopenLog_def Let_def)

lemma map_sum_Inr_conv: "map_sum id f x = Inr y \<longleftrightarrow> (\<exists>z. x = Inr z \<and> y = f z)"
  by (cases x) auto

lemma closeLog_Inr:
  assumes "closeLog c l = Some (Inr (err, l'))"
  shows "l' = l\<lparr>fl_notify := False, fl_signals := (fl_signals l)\<lparr>cbuf := cbuf (fl_signals l) @ [shutdownSignal]\<rparr>, fl_log := NilLog\<rparr>"
  using assms by (auto simp: closeLog_def chan_try_send_def split: if_splits log_handle.splits)

lemma accounted_signal:
  assumes "accounted marshal ls logger" and "handle_turn marshal (TakeSignal c p) logger = Some (Inr (r, logger'))"
  shows "accounted marshal ls logger'"
proof -
  obtain sig sigs where buf: "cbuf (fl_signals logger) = sig # sigs"
    using assms(2) by (cases "cbuf (fl_signals logger)") (auto simp: chan_recv_def split: if_splits)
  have op: "\<not> cclosed (fl_signals logger)" using assms(1) by (simp add: accounted_def)
  show ?thesis
  proof (cases sig)
    case UserSignal
    then show ?thesis using assms buf op by (intro accounted_cong [OF assms(1)]) (auto simp: chan_recv_def)
  next
    case hupSignal
    let ?l = "logger\<lparr>fl_signals := (fl_signals logger)\<lparr>cbuf := sigs, cwaiting := cwaiting (fl_signals logger) - 1\<rparr>\<rparr>"
    obtain err where "closeLog c ?l = Some (Inr (err, logger'))"
      using assms(2) buf hupSignal by (auto simp: chan_recv_def map_sum_Inr_conv)
    from closeLog_Inr [OF this] show ?thesis using op
      by (intro accounted_cong [OF assms(1)]) simp_all
  next
    case shutdownSignal
    then show ?thesis using assms buf op by (intro accounted_cong [OF assms(1)]) (auto simp: chan_recv_def)
  qed
qed

lemma accounted_message:
  assumes "accounted marshal ls logger" and "handle_turn marshal (TakeMessage now ok) logger = Some (Inr (r, logger'))"
  shows "accounted marshal ls logger'"
proof -
  from assms(1) obtain ws where acc: "of_nat (length ls) = fl_lines logger + fl_errors logger + fl_drops logger + of_nat (length (cbuf (fl_messages logger)))"
    "\<not> cclosed (fl_messages logger)" "\<not> cclosed (fl_signals logger)"
    "texts_of marshal ws (fl_written logger)" "subseq (ws @ cbuf (fl_messages logger)) ls"
    by (rule accounted_parts)
  obtain line rest where buf: "cbuf (fl_messages logger) = line # rest"
    using assms(2) by (cases "cbuf (fl_messages logger)") (auto simp: chan_recv_def split: if_splits)
  let ?q = "(fl_messages logger)\<lparr>cbuf := rest, cwaiting := cwaiting (fl_messages logger) - 1\<rparr>"
  have l: "logger' = writeLog marshal now ok line (logger\<lparr>fl_messages := ?q\<rparr>)"
    using assms(2) buf by (simp add: chan_recv_def)
  have keep: "subseq (ws @ rest) ls"
    using acc(5) buf by (metis append_Cons append_Nil subseq_drop_many subseq_order.trans list_emb_append_mono subseq_order.refl)
  have more: "subseq ((ws @ [line]) @ rest) ls" using acc(5) buf by simp
  have new_text: "marshal line = Inr d \<Longrightarrow> texts_of marshal (ws @ [line]) (fl_written logger @ [format_line now d])" for d
    using acc(4) by (auto simp: texts_of_def intro!: list_all2_appendI)
  show ?thesis
  proof (cases "fl_log logger \<noteq> NilLog \<and> (\<exists>d. marshal line = Inr d)")
    case True
    then obtain d where d: "marshal line = Inr d" "fl_log logger \<noteq> NilLog" by blast
    show ?thesis
    proof (cases "fl_log logger = OpenLog \<and> ok")
      case True
      then have "logger' = logger\<lparr>fl_messages := ?q, fl_written := fl_written logger @ [format_line now d], fl_lines := fl_lines logger + 1\<rparr>"
        using l d by (simp add: writeLog_def)
      then show ?thesis using acc buf new_text [OF d(1)] more unfolding accounted_def by (auto simp: algebra_simps)
    next
      case False
      then have "logger' = logger\<lparr>fl_messages := ?q, fl_lines := fl_lines logger + 1\<rparr>"
        using l d by (simp add: writeLog_def)
      then show ?thesis using acc buf keep unfolding accounted_def by (auto simp: algebra_simps)
    qed
  next
    case False
    then have "logger' = logger\<lparr>fl_messages := ?q, fl_errors := fl_errors logger + 1\<rparr>"
      using l by (auto simp: writeLog_def split: sum.splits)
    then show ?thesis using acc buf keep unfolding accounted_def by (auto simp: algebra_simps)
  qed
qed

lemma accounted_step:
  assumes "accounted marshal ls logger" and "log_step marshal e (running, logger) = Some (Inr (running', logger'))"
  shows "accounted marshal (ls @ logged [e]) logger'"
proof (cases e)
  case (LogCall lns)
  then have "FileLogger_Logd lns logger = Inr logger'" using assms(2) by (cases "FileLogger_Logd lns logger") auto
  then show ?thesis using accounted_lines [OF assms(1)] LogCall by simp
next
  case CloseCall
  then obtain q where "logger' = logger\<lparr>fl_signals := q\<rparr>" "\<not> cclosed q" using assms(2)
    by (auto simp: FileLogger_Close_def chan_try_send_def split: if_splits)
  then show ?thesis using CloseCall using assms(1) by (simp add: accounted_def)
next
  case UserSignalArrives
  then have "signal_arrives logger = Inr logger'" using assms(2) by (auto simp: map_sum_Inr_conv)
  then have "logger' = logger \<or> (\<exists>q. logger' = logger\<lparr>fl_signals := q\<rparr> \<and> \<not> cclosed q)"
    by (auto simp: signal_arrives_def chan_try_send_def split: if_splits)
  then show ?thesis using UserSignalArrives assms(1) by (auto simp: accounted_def)
next
  case (Turn c)
  then have "handle_turn marshal c logger = Some (Inr (running', logger'))"
    using assms(2) by (simp split: if_splits)
  then have "accounted marshal ls logger'"
    using accounted_signal [OF assms(1)] accounted_message [OF assms(1)] by (cases c) metis+
  then show ?thesis using Turn by simp
qed

lemma accounted_run:
  "accounted marshal ls logger \<Longrightarrow> log_run marshal es (running, logger) = Some (Inr (running', logger')) \<Longrightarrow>
     accounted marshal (ls @ logged es) logger'"
proof (induction es arbitrary: ls running logger)
  case (Cons e es)
  then obtain r lg where st: "log_step marshal e (running, logger) = Some (Inr (r, lg))"
    and run: "log_run marshal es (r, lg) = Some (Inr (running', logger'))"
    by (auto split: option.splits sum.splits)
  have "accounted marshal ((ls @ logged [e]) @ logged es) logger'"
    using Cons.IH [OF accounted_step [OF Cons.prems(1) st] run] .
  moreover have "logged [e] @ logged es = logged (e # es)" by (cases e) auto
  ultimately show ?case by simp
qed simp

lemma NewFileLogger_eq:
  "NewFileLogger False name sigusr = None"
  "NewFileLogger True name sigusr =
     Some \<lparr>fl_signals = make_chan signalQueueLength, fl_notify = True, fl_name = name, fl_log = OpenLog,
       fl_messages = make_chan logQueueLength, fl_lines = 0, fl_drops = 0, fl_errors = 0, fl_written = []\<rparr>"
  by (simp_all add: NewFileLogger_def reopenLog_def Let_def)

lemma NewFileLogger_accounted: "NewFileLogger True name sigusr = Some logger \<Longrightarrow> accounted marshal [] logger"
  by (auto simp: NewFileLogger_eq accounted_def texts_of_def make_chan_def)


text \<open>\<open>closing\<close>: a logger whose \<open>Close\<close> has been called once, from that call to the end of its goroutine,
  and \<open>budget\<close> the number of turns that are left.\<close>

definition closing :: "bool \<times> 'l FileLogger \<Rightarrow> bool" where
  "closing s \<longleftrightarrow> (case s of (running, logger) \<Rightarrow>
     \<not> cclosed (fl_signals logger) \<and> \<not> cclosed (fl_messages logger) \<and> 0 < ccap (fl_signals logger)
     \<and> (if running
        then fl_log logger = OpenLog \<and> (\<exists>us. cbuf (fl_signals logger) = us @ [hupSignal] \<and> set us \<subseteq> {UserSignal})
           \<or> fl_log logger = NilLog \<and> cbuf (fl_signals logger) = [shutdownSignal]
        else fl_log logger = NilLog))"

definition budget :: "bool \<times> 'l FileLogger \<Rightarrow> nat" where
  "budget s = (case s of (running, logger) \<Rightarrow>
     if running then length (cbuf (fl_messages logger)) + length (cbuf (fl_signals logger))
       + (if hupSignal \<in> set (cbuf (fl_signals logger)) then 1 else 0) else 0)"

text \<open>Closing and opening the file succeed.\<close>

fun smooth :: "handle_case \<Rightarrow> bool" where
  "smooth (TakeSignal close_ok open_ok) \<longleftrightarrow> close_ok \<and> open_ok"
| "smooth (TakeMessage now write_ok) \<longleftrightarrow> True"

lemma writeLog_fields [simp]:
  "fl_log (writeLog marshal now ok line l) = fl_log l" "fl_messages (writeLog marshal now ok line l) = fl_messages l"
  "fl_signals (writeLog marshal now ok line l) = fl_signals l"
  by (simp_all add: writeLog_def Let_def split: sum.splits)

lemma closing_message:
  assumes "closing (True, logger)" and "handle_turn marshal (TakeMessage now ok) logger = Some r"
  shows "\<exists>s'. r = Inr s' \<and> closing s' \<and> budget s' < budget (True, logger)"
proof -
  obtain line rest where buf: "cbuf (fl_messages logger) = line # rest"
    using assms by (cases "cbuf (fl_messages logger)") (simp_all add: chan_recv_def closing_def)
  then have "r = Inr (True, writeLog marshal now ok line
      (logger\<lparr>fl_messages := (fl_messages logger)\<lparr>cbuf := rest, cwaiting := cwaiting (fl_messages logger) - 1\<rparr>\<rparr>))"
    using assms(2) by (simp add: chan_recv_def)
  with buf assms(1) show ?thesis by (simp add: closing_def budget_def)
qed

lemma take_signal:
  assumes "cbuf (fl_signals logger) = sig # sigs"
  shows "handle_turn marshal (TakeSignal c p) logger =
     (let l = logger\<lparr>fl_signals := (fl_signals logger)\<lparr>cbuf := sigs, cwaiting := cwaiting (fl_signals logger) - 1\<rparr>\<rparr>
      in case sig of
           UserSignal \<Rightarrow> Some (Inr (True, snd (reopenLog c p l)))
         | hupSignal \<Rightarrow> map_option (map_sum id (\<lambda>(err, l). (True, l))) (closeLog c l)
         | shutdownSignal \<Rightarrow> Some (Inr (False, l)))"
  using assms by (simp add: chan_recv_def)

lemma closeLog_open:
  assumes "fl_log l = OpenLog" and "\<not> cclosed (fl_signals l)" and "chan_room (fl_signals l)"
  shows "closeLog True l = Some (Inr (False, l\<lparr>fl_notify := False,
     fl_signals := (fl_signals l)\<lparr>cbuf := cbuf (fl_signals l) @ [shutdownSignal]\<rparr>, fl_log := NilLog\<rparr>))"
  using assms by (simp add: closeLog_def chan_try_send_def)

lemma closing_signal:
  assumes "closing (True, logger)"
  shows "\<exists>s'. handle_turn marshal (TakeSignal True True) logger = Some (Inr s') \<and> closing s' \<and> budget s' < budget (True, logger)"
proof -
  have op: "\<not> cclosed (fl_signals logger)" "0 < ccap (fl_signals logger)" using assms(1) by (simp_all add: closing_def)
  let ?l = "\<lambda>sigs. logger\<lparr>fl_signals := (fl_signals logger)\<lparr>cbuf := sigs, cwaiting := cwaiting (fl_signals logger) - 1\<rparr>\<rparr>"
  show ?thesis
  proof (cases "fl_log logger")
    case OpenLog
    then obtain us where us: "cbuf (fl_signals logger) = us @ [hupSignal]" "set us \<subseteq> {UserSignal}"
      using assms(1) by (auto simp: closing_def)
    show ?thesis
    proof (cases us)
      case Nil
      then have buf: "cbuf (fl_signals logger) = [hupSignal]" using us by simp
      have "closeLog True (?l []) = Some (Inr (False, (?l [])\<lparr>fl_notify := False,
          fl_signals := (fl_signals (?l []))\<lparr>cbuf := [shutdownSignal]\<rparr>, fl_log := NilLog\<rparr>))"
        using closeLog_open [of "?l []"] OpenLog op by (simp add: chan_room_def)
      then show ?thesis using assms(1) buf unfolding take_signal [OF buf] by (simp add: closing_def budget_def)
    next
      case (Cons u vs)
      then have buf: "cbuf (fl_signals logger) = UserSignal # vs @ [hupSignal]" using us by simp
      show ?thesis using assms(1) us(2) buf Cons OpenLog unfolding take_signal [OF buf]
        by (simp add: reopenLog_def closing_def budget_def)
    qed
  next
    case NilLog
    then have buf: "cbuf (fl_signals logger) = [shutdownSignal]" using assms by (auto simp: closing_def)
    show ?thesis using assms(1) NilLog buf unfolding take_signal [OF buf] by (simp add: closing_def budget_def)
  next
    case NilFile
    then show ?thesis using assms(1) by (simp add: closing_def)
  qed
qed

lemma closing_turn:
  assumes "closing s" and "smooth c" and "log_step marshal (Turn c) s = Some r"
  shows "\<exists>s'. r = Inr s' \<and> closing s' \<and> budget s' < budget s"
proof -
  obtain logger where s: "s = (True, logger)" and turn: "handle_turn marshal c logger = Some r"
    using assms(3) by (cases s) (auto split: if_splits)
  show ?thesis
  proof (cases c)
    case (TakeSignal cl op)
    then show ?thesis using closing_signal [of logger marshal] assms(1,2) turn s by (auto simp del: handle_turn.simps)
  next
    case (TakeMessage now ok)
    then show ?thesis using closing_message assms(1) turn s by blast
  qed
qed

lemma closing_run:
  "closing s \<Longrightarrow> list_all smooth cs \<Longrightarrow> log_run marshal (map Turn cs) s = Some r \<Longrightarrow>
     \<exists>s'. r = Inr s' \<and> closing s' \<and> budget s' + length cs \<le> budget s"
proof (induction cs arbitrary: s)
  case Nil
  then have "r = Inr s" by simp
  then show ?case using Nil(1) by (intro exI [of _ s] conjI) simp_all
next
  case (Cons c cs)
  then obtain x where x: "log_step marshal (Turn c) s = Some x" by (cases "log_step marshal (Turn c) s") auto
  then obtain s' where s': "x = Inr s'" "closing s'" "budget s' < budget s"
    using closing_turn [OF Cons.prems(1) _ x] Cons.prems(2) by auto
  then have "\<exists>t. r = Inr t \<and> closing t \<and> budget t + length cs \<le> budget s'"
    using Cons.prems(2,3) x by (intro Cons.IH) (simp_all del: log_step.simps)
  then show ?case using s'(3) by force
qed

lemma closing_ready:
  "closing (True, logger) \<Longrightarrow> log_step marshal (Turn (TakeSignal True True)) (True, logger) \<noteq> None"
  using closing_signal [of logger marshal] by (auto simp del: handle_turn.simps)


definition sample_logger :: "nat FileLogger" where
  "sample_logger = the (NewFileLogger True ''log'' True)"

definition sample_marshal :: "nat \<Rightarrow> unit + string" where
  "sample_marshal n = (if n < 10 then Inr (replicate n CHR ''x'') else Inl ())"



text \<open>
  Closing a file logger twice crashes the program: the second request to close is handled before the
  goroutine sees its own shutdown signal, and it closes a file that is nil by then. A single \<open>Close\<close>
  crashes as well after a log rotation in which closing the old file failed.\<close>

theorem logger_double_close_panics:
  assumes "NewFileLogger True name sigusr = Some logger"
  shows "log_run marshal [CloseCall, CloseCall, Turn (TakeSignal c1 p1), Turn (TakeSignal c2 p2)] (True, logger) = Some (Inl NilDereference)
     \<and> log_run marshal [UserSignalArrives, CloseCall, Turn (TakeSignal False p1), Turn (TakeSignal c2 p2)] (True, logger) = Some (Inl NilDereference)"
  using assms
  by (auto simp: NewFileLogger_eq reopenLog_def make_chan_def FileLogger_Close_def signal_arrives_def chan_try_send_def chan_room_def
      chan_recv_def closeLog_def signalQueueLength_def split: if_splits)

theorem logger_double_close_panics_witness:
  "log_run sample_marshal [CloseCall, CloseCall, Turn (TakeSignal True True), Turn (TakeSignal True True)] (True, sample_logger)
     = Some (Inl NilDereference)"
proof -
  have "NewFileLogger True ''log'' True = Some sample_logger"
    by (simp add: sample_logger_def NewFileLogger_eq)
  from logger_double_close_panics [OF this] show ?thesis by blast
qed

end
