(* ===== verification/Program_Start.thy ===== *)
theory Program_Start
  imports Api_Handlers Cache_Proxy Event_Queue File_Logger
begin

text \<open>
  \<open>cmd/restreamer/restreamer.go\<close>: the program start, which builds all components from the configuration
  and connects them.

  What the operating system and the parsers answer is an argument, the record \<open>start_env\<close>. The
  result is the set of handlers by path, the clients, the statistics and the event queue at the moment
  the HTTP server starts to listen, or the reason why the program ends. Goroutines are not run: the
  upstream client, the streamer, the fetcher of a proxy and the loop of the queue start from the states
  that are built here. \<open>EnableProfiling\<close> and the Go runtime metrics have no effect on them.
\<close>

section \<open>Environment and state\<close>

record start_env =
  en_url :: "string \<Rightarrow> unit + url"
  en_note_url :: "string \<Rightarrow> unit + string"
  en_interface :: "string \<Rightarrow> unit + string"
  en_preamble :: "string \<Rightarrow> bytes"
  en_draws :: "nat \<Rightarrow> nat \<Rightarrow> nat"
  en_log_opens :: bool

datatype route =
    StreamRoute Streamer
  | ProxyRoute Proxy
  | HealthRoute Authenticator
  | StatisticsRoute Authenticator
  | CheckRoute string Authenticator
  | ControlRoute string Authenticator
  | PrometheusRoute Authenticator

record server =
  sv_clients :: "string \<rightharpoonup> bytes list Client"
  sv_stats :: Statistics
  sv_routes :: "(string \<times> route) list"
  sv_count :: nat

text \<open>A handler of the event queue is a pointer, here the number of its notification, and \<open>None\<close> the nil
  pointer; a store has the handlers.\<close>

type_synonym note_handler = "nat option"

record note_state =
  ns_queue :: "note_handler Queue"
  ns_store :: "nat \<rightharpoonup> UrlHandler"
  ns_heartbeat :: bool

section \<open>Notifications\<close>

definition event_type :: "string \<Rightarrow> Type option" where
  "event_type e =
     (if e = ''limit_hit'' then Some TypeLimitHit
      else if e = ''limit_miss'' then Some TypeLimitMiss
      else if e = ''heartbeat'' then Some TypeHeartbeat
      else None)"

text \<open>One turn of the loop over the notifications. The error of \<open>NewUrlHandler\<close> is assigned to a variable
  of the inner block, so it does not prevent the registration.\<close>

definition setup_notification ::
  "start_env \<Rightarrow> Configuration \<Rightarrow> nat \<times> Notification \<Rightarrow> note_state \<Rightarrow> note_state" where
  "setup_notification env config inote st =
     (case inote of (i, note) \<Rightarrow>
        let typ = event_type (note_Event note);
            (handler, store) =
              (if note_Type note = ''url''
               then (case NewUrlHandler (en_note_url env) (note_Url note)
                            (NewUserAuthenticator (note_Authentication note)
                              (NewAuthenticator (note_Authentication note) (UserList config))) of
                       Inr urlhandler \<Rightarrow> (Some i, (ns_store st)(i \<mapsto> urlhandler))
                     | Inl err \<Rightarrow> (None, ns_store st))
               else (None, ns_store st))
        in case typ of
             None \<Rightarrow> st
           | Some t \<Rightarrow>
               if note_Type note = ''url''
               then \<lparr>ns_queue = RegisterEventHandler t handler (ns_queue st), ns_store = store,
                     ns_heartbeat = ns_heartbeat st \<or> t = TypeHeartbeat\<rparr>
               else st)"

definition setup_notifications ::
  "start_env \<Rightarrow> Configuration \<Rightarrow> note_handler Queue \<Rightarrow> note_state" where
  "setup_notifications env config queue =
     fold (setup_notification env config) (enumerate 0 (Notifications config))
       \<lparr>ns_queue = queue, ns_store = Map.empty, ns_heartbeat = False\<rparr>"

text \<open>A call of a handler by the queue.\<close>

definition invoke :: "(nat \<rightharpoonup> UrlHandler) \<Rightarrow> note_handler call \<Rightarrow> (string \<times> header) go" where
  "invoke store c =
     (case Option.bind (call_handler c) store of None \<Rightarrow> Inl NilDereference | Some handler \<Rightarrow> Inr (HandleEvent handler))"

section \<open>Resources\<close>

text \<open>\<open>ServeMux.Handle\<close> panics on an empty and on a repeated pattern.\<close>

definition mux_Handle :: "string \<Rightarrow> route \<Rightarrow> server \<Rightarrow> server go" where
  "mux_Handle pattern handler sv =
     (if pattern = [] then Inl (ExplicitPanic ''http: invalid pattern'')
      else if pattern \<in> fst ` set (sv_routes sv) then Inl (ExplicitPanic ''http: multiple registrations'')
      else Inr (sv\<lparr>sv_routes := sv_routes sv @ [(pattern, handler)]\<rparr>))"

definition set_collector :: "Collector \<Rightarrow> Streamer \<Rightarrow> Streamer" where
  "set_collector reg streamer = (case reg of Some c \<Rightarrow> SetCollector c streamer | None \<Rightarrow> streamer)"

definition setup_streamer :: "start_env \<Rightarrow> Configuration \<Rightarrow> Resource \<Rightarrow> Collector \<Rightarrow> Streamer" where
  "setup_streamer env config streamdef reg =
     (let authenticator = NewAuthenticator (res_Authentication streamdef) (UserList config);
          streamer = NewStreamer (res_Serve streamdef) (unat (OutputBuffer config)) authenticator;
          streamer = SetNotifier (set_collector reg streamer)
      in if res_Preamble streamdef \<noteq> [] then SetPreamble (en_preamble env (res_Preamble streamdef)) streamer
         else streamer)"

definition setup_client :: "start_env \<Rightarrow> Configuration \<Rightarrow> nat \<Rightarrow> Resource \<Rightarrow> unit client_error + bytes list Client" where
  "setup_client env config i streamdef =
     NewClient (en_url env) (en_interface env) (res_Serve streamdef)
       (ShuffleStrings (en_draws env i) (res_Remotes streamdef))
       (unat (Reconnect config)) (unat (ReadTimeout config)) (unat (InputBuffer config))
       (res_ClientInterface streamdef) (unat (InputBuffer config)) (unat (res_Mru streamdef))"

definition setup_stream :: "start_env \<Rightarrow> Configuration \<Rightarrow> nat \<Rightarrow> Resource \<Rightarrow> server \<Rightarrow> server go" where
  "setup_stream env config i streamdef sv =
     (case iface_RegisterStream (res_Serve streamdef) (sv_stats sv) of
        (reg, stats) \<Rightarrow>
          let streamer = setup_streamer env config streamdef reg;
              sv = sv\<lparr>sv_stats := stats\<rparr>
          in case setup_client env config i streamdef of
               Inl err \<Rightarrow> Inr sv
             | Inr client \<Rightarrow>
                 go_bind (mux_Handle (res_Serve streamdef) (StreamRoute streamer)
                            (sv\<lparr>sv_clients := (sv_clients sv)(res_Serve streamdef \<mapsto> Client_SetCollector reg client)\<rparr>))
                   (\<lambda>sv. Inr (sv\<lparr>sv_count := sv_count sv + 1\<rparr>)))"

definition setup_static :: "start_env \<Rightarrow> Configuration \<Rightarrow> Resource \<Rightarrow> server \<Rightarrow> server go" where
  "setup_static env config streamdef sv =
     (let authenticator = NewAuthenticator (res_Authentication streamdef) (UserList config)
      in case NewProxy (en_url env) (res_Remote streamdef) (unat (Timeout config)) (unat (res_Cache streamdef)) authenticator of
           Inl err \<Rightarrow> Inr sv
         | Inr proxy \<Rightarrow> mux_Handle (res_Serve streamdef) (ProxyRoute (SetStatistics (sv_stats sv) proxy)) sv)"

definition setup_api :: "Configuration \<Rightarrow> Resource \<Rightarrow> server \<Rightarrow> server go" where
  "setup_api config streamdef sv =
     (let authenticator = NewAuthenticator (res_Authentication streamdef) (UserList config);
          remote = res_Remote streamdef;
          serve = res_Serve streamdef
      in if res_Api streamdef = ''health'' then mux_Handle serve (HealthRoute authenticator) sv
         else if res_Api streamdef = ''statistics'' then mux_Handle serve (StatisticsRoute authenticator) sv
         else if res_Api streamdef = ''check'' then
           (if sv_clients sv remote \<noteq> None then mux_Handle serve (CheckRoute remote authenticator) sv else Inr sv)
         else if res_Api streamdef = ''control'' then
           (if sv_clients sv remote \<noteq> None then mux_Handle serve (ControlRoute remote authenticator) sv else Inr sv)
         else if res_Api streamdef = ''prometheus'' then mux_Handle serve (PrometheusRoute authenticator) sv
         else Inr sv)"

definition setup_resource :: "start_env \<Rightarrow> Configuration \<Rightarrow> nat \<times> Resource \<Rightarrow> server \<Rightarrow> server go" where
  "setup_resource env config ir sv =
     (case ir of (i, streamdef) \<Rightarrow>
        if res_Type streamdef = ''stream'' then setup_stream env config i streamdef sv
        else if res_Type streamdef = ''static'' then setup_static env config streamdef sv
        else if res_Type streamdef = ''api'' then setup_api config streamdef sv
        else Inr sv)"

section \<open>main\<close>

datatype start_result =
    Fatal string
  | ListenAndServe string server AccessController note_state "Heartbeat option"

definition new_server :: "Configuration \<Rightarrow> server" where
  "new_server config =
     \<lparr>sv_clients = Map.empty,
      sv_stats = (if NoStats config then DummyStatistics
                  else RealStatistics (NewStatistics (Configuration.MaxConnections config) (Configuration.FullConnections config))),
      sv_routes = [], sv_count = 0\<rparr>"

text \<open>The event queue with its heartbeat.\<close>

definition start_queue :: "start_env \<Rightarrow> Configuration \<Rightarrow> (note_state \<times> Heartbeat option) go" where
  "start_queue env config =
     go_bind (NewQueue (sint (Configuration.FullConnections config))) (\<lambda>queue.
       let notes = setup_notifications env config queue
       in go_bind (if ns_heartbeat notes
                   then map_sum id Some (NewHeartbeat (wrap64 (uint (HeartbeatInterval config) * second)))
                   else Inr None)
            (\<lambda>heartbeat. Inr (notes\<lparr>ns_queue := Start (ns_queue notes)\<rparr>, heartbeat)))"

text \<open>The start after the configuration has been loaded.\<close>

definition start_server :: "start_env \<Rightarrow> Configuration \<Rightarrow> start_result go" where
  "start_server env config =
     (if Log config \<noteq> [] \<and> (NewFileLogger (en_log_opens env) (Log config) True :: unit FileLogger option) = None
      then Inr (Fatal ''Error opening log: '')
      else
        go_bind (start_queue env config) (\<lambda>(notes, heartbeat).
          go_bind (go_foreach (setup_resource env config) (enumerate 0 (Resources config)) (new_server config)) (\<lambda>sv.
            if sv_count sv = 0 then Inr (Fatal ''No streams available'')
            else Inr (ListenAndServe (Listen config) (sv\<lparr>sv_stats := iface_Start (sv_stats sv)\<rparr>)
                        (NewAccessController (Configuration.MaxConnections config)) notes heartbeat))))"

text \<open>\<open>loaded\<close> is what \<open>LoadConfigurationFile\<close> returns.\<close>

definition main :: "start_env \<Rightarrow> ('e + Configuration) go \<Rightarrow> start_result go" where
  "main env loaded =
     go_bind loaded (\<lambda>r. case r of
        Inl err \<Rightarrow> Inr (Fatal ''Error parsing configuration: '')
      | Inr config \<Rightarrow> start_server env config)"

section \<open>Properties\<close>

fun is_stream :: "route \<Rightarrow> bool" where
  "is_stream (StreamRoute s) = True"
| "is_stream _ = False"

fun refers_to :: "route \<Rightarrow> string set" where
  "refers_to (CheckRoute name a) = {name}"
| "refers_to (ControlRoute name a) = {name}"
| "refers_to _ = {}"

definition stream_paths :: "server \<Rightarrow> string set" where
  "stream_paths sv = {p. \<exists>s. (p, StreamRoute s) \<in> set (sv_routes sv)}"

text \<open>\<open>wired\<close>: the routes have distinct paths that are not empty, each from a resource of the
  configuration; those of streams are the paths of the clients; a check or control API refers to a
  client.\<close>

definition route_ok :: "start_env \<Rightarrow> Configuration \<Rightarrow> string set \<Rightarrow> string \<Rightarrow> route \<Rightarrow> bool" where
  "route_ok env config clients p rt \<longleftrightarrow>
     refers_to rt \<subseteq> clients
     \<and> (\<exists>r \<in> set (Resources config). res_Serve r = p
          \<and> (\<forall>s. rt = StreamRoute s \<longrightarrow> res_Type r = ''stream'' \<and> (\<exists>reg. s = setup_streamer env config r reg)))"

definition wired :: "start_env \<Rightarrow> Configuration \<Rightarrow> server \<Rightarrow> bool" where
  "wired env config sv \<longleftrightarrow>
     distinct (map fst (sv_routes sv)) \<and> [] \<notin> fst ` set (sv_routes sv)
     \<and> sv_count sv = length (filter (is_stream \<circ> snd) (sv_routes sv))
     \<and> dom (sv_clients sv) = stream_paths sv
     \<and> (\<forall>p rt. (p, rt) \<in> set (sv_routes sv) \<longrightarrow> route_ok env config (stream_paths sv) p rt)"

lemma route_ok_mono: "route_ok env config A p rt \<Longrightarrow> A \<subseteq> B \<Longrightarrow> route_ok env config B p rt"
  by (auto simp: route_ok_def)

lemma mux_Handle_Inr:
  assumes "mux_Handle p rt sv = Inr sv'"
  shows "p \<noteq> [] \<and> p \<notin> fst ` set (sv_routes sv) \<and> sv' = sv\<lparr>sv_routes := sv_routes sv @ [(p, rt)]\<rparr>"
  using assms by (auto simp: mux_Handle_def split: if_splits)

lemma wired_new: "wired env config (new_server config)"
  by (simp add: wired_def new_server_def stream_paths_def)

lemma wired_stats: "wired env config sv \<Longrightarrow> wired env config (sv\<lparr>sv_stats := st\<rparr>)"
  by (simp add: wired_def stream_paths_def)

lemma wired_route:
  assumes "wired env config sv" and "mux_Handle (res_Serve r) rt sv = Inr sv'" and "r \<in> set (Resources config)"
    and "\<not> is_stream rt" and "refers_to rt \<subseteq> dom (sv_clients sv)"
  shows "wired env config sv'"
proof -
  note m = mux_Handle_Inr [OF assms(2)]
  have paths: "stream_paths sv' = stream_paths sv" using m assms(4) by (auto simp: stream_paths_def)
  have "route_ok env config (stream_paths sv) (res_Serve r) rt"
    using assms by (auto simp: route_ok_def wired_def)
  then show ?thesis using assms(1,4) m unfolding wired_def paths by auto
qed

lemma wired_stream:
  assumes "wired env config sv" and "setup_stream env config i r sv = Inr sv'" and "r \<in> set (Resources config)"
    and "res_Type r = ''stream''"
  shows "wired env config sv'"
proof (cases "setup_client env config i r")
  case (Inl err)
  then show ?thesis using assms wired_stats by (auto simp: setup_stream_def Let_def split: prod.splits)
next
  case (Inr client)
  obtain reg stats where reg: "iface_RegisterStream (res_Serve r) (sv_stats sv) = (reg, stats)" by fastforce
  let ?s = "setup_streamer env config r reg"
  from Inr reg assms(2) obtain sv1 where
    m: "mux_Handle (res_Serve r) (StreamRoute ?s) (sv\<lparr>sv_stats := stats, sv_clients := (sv_clients sv)(res_Serve r \<mapsto> Client_SetCollector reg client)\<rparr>) = Inr sv1"
    and sv': "sv' = sv1\<lparr>sv_count := sv_count sv1 + 1\<rparr>"
    by (auto simp: setup_stream_def Let_def go_bind_Inr_conv)
  note m' = mux_Handle_Inr [OF m]
  have paths: "stream_paths sv' = insert (res_Serve r) (stream_paths sv)" using m' sv' by (auto simp: stream_paths_def)
  have flds: "sv_routes sv' = sv_routes sv @ [(res_Serve r, StreamRoute ?s)]" "sv_count sv' = sv_count sv + 1"
    "dom (sv_clients sv') = insert (res_Serve r) (dom (sv_clients sv))"
    using m' sv' by simp_all
  have "route_ok env config (stream_paths sv') (res_Serve r) (StreamRoute ?s)"
    using assms(3,4) by (auto simp: route_ok_def)
  moreover have "route_ok env config (stream_paths sv) p rt \<Longrightarrow> route_ok env config (stream_paths sv') p rt" for p rt
    by (rule route_ok_mono) (auto simp: paths)
  ultimately have "\<forall>p rt. (p, rt) \<in> set (sv_routes sv') \<longrightarrow> route_ok env config (stream_paths sv') p rt"
    using assms(1) flds(1) unfolding wired_def by auto
  then show ?thesis using assms(1) m' flds paths unfolding wired_def by auto
qed

lemma wired_resource:
  assumes "wired env config sv" and "setup_resource env config (i, r) sv = Inr sv'" and "r \<in> set (Resources config)"
  shows "wired env config sv'"
proof -
  consider (stream) "res_Type r = ''stream''" | (static) "res_Type r = ''static''" | (api) "res_Type r = ''api''"
    | (other) "sv' = sv"
    using assms(2) by (auto simp: setup_resource_def split: if_splits)
  then show ?thesis
  proof cases
    case stream
    then show ?thesis using wired_stream [OF assms(1) _ assms(3)] assms(2) by (simp add: setup_resource_def)
  next
    case static
    then have "sv' = sv \<or> (\<exists>proxy. mux_Handle (res_Serve r) (ProxyRoute proxy) sv = Inr sv')"
      using assms(2) by (auto simp: setup_resource_def setup_static_def Let_def split: sum.splits)
    then show ?thesis using wired_route [OF assms(1) _ assms(3)] assms(1) by fastforce
  next
    case api
    then have "sv' = sv \<or> (\<exists>rt. mux_Handle (res_Serve r) rt sv = Inr sv' \<and> \<not> is_stream rt \<and> refers_to rt \<subseteq> dom (sv_clients sv))"
      using assms(2) by (fastforce simp: setup_resource_def setup_api_def Let_def split: if_splits)
    then show ?thesis using wired_route [OF assms(1) _ assms(3)] assms(1) by blast
  qed (use assms(1) in simp)
qed

lemma wired_resources:
  assumes "go_foreach (setup_resource env config) (enumerate 0 (Resources config)) (new_server config) = Inr sv"
  shows "wired env config sv"
proof -
  let ?I = "\<lambda>(todo :: (nat \<times> Resource) list) sv. snd ` set todo \<subseteq> set (Resources config) \<and> wired env config sv"
  have "?I [] sv"
  proof (rule go_foreach_invariant [OF assms, where I = ?I])
    show "?I (enumerate 0 (Resources config)) (new_server config)"
      by (auto simp: wired_new in_set_enumerate_eq)
    show "?I ys v" if "?I (x # ys) u" "setup_resource env config x u = Inr v" for x ys u v
      using that wired_resource [of env config u "fst x" "snd x" v] by auto
  qed
  then show ?thesis by simp
qed

lemma setup_streamer_fields:
  "str_name (setup_streamer env config r reg) = res_Serve r"
  "str_running (setup_streamer env config r reg) = AtomicFalse"
  "str_events (setup_streamer env config r reg)"
  "str_queueSize (setup_streamer env config r reg) = unat (OutputBuffer config)"
  "str_auth (setup_streamer env config r reg) = NewAuthenticator (res_Authentication r) (UserList config)"
  "str_preamble (setup_streamer env config r reg) = (if res_Preamble r = [] then [] else en_preamble env (res_Preamble r))"
  by (simp_all add: setup_streamer_def Let_def SetPreamble_def SetNotifier_def SetCollector_def set_collector_def NewStreamer_def
      split: option.split)

lemma start_server_Serve:
  assumes "start_server env config = Inr (ListenAndServe listen sv acl queue heartbeat)"
  obtains sv0 where "go_foreach (setup_resource env config) (enumerate 0 (Resources config)) (new_server config) = Inr sv0"
    and "sv = sv0\<lparr>sv_stats := iface_Start (sv_stats sv0)\<rparr>" and "sv_count sv0 \<noteq> 0"
    and "acl = NewAccessController (Configuration.MaxConnections config)" and "listen = Listen config"
  using assms by (auto simp: start_server_def go_bind_Inr_conv split: if_splits)

lemma main_Serve:
  assumes "main env (Inr (Inr config)) = Inr (ListenAndServe listen sv acl queue heartbeat)"
  shows "wired env config sv" and "sv_count sv \<noteq> 0"
    and "acl = NewAccessController (Configuration.MaxConnections config)" and "listen = Listen config"
proof -
  have "start_server env config = Inr (ListenAndServe listen sv acl queue heartbeat)" using assms by (simp add: main_def)
  then obtain sv0 where sv0: "go_foreach (setup_resource env config) (enumerate 0 (Resources config)) (new_server config) = Inr sv0"
    and sv: "sv = sv0\<lparr>sv_stats := iface_Start (sv_stats sv0)\<rparr>" "sv_count sv0 \<noteq> 0"
    and acl: "acl = NewAccessController (Configuration.MaxConnections config)" "listen = Listen config"
    by (rule start_server_Serve)
  show "wired env config sv" using wired_stats [OF wired_resources [OF sv0]] sv(1) by simp
  show "sv_count sv \<noteq> 0" using sv by simp
  show "acl = NewAccessController (Configuration.MaxConnections config)" "listen = Listen config" by (rule acl)+
qed

lemma served_streamer:
  assumes "wired env config sv" and "(p, StreamRoute s) \<in> set (sv_routes sv)"
  shows "\<exists>r \<in> set (Resources config). res_Type r = ''stream'' \<and> res_Serve r = p
        \<and> str_auth s = NewAuthenticator (res_Authentication r) (UserList config)
        \<and> str_preamble s = (if res_Preamble r = [] then [] else en_preamble env (res_Preamble r))"
    and "str_name s = p \<and> str_running s = AtomicFalse \<and> str_events s \<and> str_queueSize s = unat (OutputBuffer config)"
proof -
  obtain r reg where "r \<in> set (Resources config)" "res_Serve r = p" "res_Type r = ''stream''" "s = setup_streamer env config r reg"
    using assms unfolding wired_def route_ok_def by blast
  then show "\<exists>r \<in> set (Resources config). res_Type r = ''stream'' \<and> res_Serve r = p
        \<and> str_auth s = NewAuthenticator (res_Authentication r) (UserList config)
        \<and> str_preamble s = (if res_Preamble r = [] then [] else en_preamble env (res_Preamble r))"
    and "str_name s = p \<and> str_running s = AtomicFalse \<and> str_events s \<and> str_queueSize s = unat (OutputBuffer config)"
    using setup_streamer_fields by auto
qed

text \<open>
  C32. What a successful start builds. At least one stream is served; all handlers have different paths,
  none of them empty, and come from resources of the configuration. Exactly the served streams have an
  upstream client, and the check and control APIs refer to such clients. Every streamer is named after
  its path, is not running, has a notifier, the configured queue size, and the authenticator and
  preamble of its resource, and all share one access controller with the configured maximum.\<close>

theorem main_wiring:
  assumes "main env (Inr (Inr config)) = Inr (ListenAndServe listen sv acl queue heartbeat)"
  shows "listen = Listen config \<and> acl = NewAccessController (Configuration.MaxConnections config)
     \<and> 0 < length (filter (is_stream \<circ> snd) (sv_routes sv))
     \<and> distinct (map fst (sv_routes sv)) \<and> [] \<notin> fst ` set (sv_routes sv)
     \<and> dom (sv_clients sv) = {p. \<exists>s. (p, StreamRoute s) \<in> set (sv_routes sv)}
     \<and> (\<forall>(p, rt) \<in> set (sv_routes sv). refers_to rt \<subseteq> dom (sv_clients sv) \<and> (\<exists>r \<in> set (Resources config). res_Serve r = p))
     \<and> (\<forall>(p, rt) \<in> set (sv_routes sv). \<forall>s. rt = StreamRoute s \<longrightarrow>
          (\<exists>r \<in> set (Resources config). res_Type r = ''stream'' \<and> res_Serve r = p
             \<and> str_auth s = NewAuthenticator (res_Authentication r) (UserList config)
             \<and> str_preamble s = (if res_Preamble r = [] then [] else en_preamble env (res_Preamble r)))
          \<and> str_name s = p \<and> str_running s = AtomicFalse \<and> str_events s \<and> str_queueSize s = unat (OutputBuffer config))"
proof -
  note m = main_Serve [OF assms]
  have "refers_to rt \<subseteq> dom (sv_clients sv) \<and> (\<exists>r \<in> set (Resources config). res_Serve r = p)"
    if "(p, rt) \<in> set (sv_routes sv)" for p rt
    using m(1) that unfolding wired_def route_ok_def by blast
  moreover have "0 < length (filter (is_stream \<circ> snd) (sv_routes sv))" using m(1,2) by (auto simp: wired_def)
  moreover have "distinct (map fst (sv_routes sv))" "[] \<notin> fst ` set (sv_routes sv)" "dom (sv_clients sv) = stream_paths sv"
    using m(1) by (simp_all add: wired_def)
  ultimately show ?thesis using m(3,4) served_streamer [OF m(1)] unfolding stream_paths_def by blast
qed

definition sample_env :: start_env where
  "sample_env = \<lparr>en_url = (\<lambda>_. Inr sample_url), en_note_url = (\<lambda>_. Inl ()), en_interface = (\<lambda>_. Inl ()),
     en_preamble = (\<lambda>_. [1, 2]), en_draws = (\<lambda>_ _. 0), en_log_opens = True\<rparr>"

definition no_authentication :: Authentication where
  "no_authentication = \<lparr>auth_Type = [], auth_Realm = [], auth_User = [], auth_Users = []\<rparr>"

definition sample_resource_of :: "string \<Rightarrow> string \<Rightarrow> string \<Rightarrow> Resource" where
  "sample_resource_of typ serve remote = \<lparr>res_Type = typ, res_Api = ''check'', res_Serve = serve, res_Remote = remote,
     res_Remotes = [remote], res_ClientInterface = [], res_Cache = 0, res_Authentication = no_authentication,
     res_Mru = 1500, res_Preamble = ''p''\<rparr>"

definition sample_config :: Configuration where
  "sample_config = DefaultConfiguration\<lparr>Resources :=
     [sample_resource_of ''stream'' ''/a'' ''http://a'', sample_resource_of ''api'' ''/b'' ''/a'']\<rparr>"

fun listens :: "start_result go \<Rightarrow> bool" where
  "listens (Inr (ListenAndServe l sv acl q hb)) = True"
| "listens _ = False"

lemma sample_listens: "listens (start_server sample_env sample_config)"
  by code_simp

lemma sample_main:
  obtains sv acl queue hb where
    "main sample_env (Inr (Inr sample_config) :: (unit + Configuration) go) = Inr (ListenAndServe ''localhost:http'' sv acl queue hb)"
proof -
  obtain l sv acl queue hb where r: "start_server sample_env sample_config = Inr (ListenAndServe l sv acl queue hb)"
    using sample_listens by (cases "start_server sample_env sample_config" rule: listens.cases) auto
  then have "l = ''localhost:http''"
    by (rule start_server_Serve) (simp add: sample_config_def DefaultConfiguration_def)
  with r that show ?thesis by (simp add: main_def)
qed

theorem main_wiring_witness:
  "\<exists>sv acl queue hb. main sample_env (Inr (Inr sample_config) :: (unit + Configuration) go)
       = Inr (ListenAndServe ''localhost:http'' sv acl queue hb)
     \<and> acl = NewAccessController 0 \<and> 0 < length (filter (is_stream \<circ> snd) (sv_routes sv))"
proof -
  obtain sv acl queue hb where
    m: "main sample_env (Inr (Inr sample_config) :: (unit + Configuration) go) = Inr (ListenAndServe ''localhost:http'' sv acl queue hb)"
    by (rule sample_main)
  from main_wiring [OF m] have "acl = NewAccessController (Configuration.MaxConnections sample_config)"
    "0 < length (filter (is_stream \<circ> snd) (sv_routes sv))" by blast+
  with m show ?thesis by (auto simp: sample_config_def DefaultConfiguration_def)
qed

text \<open>
  Two resources with the same path make the start panic: after a stream has been set up under a
  path, another stream under this path (with a URL that parses) is refused by the HTTP multiplexer with
  a panic.\<close>

theorem duplicate_path_panics:
  assumes "sv_clients sv (res_Serve r) \<noteq> None" and "wired env config sv"
    and "res_Type r = ''stream''" and "setup_client env config i r = Inr client"
  shows "\<exists>msg. setup_resource env config (i, r) sv = Inl (ExplicitPanic msg)"
proof -
  have "res_Serve r \<in> fst ` set (sv_routes sv)"
    using assms(1,2) unfolding wired_def stream_paths_def by force
  then show ?thesis using assms(3,4)
    by (auto simp: setup_resource_def setup_stream_def mux_Handle_def Let_def split: prod.splits)
qed

text \<open>
  A notification whose URL does not parse is registered all the same, with a nil handler: the
  heartbeat it was meant for then crashes the event queue.\<close>

theorem invalid_notification_panics:
  assumes "event_type (note_Event note) = Some TypeHeartbeat" and "note_Type note = ''url''"
    and "en_note_url env (note_Url note) = Inl err" and "\<not> q_running (ns_queue st)"
  shows "ns_heartbeat (setup_notification env config (i, note) st)
     \<and> (\<exists>c \<in> set (snd (handleHeartbeat now (ns_queue (setup_notification env config (i, note) st)))).
          invoke (ns_store (setup_notification env config (i, note) st)) c = Inl NilDereference)"
proof -
  let ?q = "RegisterEventHandler TypeHeartbeat None (ns_queue st)"
  have st: "setup_notification env config (i, note) st = \<lparr>ns_queue = ?q, ns_store = ns_store st, ns_heartbeat = True\<rparr>"
    using assms by (simp add: setup_notification_def NewUrlHandler_def)
  have "(None, True) \<in> set (the (q_handlers ?q TypeHeartbeat))" "q_handlers ?q TypeHeartbeat \<noteq> None"
    using assms(4) by (auto simp: RegisterEventHandler_def Let_def)
  then show ?thesis unfolding st
    by (force simp: handleHeartbeat_def notify_handlers_def invoke_def)
qed

definition sample_note :: Notification where
  "sample_note = \<lparr>note_Event = ''heartbeat'', note_Type = ''url'', note_Url = '':'', note_Authentication = no_authentication\<rparr>"

definition idle_notes :: note_state where
  "idle_notes = \<lparr>ns_queue = \<lparr>q_limit = 0, q_handlers = Map.empty, q_notifier = None, q_connections = 0, q_shutdown = None,
     q_running = False, q_waiter = 0\<rparr>, ns_store = Map.empty, ns_heartbeat = False\<rparr>"

theorem invalid_notification_panics_witness:
  "\<exists>c \<in> set (snd (handleHeartbeat 7 (ns_queue (setup_notification sample_env sample_config (0, sample_note) idle_notes)))).
     invoke (ns_store (setup_notification sample_env sample_config (0, sample_note) idle_notes)) c = Inl NilDereference"
proof -
  have "event_type (note_Event sample_note) = Some TypeHeartbeat" "note_Type sample_note = ''url''"
    "en_note_url sample_env (note_Url sample_note) = Inl ()" "\<not> q_running (ns_queue idle_notes)"
    by (simp_all add: sample_note_def event_type_def sample_env_def idle_notes_def)
  from invalid_notification_panics [OF this] show ?thesis by blast
qed

end
