(* ===== verification/Stream_System.thy ===== *)
theory Stream_System
  imports Streamer
begin

text \<open>
  A streamer at work: the goroutines of \<open>streaming/streamer.go\<close> and their interleavings.

  \<^item> command eaters (\<open>eatCommands\<close>), of which only the number matters;
  \<^item> calls of \<open>Stream\<close> that have set the running flag and are blocked on sending their start request;
  \<^item> streaming loops, each with its input queue, its local variables and its place in the code;
  \<^item> HTTP handlers (\<open>ServeHTTP\<close>), each with its connection and its place in the code;
  \<^item> the broker, which other streamers use as well.

  A request on the unbuffered channel \<open>request\<close> is one step of its sender and of its receiver, an eater
  or a loop that is waiting in its \<open>select\<close>. An action is one step of one goroutine (or of one such
  pair); \<open>sys_step\<close> has the value \<open>None\<close> when the action is not possible in a state, \<open>Inl\<close> of a panic,
  which ends the program, or \<open>Inr\<close> of the next state. The history variables \<open>sy_seen\<close> (the packets the
  loops took from their input) and \<open>sy_sent\<close> (the packets put into the queue of a connection) are
  never read by a step.
\<close>

datatype loop_pc =
    InLoop
  | Distributing bytes "nat list"
  | CleaningUp "nat list"

record stream_thread =
  th_queue :: "bytes chan"
  th_vars :: stream_vars
  th_pc :: loop_pc

datatype handler_pc =
    HAdd
  | HAccepted
  | HServe
  | HRemove
  | HDrain
  | HRelease
  | HDone

record 'b system =
  sy_str :: Streamer
  sy_broker :: 'b
  sy_others :: nat
  sy_conns :: store
  sy_pc :: "nat \<rightharpoonup> handler_pc"
  sy_threads :: "stream_thread list"
  sy_starting :: "bytes chan list"
  sy_eaters :: nat
  sy_notified :: "int list"
  sy_seen :: "bytes list"
  sy_sent :: "nat \<Rightarrow> bytes list"

text \<open>A new streamer has one eater and nothing else.\<close>

definition sys_init :: "Streamer \<Rightarrow> 'b \<Rightarrow> 'b system" where
  "sys_init str b = \<lparr>sy_str = str, sy_broker = b, sy_others = 0, sy_conns = Map.empty, sy_pc = Map.empty,
     sy_threads = [], sy_starting = [], sy_eaters = 1, sy_notified = [], sy_seen = [], sy_sent = (\<lambda>_. [])\<rparr>"

definition set_pc :: "nat \<Rightarrow> handler_pc \<Rightarrow> 'b system \<Rightarrow> 'b system" where
  "set_pc h pc s = s\<lparr>sy_pc := (sy_pc s)(h \<mapsto> pc)\<rparr>"

definition set_conn :: "nat \<Rightarrow> Connection \<Rightarrow> 'b system \<Rightarrow> 'b system" where
  "set_conn h conn s = s\<lparr>sy_conns := (sy_conns s)(h \<mapsto> conn)\<rparr>"

definition set_thread :: "nat \<Rightarrow> stream_thread \<Rightarrow> 'b system \<Rightarrow> 'b system" where
  "set_thread i th s = s\<lparr>sy_threads := (sy_threads s)[i := th]\<rparr>"

definition thread_at :: "nat \<Rightarrow> 'b system \<Rightarrow> stream_thread option" where
  "thread_at i s = (if i < length (sy_threads s) then Some (sy_threads s ! i) else None)"

definition new_thread :: "bytes chan \<Rightarrow> stream_thread" where
  "new_thread q = \<lparr>th_queue = q, th_vars = stream_vars_init, th_pc = InLoop\<rparr>"

section \<open>Stream\<close>

text \<open>A call of \<open>Stream\<close>, up to the start request. When the flag is set already the call returns
  \<open>ErrAlreadyRunning\<close>.\<close>

definition do_StreamCall :: "bytes chan \<Rightarrow> 'b system \<Rightarrow> 'b system go option" where
  "do_StreamCall queue s =
     (case CompareAndSwapBool False True (str_running (sy_str s)) of
        (False, _) \<Rightarrow> Some (Inr s)
      | (True, r) \<Rightarrow> Some (Inr (s\<lparr>sy_str := (sy_str s)\<lparr>str_running := r\<rparr>,
                                 sy_starting := sy_starting s @ [queue]\<rparr>)))"

text \<open>The start request of the blocked call \<open>j\<close> is received by an eater, which ends, or by the loop of
  thread \<open>i\<close>, which ignores it. The call goes on to its own loop.\<close>

definition do_EatStart :: "nat \<Rightarrow> 'b system \<Rightarrow> 'b system go option" where
  "do_EatStart j s =
     (if sy_eaters s > 0 \<and> j < length (sy_starting s)
      then Some (Inr (s\<lparr>sy_eaters := (if eat_request start_request then sy_eaters s else sy_eaters s - 1),
                         sy_starting := remove_nth j (sy_starting s),
                         sy_threads := sy_threads s @ [new_thread (sy_starting s ! j)]\<rparr>))
      else None)"

definition do_LoopStart :: "nat \<Rightarrow> nat \<Rightarrow> 'b system \<Rightarrow> 'b system go option" where
  "do_LoopStart i j s =
     (case thread_at i s of
        None \<Rightarrow> None
      | Some th \<Rightarrow>
          if th_pc th = InLoop \<and> j < length (sy_starting s)
          then Some (Inr (s\<lparr>sy_starting := remove_nth j (sy_starting s),
                             sy_threads := sy_threads s @ [new_thread (sy_starting s ! j)]\<rparr>))
          else None)"

text \<open>The loop takes a packet from its input; \<open>order\<close> is the order in which the pool is iterated.\<close>

definition do_LoopPacket :: "nat \<Rightarrow> nat list \<Rightarrow> 'b system \<Rightarrow> 'b system go option" where
  "do_LoopPacket i order s =
     (case thread_at i s of
        None \<Rightarrow> None
      | Some th \<Rightarrow>
          if th_pc th = InLoop \<and> distinct order \<and> set order = set (sl_pool (th_vars th))
          then (case chan_recv (th_queue th) of
                  Some (Some packet, q) \<Rightarrow>
                    Some (Inr ((set_thread i (th\<lparr>th_queue := q, th_pc := Distributing packet order\<rparr>) s)
                                 \<lparr>sy_seen := sy_seen s @ [packet]\<rparr>))
                | _ \<Rightarrow> None)
          else None)"

definition do_Distribute :: "nat \<Rightarrow> 'b system \<Rightarrow> 'b system go option" where
  "do_Distribute i s =
     (case thread_at i s of
        None \<Rightarrow> None
      | Some th \<Rightarrow>
          (case th_pc th of
             Distributing packet (c # todo) \<Rightarrow>
               Some (go_bind (distribute1 packet c (sy_conns s, sy_str s))
                 (\<lambda>(conns, str). Inr ((set_thread i (th\<lparr>th_pc := Distributing packet todo\<rparr>) s)
                    \<lparr>sy_conns := conns, sy_str := str,
                     sy_sent := (if has_room (sy_conns s) c
                                 then (sy_sent s)(c := sy_sent s c @ [packet]) else sy_sent s)\<rparr>)))
           | Distributing packet [] \<Rightarrow> Some (Inr (set_thread i (th\<lparr>th_pc := InLoop\<rparr>) s))
           | _ \<Rightarrow> None))"

text \<open>The input is closed and empty: the flag is cleared and the queues of the pool are closed, one
  after the other. (The input is drained at this point.)\<close>

definition do_LoopClosed :: "nat \<Rightarrow> nat list \<Rightarrow> 'b system \<Rightarrow> 'b system go option" where
  "do_LoopClosed i order s =
     (case thread_at i s of
        None \<Rightarrow> None
      | Some th \<Rightarrow>
          if th_pc th = InLoop \<and> distinct order \<and> set order = set (sl_pool (th_vars th))
          then (case chan_recv (th_queue th) of
                  Some (None, q) \<Rightarrow>
                    Some (Inr ((set_thread i (th\<lparr>th_queue := q, th_pc := CleaningUp order\<rparr>) s)
                      \<lparr>sy_str := (sy_str s)\<lparr>str_running := StoreBool False (str_running (sy_str s))\<rparr>\<rparr>))
                | _ \<Rightarrow> None)
          else None)"

definition do_Cleanup :: "nat \<Rightarrow> 'b system \<Rightarrow> 'b system go option" where
  "do_Cleanup i s =
     (case thread_at i s of
        None \<Rightarrow> None
      | Some th \<Rightarrow>
          (case th_pc th of
             CleaningUp (c # todo) \<Rightarrow>
               Some (go_bind (close_conn c (sy_conns s))
                 (\<lambda>conns. Inr ((set_thread i (th\<lparr>th_pc := CleaningUp todo\<rparr>) s)\<lparr>sy_conns := conns\<rparr>)))
           | CleaningUp [] \<Rightarrow>
               Some (Inr (s\<lparr>sy_threads := remove_nth i (sy_threads s), sy_eaters := sy_eaters s + 1\<rparr>))
           | _ \<Rightarrow> None))"

text \<open>What the owner of an input queue does: it sends packets and closes the queue. The queues are those of the
  loops and, after them, those of the calls that still wait for their start. A loop that waits in its \<open>select\<close> with
  its queue empty is a parked receiver: a packet is handed over to it even when the queue has no buffer.\<close>

definition loop_queue :: "stream_thread \<Rightarrow> bytes chan" where
  "loop_queue th =
     (if th_pc th = InLoop \<and> cbuf (th_queue th) = [] then (th_queue th)\<lparr>cwaiting := 1\<rparr> else th_queue th)"

definition input_at :: "nat \<Rightarrow> 'b system \<Rightarrow> bytes chan option" where
  "input_at i s =
     (case thread_at i s of
        Some th \<Rightarrow> Some (loop_queue th)
      | None \<Rightarrow>
          let j = i - length (sy_threads s)
          in if j < length (sy_starting s) then Some (sy_starting s ! j) else None)"

definition set_input :: "nat \<Rightarrow> bytes chan \<Rightarrow> 'b system \<Rightarrow> 'b system" where
  "set_input i q s =
     (case thread_at i s of
        Some th \<Rightarrow> set_thread i (th\<lparr>th_queue := q\<rparr>) s
      | None \<Rightarrow> s\<lparr>sy_starting := (sy_starting s)[i - length (sy_threads s) := q]\<rparr>)"

definition do_InputSend :: "nat \<Rightarrow> bytes \<Rightarrow> 'b system \<Rightarrow> 'b system go option" where
  "do_InputSend i packet s =
     (case input_at i s of
        None \<Rightarrow> None
      | Some queue \<Rightarrow>
          (case chan_try_send packet queue of
             Inr (Some q) \<Rightarrow> Some (Inr (set_input i q s))
           | _ \<Rightarrow> None))"

definition do_InputClose :: "nat \<Rightarrow> 'b system \<Rightarrow> 'b system go option" where
  "do_InputClose i s =
     (case input_at i s of
        None \<Rightarrow> None
      | Some queue \<Rightarrow>
          (case chan_close queue of
             Inr q \<Rightarrow> Some (Inr (set_input i q s))
           | _ \<Rightarrow> None))"

section \<open>Requests\<close>

text \<open>A request is handled by the loop of thread \<open>i\<close>.\<close>

definition loop_request ::
  "(string \<Rightarrow> 'b \<Rightarrow> bool \<times> 'b) \<Rightarrow> nat \<Rightarrow> nat list \<Rightarrow> ConnectionRequest \<Rightarrow> 'b system \<Rightarrow>
   (ConnectionRequest \<times> 'b system) go option" where
  "loop_request accept i order request s =
     (case thread_at i s of
        None \<Rightarrow> None
      | Some th \<Rightarrow>
          if th_pc th = InLoop
          then Some (go_bind (stream_request accept order request (th_vars th) (sy_conns s) (sy_broker s))
                 (\<lambda>(request', vars, conns, broker).
                    Inr (request', (set_thread i (th\<lparr>th_vars := vars\<rparr>) s)\<lparr>sy_conns := conns, sy_broker := broker\<rparr>)))
          else None)"

definition do_LoopInhibit ::
  "(string \<Rightarrow> 'b \<Rightarrow> bool \<times> 'b) \<Rightarrow> nat \<Rightarrow> nat list \<Rightarrow> bool \<Rightarrow> 'b system \<Rightarrow> 'b system go option" where
  "do_LoopInhibit accept i order inhibit s =
     (case thread_at i s of
        None \<Rightarrow> None
      | Some th \<Rightarrow>
          if distinct order \<and> set order = set (sl_pool (th_vars th))
          then map_option (map_sum id snd) (loop_request accept i order (SetInhibit inhibit) s)
          else None)"

text \<open>An eater takes a request that is not a start request: nothing changes.\<close>

definition do_EatInhibit :: "bool \<Rightarrow> 'b system \<Rightarrow> 'b system go option" where
  "do_EatInhibit inhibit s =
     (if sy_eaters s > 0 \<and> eat_request (SetInhibit inhibit) then Some (Inr s) else None)"

section \<open>ServeHTTP\<close>

text \<open>Authentication and the new connection. The handler is named by the address of its connection;
  that of a refused request only carries the response.\<close>

definition do_HttpRequest :: "nat \<Rightarrow> http_request \<Rightarrow> 'b system \<Rightarrow> 'b system go option" where
  "do_HttpRequest h request s =
     (if sy_pc s h = None
      then (case HandleHttpAuthentication (str_auth (sy_str s)) request new_response of
              (ok, writer) \<Rightarrow>
                Some (Inr (set_pc h (if ok then HAdd else HDone)
                  (set_conn h (NewConnection writer (str_queueSize (sy_str s)) (rq_remote request)) s))))
      else None)"

text \<open>What a handler does with the answer to its request to be added.\<close>

definition added :: "nat \<Rightarrow> string \<Rightarrow> bool \<Rightarrow> 'b system \<Rightarrow> 'b system" where
  "added h now ok s =
     (if ok then set_pc h HAccepted s
      else (case sy_conns s h of
              None \<Rightarrow> s
            | Some conn \<Rightarrow>
                set_pc h HDone (set_conn h (conn\<lparr>conn_writer := ServeStreamError now (conn_writer conn) 404\<rparr>) s)))"

definition do_LoopAdd ::
  "(string \<Rightarrow> 'b \<Rightarrow> bool \<times> 'b) \<Rightarrow> nat \<Rightarrow> nat \<Rightarrow> string \<Rightarrow> 'b system \<Rightarrow> 'b system go option" where
  "do_LoopAdd accept i h now s =
     (case (sy_pc s h, sy_conns s h) of
        (Some HAdd, Some conn) \<Rightarrow>
          map_option (map_sum id (\<lambda>(request, s'). added h now (cr_Ok request) s'))
            (loop_request accept i [] (add_request (conn_ClientAddress conn) h) s)
      | _ \<Rightarrow> None)"

definition do_EatAdd :: "nat \<Rightarrow> string \<Rightarrow> 'b system \<Rightarrow> 'b system go option" where
  "do_EatAdd h now s =
     (case (sy_pc s h, sy_conns s h) of
        (Some HAdd, Some conn) \<Rightarrow>
          if sy_eaters s > 0 \<and> eat_request (add_request (conn_ClientAddress conn) h)
          then Some (Inr (added h now (cr_Ok (add_request (conn_ClientAddress conn) h)) s))
          else None
      | _ \<Rightarrow> None)"

text \<open>The handler of an added connection reports it and starts to serve.\<close>

definition do_StartServe :: "nat \<Rightarrow> string \<Rightarrow> bool \<Rightarrow> 'b system \<Rightarrow> 'b system go option" where
  "do_StartServe h now ok s =
     (case (sy_pc s h, sy_conns s h) of
        (Some HAccepted, Some conn) \<Rightarrow>
          if str_events (sy_str s)
          then (case Serve_start now ok (str_preamble (sy_str s)) conn of
                  (running, conn') \<Rightarrow>
                    Some (Inr (set_pc h (if running then HServe else HRemove)
                      (set_conn h conn' (s\<lparr>sy_str := report OpConnectionAdded (sy_str s),
                                           sy_notified := sy_notified s @ [1]\<rparr>)))))
          else Some (Inl NilDereference)
      | _ \<Rightarrow> None)"

definition do_ServePark :: "nat \<Rightarrow> 'b system \<Rightarrow> 'b system go option" where
  "do_ServePark h s =
     (case (sy_pc s h, sy_conns s h) of
        (Some HServe, Some conn) \<Rightarrow>
          if cbuf (conn_Queue conn) = [] \<and> \<not> cclosed (conn_Queue conn) \<and> cwaiting (conn_Queue conn) = 0
          then Some (Inr (set_conn h (conn\<lparr>conn_Queue := chan_park (conn_Queue conn)\<rparr>) s))
          else None
      | _ \<Rightarrow> None)"

definition do_ServeTurn :: "nat \<Rightarrow> serve_choice \<Rightarrow> 'b system \<Rightarrow> 'b system go option" where
  "do_ServeTurn h choice s =
     (case (sy_pc s h, sy_conns s h) of
        (Some HServe, Some conn) \<Rightarrow>
          (case Serve_turn choice conn of
             None \<Rightarrow> None
           | Some (running, conn') \<Rightarrow>
               Some (Inr (set_pc h (if running then HServe else HRemove) (set_conn h conn' s))))
      | _ \<Rightarrow> None)"

definition do_LoopRemove ::
  "(string \<Rightarrow> 'b \<Rightarrow> bool \<times> 'b) \<Rightarrow> nat \<Rightarrow> nat \<Rightarrow> 'b system \<Rightarrow> 'b system go option" where
  "do_LoopRemove accept i h s =
     (case (sy_pc s h, sy_conns s h) of
        (Some HRemove, Some conn) \<Rightarrow>
          map_option (map_sum id (\<lambda>(request, s'). set_pc h HDrain s'))
            (loop_request accept i [] (remove_request (conn_ClientAddress conn) h) s)
      | _ \<Rightarrow> None)"

definition do_EatRemove :: "nat \<Rightarrow> 'b system \<Rightarrow> 'b system go option" where
  "do_EatRemove h s =
     (case (sy_pc s h, sy_conns s h) of
        (Some HRemove, Some conn) \<Rightarrow>
          if sy_eaters s > 0 \<and> eat_request (remove_request (conn_ClientAddress conn) h)
          then Some (Inr (set_pc h HDrain s)) else None
      | _ \<Rightarrow> None)"

text \<open>The handler drains its queue and reports; \<open>d\<close> is the duration of the connection.\<close>

definition do_Drain :: "nat \<Rightarrow> i64 \<Rightarrow> 'b system \<Rightarrow> 'b system go option" where
  "do_Drain h d s =
     (case (sy_pc s h, sy_conns s h) of
        (Some HDrain, Some conn) \<Rightarrow>
          (case chan_drain (conn_Queue conn) of
             None \<Rightarrow> None
           | Some q \<Rightarrow>
               if str_events (sy_str s)
               then Some (Inr (set_pc h HRelease (set_conn h (conn\<lparr>conn_Queue := q\<rparr>)
                      (s\<lparr>sy_str := report (OpStreamDuration d) (report OpConnectionRemoved (sy_str s)),
                         sy_notified := sy_notified s @ [-1]\<rparr>))))
               else Some (Inl NilDereference))
      | _ \<Rightarrow> None)"

definition do_Release :: "('b \<Rightarrow> 'b) \<Rightarrow> nat \<Rightarrow> 'b system \<Rightarrow> 'b system go option" where
  "do_Release release h s =
     (case sy_pc s h of
        Some HRelease \<Rightarrow> Some (Inr (set_pc h HDone (s\<lparr>sy_broker := release (sy_broker s)\<rparr>)))
      | _ \<Rightarrow> None)"

section \<open>Other users of the broker\<close>

definition do_OtherAccept ::
  "(string \<Rightarrow> 'b \<Rightarrow> bool \<times> 'b) \<Rightarrow> string \<Rightarrow> 'b system \<Rightarrow> 'b system go option" where
  "do_OtherAccept accept addr s =
     (case accept addr (sy_broker s) of
        (ok, b) \<Rightarrow> Some (Inr (s\<lparr>sy_broker := b, sy_others := sy_others s + (if ok then 1 else 0)\<rparr>)))"

definition do_OtherRelease :: "('b \<Rightarrow> 'b) \<Rightarrow> 'b system \<Rightarrow> 'b system go option" where
  "do_OtherRelease release s =
     (if sy_others s > 0
      then Some (Inr (s\<lparr>sy_broker := release (sy_broker s), sy_others := sy_others s - 1\<rparr>))
      else None)"

section \<open>Steps and runs\<close>

datatype action =
    StreamCall "bytes chan"
  | EatStart nat
  | LoopStart nat nat
  | LoopPacket nat "nat list"
  | Distribute nat
  | LoopClosed nat "nat list"
  | Cleanup nat
  | InputSend nat bytes
  | InputClose nat
  | LoopInhibit nat "nat list" bool
  | EatInhibit bool
  | HttpRequest nat http_request
  | LoopAdd nat nat string
  | EatAdd nat string
  | StartServe nat string bool
  | ServePark nat
  | ServeTurn nat serve_choice
  | LoopRemove nat nat
  | EatRemove nat
  | Drain nat i64
  | ReleasePlace nat
  | OtherAccept string
  | OtherRelease

fun sys_step ::
  "(string \<Rightarrow> 'b \<Rightarrow> bool \<times> 'b) \<Rightarrow> ('b \<Rightarrow> 'b) \<Rightarrow> action \<Rightarrow> 'b system \<Rightarrow> 'b system go option" where
  "sys_step accept release (StreamCall q) s = do_StreamCall q s"
| "sys_step accept release (EatStart j) s = do_EatStart j s"
| "sys_step accept release (LoopStart i j) s = do_LoopStart i j s"
| "sys_step accept release (LoopPacket i order) s = do_LoopPacket i order s"
| "sys_step accept release (Distribute i) s = do_Distribute i s"
| "sys_step accept release (LoopClosed i order) s = do_LoopClosed i order s"
| "sys_step accept release (Cleanup i) s = do_Cleanup i s"
| "sys_step accept release (InputSend i p) s = do_InputSend i p s"
| "sys_step accept release (InputClose i) s = do_InputClose i s"
| "sys_step accept release (LoopInhibit i order b) s = do_LoopInhibit accept i order b s"
| "sys_step accept release (EatInhibit b) s = do_EatInhibit b s"
| "sys_step accept release (HttpRequest h r) s = do_HttpRequest h r s"
| "sys_step accept release (LoopAdd i h now) s = do_LoopAdd accept i h now s"
| "sys_step accept release (EatAdd h now) s = do_EatAdd h now s"
| "sys_step accept release (StartServe h now ok) s = do_StartServe h now ok s"
| "sys_step accept release (ServePark h) s = do_ServePark h s"
| "sys_step accept release (ServeTurn h c) s = do_ServeTurn h c s"
| "sys_step accept release (LoopRemove i h) s = do_LoopRemove accept i h s"
| "sys_step accept release (EatRemove h) s = do_EatRemove h s"
| "sys_step accept release (Drain h d) s = do_Drain h d s"
| "sys_step accept release (ReleasePlace h) s = do_Release release h s"
| "sys_step accept release (OtherAccept a) s = do_OtherAccept accept a s"
| "sys_step accept release OtherRelease s = do_OtherRelease release s"

text \<open>The states a streamer can get into without a panic.\<close>

inductive reachable ::
  "(string \<Rightarrow> 'b \<Rightarrow> bool \<times> 'b) \<Rightarrow> ('b \<Rightarrow> 'b) \<Rightarrow> Streamer \<Rightarrow> 'b \<Rightarrow> 'b system \<Rightarrow> bool"
  for accept release str b where
  init: "reachable accept release str b (sys_init str b)"
| step: "reachable accept release str b s \<Longrightarrow> sys_step accept release a s = Some (Inr s') \<Longrightarrow>
           reachable accept release str b s'"

fun run_actions ::
  "(string \<Rightarrow> 'b \<Rightarrow> bool \<times> 'b) \<Rightarrow> ('b \<Rightarrow> 'b) \<Rightarrow> action list \<Rightarrow> 'b system \<Rightarrow> 'b system go option" where
  "run_actions accept release [] s = Some (Inr s)"
| "run_actions accept release (a # as) s =
     (case sys_step accept release a s of
        None \<Rightarrow> None
      | Some (Inl p) \<Rightarrow> Some (Inl p)
      | Some (Inr s') \<Rightarrow> run_actions accept release as s')"

lemma run_actions_reachable:
  "reachable accept release str b s \<Longrightarrow> run_actions accept release as s = Some (Inr s') \<Longrightarrow>
     reachable accept release str b s'"
  by (induction as arbitrary: s) (auto split: option.splits sum.splits intro: reachable.step)

end
