(* ===== verification/Stream_Steps.thy ===== *)
theory Stream_Steps
  imports Stream_System
begin

text \<open>
  What a successful step of a streamer needs and changes: an elimination rule for every kind of step,
  with the new state written out. The collection \<open>step_Inr\<close> has them all.
\<close>

section \<open>Step functions\<close>

named_theorems step_defs \<open>definitions of the steps of the system\<close>

lemmas [step_defs] =
  do_StreamCall_def do_EatStart_def do_LoopStart_def do_LoopPacket_def do_Distribute_def do_LoopClosed_def
  do_Cleanup_def do_InputSend_def do_InputClose_def do_LoopInhibit_def do_EatInhibit_def do_HttpRequest_def
  do_LoopAdd_def do_EatAdd_def do_StartServe_def do_ServePark_def do_ServeTurn_def do_LoopRemove_def
  do_EatRemove_def do_Drain_def do_Release_def do_OtherAccept_def do_OtherRelease_def

lemma set_pc_fields [simp]:
  "sy_str (set_pc h p s) = sy_str s" "sy_broker (set_pc h p s) = sy_broker s" "sy_others (set_pc h p s) = sy_others s"
  "sy_conns (set_pc h p s) = sy_conns s" "sy_pc (set_pc h p s) = (sy_pc s)(h \<mapsto> p)"
  "sy_threads (set_pc h p s) = sy_threads s" "sy_starting (set_pc h p s) = sy_starting s"
  "sy_eaters (set_pc h p s) = sy_eaters s" "sy_notified (set_pc h p s) = sy_notified s"
  "sy_seen (set_pc h p s) = sy_seen s" "sy_sent (set_pc h p s) = sy_sent s"
  by (simp_all add: set_pc_def)

lemma set_conn_fields [simp]:
  "sy_str (set_conn h c s) = sy_str s" "sy_broker (set_conn h c s) = sy_broker s" "sy_others (set_conn h c s) = sy_others s"
  "sy_conns (set_conn h c s) = (sy_conns s)(h \<mapsto> c)" "sy_pc (set_conn h c s) = sy_pc s"
  "sy_threads (set_conn h c s) = sy_threads s" "sy_starting (set_conn h c s) = sy_starting s"
  "sy_eaters (set_conn h c s) = sy_eaters s" "sy_notified (set_conn h c s) = sy_notified s"
  "sy_seen (set_conn h c s) = sy_seen s" "sy_sent (set_conn h c s) = sy_sent s"
  by (simp_all add: set_conn_def)

lemma set_thread_fields [simp]:
  "sy_str (set_thread i t s) = sy_str s" "sy_broker (set_thread i t s) = sy_broker s" "sy_others (set_thread i t s) = sy_others s"
  "sy_conns (set_thread i t s) = sy_conns s" "sy_pc (set_thread i t s) = sy_pc s"
  "sy_threads (set_thread i t s) = (sy_threads s)[i := t]" "sy_starting (set_thread i t s) = sy_starting s"
  "sy_eaters (set_thread i t s) = sy_eaters s" "sy_notified (set_thread i t s) = sy_notified s"
  "sy_seen (set_thread i t s) = sy_seen s" "sy_sent (set_thread i t s) = sy_sent s"
  by (simp_all add: set_thread_def)

lemma length_remove_nth: "j < length xs \<Longrightarrow> length (remove_nth j xs) = length xs - 1"
  by (simp add: remove_nth_def)

lemma added_fields [simp]:
  "sy_str (added h now ok s) = sy_str s" "sy_broker (added h now ok s) = sy_broker s" "sy_others (added h now ok s) = sy_others s"
  "sy_threads (added h now ok s) = sy_threads s" "sy_starting (added h now ok s) = sy_starting s"
  "sy_eaters (added h now ok s) = sy_eaters s" "sy_notified (added h now ok s) = sy_notified s"
  "sy_seen (added h now ok s) = sy_seen s" "sy_sent (added h now ok s) = sy_sent s"
  by (simp_all add: added_def split: option.split)

text \<open>What the requests handled by a loop change.\<close>

lemma do_LoopInhibit_Inr:
  assumes "do_LoopInhibit accept i order b s = Some (Inr s')"
  obtains th conns where "thread_at i s = Some th" "th_pc th = InLoop"
    "distinct order" "set order = set (sl_pool (th_vars th))"
    "(if b then go_foreach close_conn order (sy_conns s) else Inr (sy_conns s)) = Inr conns"
    "s' = (set_thread i (th\<lparr>th_vars := (th_vars th)\<lparr>sl_inhibit := b\<rparr>\<rparr>) s)\<lparr>sy_conns := conns, sy_broker := sy_broker s\<rparr>"
  using assms
  by (cases b; cases "go_foreach close_conn order (sy_conns s)")
     (auto simp: step_defs loop_request_def stream_request_def SetInhibit_def new_request_def
      split: option.splits if_splits)

lemma do_LoopAdd_Inr:
  assumes "do_LoopAdd accept i h now s = Some (Inr s')"
  obtains th conn ok b where "sy_pc s h = Some HAdd" "sy_conns s h = Some conn"
    "thread_at i s = Some th" "th_pc th = InLoop"
    "(if \<not> sl_inhibit (th_vars th) then accept (conn_ClientAddress conn) (sy_broker s) else (False, sy_broker s)) = (ok, b)"
    "s' = added h now ok ((set_thread i (th\<lparr>th_vars := (th_vars th)\<lparr>sl_pool :=
        (if ok \<and> h \<notin> set (sl_pool (th_vars th)) then sl_pool (th_vars th) @ [h] else sl_pool (th_vars th))\<rparr>\<rparr>) s)
        \<lparr>sy_conns := sy_conns s, sy_broker := b\<rparr>)"
proof -
  obtain conn where c: "sy_pc s h = Some HAdd" "sy_conns s h = Some conn"
    using assms by (auto simp: step_defs split: option.splits handler_pc.splits)
  obtain th where th: "thread_at i s = Some th" "th_pc th = InLoop"
    using assms c by (auto simp: step_defs loop_request_def split: option.splits if_splits)
  obtain ok b where ok: "(if \<not> sl_inhibit (th_vars th) then accept (conn_ClientAddress conn) (sy_broker s) else (False, sy_broker s)) = (ok, b)"
    by (cases "if \<not> sl_inhibit (th_vars th) then accept (conn_ClientAddress conn) (sy_broker s) else (False, sy_broker s)")
  show ?thesis
    by (rule that [OF c th ok])
       (use assms c th ok in \<open>cases ok; cases "sl_inhibit (th_vars th)";
          auto simp: step_defs loop_request_def stream_request_def add_request_def\<close>)
qed

lemma do_LoopRemove_Inr:
  assumes "do_LoopRemove accept i h s = Some (Inr s')"
  obtains th conn conns where "sy_pc s h = Some HRemove" "sy_conns s h = Some conn"
    "thread_at i s = Some th" "th_pc th = InLoop"
    "(if \<not> conn_Closed conn then close_conn h (sy_conns s) else Inr (sy_conns s)) = Inr conns"
    "s' = set_pc h HDrain ((set_thread i (th\<lparr>th_vars := (th_vars th)\<lparr>sl_pool := removeAll h (sl_pool (th_vars th))\<rparr>\<rparr>) s)
        \<lparr>sy_conns := conns, sy_broker := sy_broker s\<rparr>)"
  using assms
  by (auto simp: step_defs loop_request_def stream_request_def remove_request_def go_bind_def
      split: option.splits handler_pc.splits if_splits sum.splits)

text \<open>What the steps of a loop change.\<close>

lemma do_LoopPacket_Inr:
  assumes "do_LoopPacket i order s = Some (Inr s')"
  obtains th packet q where "thread_at i s = Some th" "th_pc th = InLoop" "distinct order"
    "set order = set (sl_pool (th_vars th))" "chan_recv (th_queue th) = Some (Some packet, q)"
    "s' = (set_thread i (th\<lparr>th_queue := q, th_pc := Distributing packet order\<rparr>) s)\<lparr>sy_seen := sy_seen s @ [packet]\<rparr>"
  using assms by (auto simp: step_defs split: option.splits if_splits)

lemma do_LoopClosed_Inr:
  assumes "do_LoopClosed i order s = Some (Inr s')"
  obtains th q where "thread_at i s = Some th" "th_pc th = InLoop" "distinct order"
    "set order = set (sl_pool (th_vars th))"
    "s' = (set_thread i (th\<lparr>th_queue := q, th_pc := CleaningUp order\<rparr>) s)
       \<lparr>sy_str := (sy_str s)\<lparr>str_running := StoreBool False (str_running (sy_str s))\<rparr>\<rparr>"
  using assms by (auto simp: step_defs split: option.splits if_splits)

lemma do_Distribute_Inr:
  assumes "do_Distribute i s = Some (Inr s')"
  obtains (queued) th packet c todo conn where "thread_at i s = Some th" "th_pc th = Distributing packet (c # todo)"
      "sy_conns s c = Some conn" "\<not> cclosed (conn_Queue conn)" "chan_room (conn_Queue conn)"
      "s' = (set_thread i (th\<lparr>th_pc := Distributing packet todo\<rparr>) s)
         \<lparr>sy_conns := (sy_conns s)(c \<mapsto> conn\<lparr>conn_Queue := (conn_Queue conn)\<lparr>cbuf := cbuf (conn_Queue conn) @ [packet]\<rparr>\<rparr>),
          sy_str := report OpPacketSent (sy_str s), sy_sent := (sy_sent s)(c := sy_sent s c @ [packet])\<rparr>"
    | (dropped) th packet c todo where "thread_at i s = Some th" "th_pc th = Distributing packet (c # todo)"
      "s' = (set_thread i (th\<lparr>th_pc := Distributing packet todo\<rparr>) s)
         \<lparr>sy_conns := sy_conns s, sy_str := report OpPacketDropped (sy_str s), sy_sent := sy_sent s\<rparr>"
      "\<not> has_room (sy_conns s) c"
    | (finished) th packet where "thread_at i s = Some th" "th_pc th = Distributing packet []"
      "s' = set_thread i (th\<lparr>th_pc := InLoop\<rparr>) s"
  using assms
  by (auto simp: step_defs has_room_def distribute1_def chan_try_send_def split: option.splits loop_pc.splits list.splits if_splits)

lemma do_Cleanup_Inr:
  assumes "do_Cleanup i s = Some (Inr s')"
  obtains (close) th c todo conn where "thread_at i s = Some th" "th_pc th = CleaningUp (c # todo)"
      "sy_conns s c = Some conn" "\<not> cclosed (conn_Queue conn)"
      "s' = (set_thread i (th\<lparr>th_pc := CleaningUp todo\<rparr>) s)
         \<lparr>sy_conns := (sy_conns s)(c \<mapsto> conn\<lparr>conn_Queue := (conn_Queue conn)\<lparr>cclosed := True\<rparr>\<rparr>)\<rparr>"
    | (finished) th where "thread_at i s = Some th" "th_pc th = CleaningUp []"
      "s' = s\<lparr>sy_threads := remove_nth i (sy_threads s), sy_eaters := sy_eaters s + 1\<rparr>"
  using assms
  by (auto simp: step_defs close_conn_def chan_close_def split: option.splits loop_pc.splits list.splits if_splits)

lemma loop_queue_simps [simp]:
  "cbuf (loop_queue th) = cbuf (th_queue th)" "cclosed (loop_queue th) = cclosed (th_queue th)"
  by (simp_all add: loop_queue_def)

lemma input_at_cases:
  assumes "input_at i s = Some q"
  obtains (loop) th where "thread_at i s = Some th" "q = loop_queue th"
      "\<And>q'. set_input i q' s = set_thread i (th\<lparr>th_queue := q'\<rparr>) s"
    | (call) j where "thread_at i s = None" "i = length (sy_threads s) + j" "j < length (sy_starting s)" "q = sy_starting s ! j"
      "\<And>q'. set_input i q' s = s\<lparr>sy_starting := (sy_starting s)[j := q']\<rparr>"
proof (cases "thread_at i s")
  case None
  then have "length (sy_threads s) \<le> i" by (simp add: thread_at_def split: if_splits)
  then obtain j where "i = length (sy_threads s) + j" using le_Suc_ex by blast
  then show ?thesis using call [of j] None assms by (auto simp: input_at_def set_input_def Let_def split: if_splits)
next
  case (Some th)
  then show ?thesis using loop assms by (auto simp: input_at_def set_input_def)
qed

lemma do_Input_Inr:
  assumes "do_InputSend i p s = Some (Inr s') \<or> do_InputClose i s = Some (Inr s')"
  obtains (loop) th q where "thread_at i s = Some th" "s' = set_thread i (th\<lparr>th_queue := q\<rparr>) s"
    | (call) j q where "j < length (sy_starting s)" "s' = s\<lparr>sy_starting := (sy_starting s)[j := q]\<rparr>"
proof -
  obtain q q' where "input_at i s = Some q" "s' = set_input i q' s"
    using assms by (auto simp: step_defs split: option.splits sum.splits)
  then show ?thesis using loop call by (cases rule: input_at_cases) auto
qed

text \<open>What the steps of a handler change.\<close>

lemma do_HttpRequest_Inr:
  assumes "do_HttpRequest h r s = Some (Inr s')"
  obtains ok w where "sy_pc s h = None" "HandleHttpAuthentication (str_auth (sy_str s)) r new_response = (ok, w)"
    "s' = set_pc h (if ok then HAdd else HDone) (set_conn h (NewConnection w (str_queueSize (sy_str s)) (rq_remote r)) s)"
  using assms by (auto simp: step_defs split: if_splits prod.splits)

lemma do_EatAdd_Inr:
  assumes "do_EatAdd h now s = Some (Inr s')"
  obtains conn where "sy_pc s h = Some HAdd" "sy_conns s h = Some conn" "sy_eaters s > 0"
    "s' = set_pc h HDone (set_conn h (conn\<lparr>conn_writer := ServeStreamError now (conn_writer conn) 404\<rparr>) s)"
  using assms by (auto simp: step_defs added_def add_request_def split: option.splits handler_pc.splits if_splits)

lemma do_StartServe_Inr:
  assumes "do_StartServe h now ok s = Some (Inr s')"
  obtains conn running conn' where "sy_pc s h = Some HAccepted" "sy_conns s h = Some conn"
    "Serve_start now ok (str_preamble (sy_str s)) conn = (running, conn')"
    "s' = set_pc h (if running then HServe else HRemove)
       (set_conn h conn' (s\<lparr>sy_str := report OpConnectionAdded (sy_str s), sy_notified := sy_notified s @ [1]\<rparr>))"
  using assms by (auto simp: step_defs split: option.splits handler_pc.splits if_splits prod.splits)

lemma do_ServePark_Inr:
  assumes "do_ServePark h s = Some (Inr s')"
  obtains conn where "sy_pc s h = Some HServe" "sy_conns s h = Some conn"
    "s' = set_conn h (conn\<lparr>conn_Queue := chan_park (conn_Queue conn)\<rparr>) s"
  using assms by (auto simp: step_defs split: option.splits handler_pc.splits if_splits)

lemma do_ServeTurn_Inr:
  assumes "do_ServeTurn h choice s = Some (Inr s')"
  obtains conn running conn' where "sy_pc s h = Some HServe" "sy_conns s h = Some conn"
    "Serve_turn choice conn = Some (running, conn')"
    "s' = set_pc h (if running then HServe else HRemove) (set_conn h conn' s)"
  using assms by (auto simp: step_defs split: option.splits handler_pc.splits)

lemma do_EatRemove_Inr:
  assumes "do_EatRemove h s = Some (Inr s')"
  obtains conn where "sy_pc s h = Some HRemove" "sy_conns s h = Some conn" "sy_eaters s > 0" "s' = set_pc h HDrain s"
  using assms by (auto simp: step_defs split: option.splits handler_pc.splits if_splits)

lemma do_Drain_Inr:
  assumes "do_Drain h d s = Some (Inr s')"
  obtains conn where "sy_pc s h = Some HDrain" "sy_conns s h = Some conn" "cclosed (conn_Queue conn)"
    "s' = set_pc h HRelease (set_conn h (conn\<lparr>conn_Queue := (conn_Queue conn)\<lparr>cbuf := []\<rparr>\<rparr>)
       (s\<lparr>sy_str := report (OpStreamDuration d) (report OpConnectionRemoved (sy_str s)),
          sy_notified := sy_notified s @ [-1]\<rparr>))"
  using assms by (auto simp: step_defs chan_drain_def split: option.splits handler_pc.splits if_splits)

lemma do_Release_Inr:
  assumes "do_Release release h s = Some (Inr s')"
  obtains "sy_pc s h = Some HRelease" "s' = set_pc h HDone (s\<lparr>sy_broker := release (sy_broker s)\<rparr>)"
  using assms by (auto simp: step_defs split: option.splits handler_pc.splits)

text \<open>What the remaining steps change, and the rules for all steps.\<close>

lemma do_StreamCall_Inr:
  assumes "do_StreamCall q s = Some (Inr s')"
  obtains (refused) "s' = s"
    | (called) r where "s' = s\<lparr>sy_str := (sy_str s)\<lparr>str_running := r\<rparr>, sy_starting := sy_starting s @ [q]\<rparr>"
  using assms by (auto simp: step_defs split: prod.splits bool.splits)

lemma do_EatStart_Inr:
  assumes "do_EatStart j s = Some (Inr s')"
  obtains "sy_eaters s > 0" "j < length (sy_starting s)"
    "s' = s\<lparr>sy_eaters := sy_eaters s - 1, sy_starting := remove_nth j (sy_starting s),
            sy_threads := sy_threads s @ [new_thread (sy_starting s ! j)]\<rparr>"
  using assms by (auto simp: step_defs eat_request_def start_request_def new_request_def split: if_splits)

lemma do_LoopStart_Inr:
  assumes "do_LoopStart i j s = Some (Inr s')"
  obtains th where "thread_at i s = Some th" "th_pc th = InLoop" "j < length (sy_starting s)"
    "s' = s\<lparr>sy_starting := remove_nth j (sy_starting s), sy_threads := sy_threads s @ [new_thread (sy_starting s ! j)]\<rparr>"
  using assms by (auto simp: step_defs split: option.splits if_splits)

lemma do_EatInhibit_Inr: "do_EatInhibit b s = Some (Inr s') \<Longrightarrow> (s' = s \<Longrightarrow> thesis) \<Longrightarrow> thesis"
  by (auto simp: step_defs split: if_splits)

lemma do_OtherAccept_Inr:
  assumes "do_OtherAccept accept addr s = Some (Inr s')"
  obtains ok b where "accept addr (sy_broker s) = (ok, b)"
    "s' = s\<lparr>sy_broker := b, sy_others := sy_others s + (if ok then 1 else 0)\<rparr>"
  using assms by (auto simp: step_defs split: prod.splits)

lemma do_OtherRelease_Inr:
  assumes "do_OtherRelease release s = Some (Inr s')"
  obtains "0 < sy_others s" "s' = s\<lparr>sy_broker := release (sy_broker s), sy_others := sy_others s - 1\<rparr>"
  using assms by (auto simp: step_defs split: if_splits)

lemmas step_Inr = do_StreamCall_Inr do_EatStart_Inr do_LoopStart_Inr do_LoopPacket_Inr do_Distribute_Inr
  do_LoopClosed_Inr do_Cleanup_Inr do_Input_Inr [OF disjI1] do_Input_Inr [OF disjI2] do_LoopInhibit_Inr do_EatInhibit_Inr
  do_HttpRequest_Inr do_LoopAdd_Inr do_EatAdd_Inr do_StartServe_Inr do_ServePark_Inr do_ServeTurn_Inr do_LoopRemove_Inr
  do_EatRemove_Inr do_Drain_Inr do_Release_Inr do_OtherAccept_Inr do_OtherRelease_Inr

end
