(* ===== verification/Stream_Safety.thy ===== *)
theory Stream_Safety
  imports Stream_Steps
begin

text \<open>
  Invariants of a streamer at work, by induction over its reachable states: the streaming loop and the
  command eater exclude each other, every client queue is eventually closed, the places taken at the
  broker are those of the clients being served, and calm runs do not panic. An invariant has a lemma for
  each kind of step that concerns it.
\<close>

section \<open>One goroutine receives requests\<close>

definition looping :: "stream_thread \<Rightarrow> bool" where
  "looping th \<longleftrightarrow> (case th_pc th of CleaningUp _ \<Rightarrow> False | _ \<Rightarrow> True)"

definition is_running :: "'b system \<Rightarrow> bool" where
  "is_running s = LoadBool (str_running (sy_str s))"

definition token_inv :: "'b system \<Rightarrow> bool" where
  "token_inv s \<longleftrightarrow> sy_eaters s + length (sy_threads s) = 1 \<and> atomic_ok (str_running (sy_str s))
     \<and> length (sy_starting s) + length (filter looping (sy_threads s)) = (if is_running s then 1 else 0)"

lemma token_thread:
  assumes "token_inv s" and "thread_at i s = Some th"
  shows "i = 0" "sy_threads s = [th]" "sy_eaters s = 0"
  using assms by (cases "sy_threads s"; auto simp: token_inv_def thread_at_def split: if_splits)+

lemma token_eater:
  assumes "token_inv s" and "sy_eaters s > 0"
  shows "sy_threads s = []" "sy_eaters s = 1"
  using assms by (cases "sy_threads s"; auto simp: token_inv_def)+

lemma token_cong:
  "token_inv s \<Longrightarrow> sy_eaters s' = sy_eaters s \<Longrightarrow> map looping (sy_threads s') = map looping (sy_threads s) \<Longrightarrow>
     length (sy_starting s') = length (sy_starting s) \<Longrightarrow> str_running (sy_str s') = str_running (sy_str s) \<Longrightarrow> token_inv s'"
proof -
  assume a: "token_inv s" "sy_eaters s' = sy_eaters s" "map looping (sy_threads s') = map looping (sy_threads s)"
    "length (sy_starting s') = length (sy_starting s)" "str_running (sy_str s') = str_running (sy_str s)"
  have "length (sy_threads s') = length (sy_threads s)" using a(3) by (metis length_map)
  moreover have "length (filter looping ths) = length (filter id (map looping ths))" for ths
    by (simp add: filter_map)
  then have "length (filter looping (sy_threads s')) = length (filter looping (sy_threads s))"
    using a(3) by metis
  ultimately show ?thesis using a by (simp add: token_inv_def is_running_def)
qed

lemma token_threads_cong:
  assumes "token_inv s" and "thread_at i s = Some th"
    and "sy_threads s' = (sy_threads s)[i := th']" and "looping th' = looping th" and "sy_eaters s' = sy_eaters s"
    and "sy_starting s' = sy_starting s" and "str_running (sy_str s') = str_running (sy_str s)"
  shows "token_inv s'"
  using token_thread [OF assms(1,2)] assms by (intro token_cong [OF assms(1)]) auto

lemma looping_update [simp]:
  "looping (th\<lparr>th_queue := q\<rparr>) = looping th" "looping (th\<lparr>th_vars := v\<rparr>) = looping th"
  by (simp_all add: looping_def)

lemma eat_request_simps [simp]:
  "\<not> eat_request start_request" "eat_request (SetInhibit b)" "eat_request (add_request a c)"
  "eat_request (remove_request a c)"
  by (simp_all add: eat_request_def start_request_def SetInhibit_def new_request_def add_request_def remove_request_def)

lemma distribute1_running:
  "distribute1 p c (conns, str) = Inr (conns', str') \<Longrightarrow> str_running str' = str_running str"
  by (erule distribute1_Inr) simp_all

lemma token_step:
  assumes inv: "token_inv s" and step: "sys_step accept release a s = Some (Inr s')"
  shows "token_inv s'"
proof (cases a)
  case (StreamCall q)
  with step inv show ?thesis
    by (auto simp: step_defs token_inv_def is_running_def CompareAndSwapBool_bool split: if_splits)
next
  case (EatStart j)
  with step have e: "sy_eaters s > 0" by (simp add: step_defs split: if_splits)
  from token_eater [OF inv e] EatStart step inv show ?thesis
    by (auto simp: step_defs token_inv_def is_running_def length_remove_nth looping_def new_thread_def split: if_splits)
next
  case (LoopStart i j)
  with step obtain th where th: "thread_at i s = Some th" "th_pc th = InLoop" "j < length (sy_starting s)"
    by (auto simp: step_defs split: option.splits if_splits)
  from token_thread [OF inv th(1)] th inv show ?thesis
    by (auto simp: token_inv_def looping_def split: if_splits)
next
  case (LoopPacket i order)
  with step obtain th where th: "thread_at i s = Some th" "th_pc th = InLoop"
    by (auto simp: step_defs split: option.splits if_splits)
  from token_thread [OF inv th(1)] th LoopPacket step inv show ?thesis
    by (auto simp: step_defs token_inv_def is_running_def looping_def split: option.splits if_splits)
next
  case (LoopClosed i order)
  with step obtain th where th: "thread_at i s = Some th" "th_pc th = InLoop"
    by (auto simp: step_defs split: option.splits if_splits)
  from token_thread [OF inv th(1)] th LoopClosed step inv show ?thesis
    by (auto simp: step_defs token_inv_def is_running_def looping_def split: option.splits if_splits)
next
  case (Cleanup i)
  then obtain th where th: "thread_at i s = Some th" using step by (auto simp: step_defs split: option.splits)
  from token_thread [OF inv th] th Cleanup step inv show ?thesis
    by (auto simp: step_defs token_inv_def is_running_def looping_def remove_nth_def go_bind_def
        split: option.splits if_splits loop_pc.splits list.splits sum.splits)
qed (use step in \<open>auto elim!: step_Inr simp: looping_def intro: token_cong [OF inv] token_threads_cong [OF inv] split: if_splits\<close>)

lemma token_reachable:
  assumes "reachable accept release str b s" and "str_running str = AtomicFalse"
  shows "token_inv s"
  using assms(1)
proof induction
  case init
  then show ?case using assms(2) by (simp add: token_inv_def sys_init_def is_running_def)
next
  case (step s a s')
  then show ?case using token_step by blast
qed

section \<open>Queues are open as long as a loop can close them\<close>

definition th_open :: "stream_thread \<Rightarrow> nat set" where
  "th_open th = (case th_pc th of CleaningUp todo \<Rightarrow> set todo | _ \<Rightarrow> set (sl_pool (th_vars th)))"

definition live :: "'b system \<Rightarrow> nat set" where
  "live s = (\<Union>th \<in> set (sy_threads s). th_open th)"

definition thread_ok :: "stream_thread \<Rightarrow> bool" where
  "thread_ok th \<longleftrightarrow> distinct (sl_pool (th_vars th)) \<and>
     (case th_pc th of
        InLoop \<Rightarrow> True
      | Distributing p todo \<Rightarrow> distinct todo \<and> set todo \<subseteq> set (sl_pool (th_vars th))
      | CleaningUp todo \<Rightarrow> distinct todo)"

lemma thread_queue_update [simp]:
  "thread_ok (th\<lparr>th_queue := q\<rparr>) = thread_ok th" "th_open (th\<lparr>th_queue := q\<rparr>) = th_open th"
  by (cases "th_pc th"; simp add: thread_ok_def th_open_def)+

fun conn_ok :: "bool \<Rightarrow> handler_pc \<Rightarrow> Connection \<Rightarrow> bool" where
  "conn_ok l HAdd c \<longleftrightarrow> \<not> cclosed (conn_Queue c) \<and> \<not> conn_Closed c \<and> \<not> l"
| "conn_ok l HAccepted c \<longleftrightarrow> (\<not> cclosed (conn_Queue c) \<longrightarrow> l) \<and> \<not> conn_Closed c"
| "conn_ok l HServe c \<longleftrightarrow> (\<not> cclosed (conn_Queue c) \<longrightarrow> l) \<and> \<not> conn_Closed c"
| "conn_ok l HRemove c \<longleftrightarrow> (\<not> cclosed (conn_Queue c) \<longrightarrow> l) \<and> (conn_Closed c \<longrightarrow> cclosed (conn_Queue c))"
| "conn_ok l HDrain c \<longleftrightarrow> cclosed (conn_Queue c) \<and> \<not> l"
| "conn_ok l HRelease c \<longleftrightarrow> \<not> l"
| "conn_ok l HDone c \<longleftrightarrow> \<not> l"

definition conn_rel :: "nat set \<Rightarrow> (nat \<rightharpoonup> handler_pc) \<Rightarrow> store \<Rightarrow> bool" where
  "conn_rel L pcs conns \<longleftrightarrow> dom pcs = dom conns \<and> L \<subseteq> dom pcs
     \<and> (\<forall>h p c. pcs h = Some p \<longrightarrow> conns h = Some c \<longrightarrow> conn_ok (h \<in> L) p c)"

definition conn_inv :: "'b system \<Rightarrow> bool" where
  "conn_inv s \<longleftrightarrow> (\<forall>th \<in> set (sy_threads s). thread_ok th) \<and> conn_rel (live s) (sy_pc s) (sy_conns s)"

lemma conn_relD: "conn_rel L pcs conns \<Longrightarrow> pcs h = Some p \<Longrightarrow> conns h = Some c \<Longrightarrow> conn_ok (h \<in> L) p c"
  by (simp add: conn_rel_def)

lemma conn_rel_both:
  assumes "conn_rel L pcs conns" and "conn_ok (h \<in> L') p c" and "L' - {h} = L - {h}"
  shows "conn_rel L' (pcs(h \<mapsto> p)) (conns(h \<mapsto> c))"
proof -
  have "k \<in> L' \<longleftrightarrow> k \<in> L" if "k \<noteq> h" for k using assms(3) that by blast
  with assms(1,2) show ?thesis unfolding conn_rel_def by (auto split: if_splits)
qed

lemma conn_rel_conn:
  assumes "conn_rel L pcs conns" and "pcs h = Some p" and "conn_ok (h \<in> L') p c" and "L' - {h} = L - {h}"
  shows "conn_rel L' pcs (conns(h \<mapsto> c))"
  using conn_rel_both [OF assms(1,3,4)] assms(2) by (simp add: fun_upd_idem)

lemma conn_rel_pc:
  assumes "conn_rel L pcs conns" and "conns h = Some c" and "conn_ok (h \<in> L') p c" and "L' - {h} = L - {h}"
  shows "conn_rel L' (pcs(h \<mapsto> p)) conns"
  using conn_rel_both [OF assms(1,3,4)] assms(2) by (simp add: fun_upd_idem)

lemma conn_ok_live:
  "conn_ok l p c \<Longrightarrow> cclosed (conn_Queue c') = cclosed (conn_Queue c) \<Longrightarrow> conn_Closed c' = conn_Closed c \<Longrightarrow>
     conn_ok l p c'"
  by (cases p) auto

lemma conn_ok_close:
  "conn_ok True p c \<Longrightarrow> conn_ok l p (c\<lparr>conn_Queue := (conn_Queue c)\<lparr>cclosed := True\<rparr>\<rparr>)"
  by (cases p) auto

lemma live_simps:
  "sy_threads s = [] \<Longrightarrow> live s = {}"
  "sy_threads s = [th] \<Longrightarrow> live s = th_open th"
  by (simp_all add: live_def)

lemma close_all:
  assumes "go_foreach close_conn order conns = Inr conns'" and "distinct order"
  shows "conns' = (\<lambda>h. if h \<in> set order
           then map_option (\<lambda>c. c\<lparr>conn_Queue := (conn_Queue c)\<lparr>cclosed := True\<rparr>\<rparr>) (conns h) else conns h)
     \<and> (\<forall>h \<in> set order. open_conn conns h)"
  using assms
proof (induction order arbitrary: conns)
  case Nil
  then show ?case by simp
next
  case (Cons c order)
  from Cons.prems(1) obtain conns1 where c1: "close_conn c conns = Inr conns1"
      "go_foreach close_conn order conns1 = Inr conns'"
    by (auto simp: go_bind_Inr_conv)
  from close_conn_Inr [OF c1(1)] obtain conn where conn: "conns c = Some conn" "\<not> cclosed (conn_Queue conn)"
      "conns1 = conns(c \<mapsto> conn\<lparr>conn_Queue := (conn_Queue conn)\<lparr>cclosed := True\<rparr>\<rparr>)" .
  from Cons.IH [OF c1(2)] Cons.prems(2) conn show ?case
    by (auto simp: fun_eq_iff open_conn_def split: if_splits option.splits)
qed

lemma close_all_open:
  assumes "distinct order" and "\<forall>h \<in> set order. open_conn conns h"
  shows "\<exists>conns'. go_foreach close_conn order conns = Inr conns'"
  using assms
proof (induction order arbitrary: conns)
  case Nil
  then show ?case by simp
next
  case (Cons c order)
  then obtain conn where conn: "conns c = Some conn" "\<not> cclosed (conn_Queue conn)"
    by (auto simp: open_conn_def split: option.splits)
  let ?conns = "conns(c \<mapsto> conn\<lparr>conn_Queue := (conn_Queue conn)\<lparr>cclosed := True\<rparr>\<rparr>)"
  have "\<forall>h \<in> set order. open_conn ?conns h"
    using Cons.prems by (auto simp: open_conn_def)
  from Cons.IH [OF _ this] Cons.prems(1) close_conn_open [of conns c, OF conn] show ?case
    by (simp del: fun_upd_apply)
qed

lemma Serve_start_conn:
  assumes "Serve_start now ok pre c = (r, c')"
  shows "conn_Queue c' = conn_Queue c" "conn_Closed c' = conn_Closed c"
  using assms by (auto simp: Serve_start_def Let_def split: if_splits)

lemma Serve_turn_conn:
  assumes "Serve_turn choice c = Some (r, c')"
  shows "cclosed (conn_Queue c') = cclosed (conn_Queue c)" "r \<Longrightarrow> conn_Closed c' = conn_Closed c"
    "conn_Closed c' \<Longrightarrow> \<not> conn_Closed c \<Longrightarrow> cclosed (conn_Queue c)"
  using assms by (auto simp: Serve_turn_def chan_recv_def chan_unpark_def
      split: serve_choice.splits option.splits list.splits if_splits)

lemma conn_inv_cong:
  assumes "conn_inv s" and "sy_threads s' = sy_threads s" and "sy_pc s' = sy_pc s" and "sy_conns s' = sy_conns s"
  shows "conn_inv s'"
  using assms by (simp add: conn_inv_def live_def)

lemma conn_inv_thread:
  assumes "conn_inv s" and "token_inv s" and "thread_at i s = Some th"
    and "sy_threads s' = (sy_threads s)[i := th']" and "sy_pc s' = sy_pc s" and "sy_conns s' = sy_conns s"
    and "thread_ok th \<Longrightarrow> thread_ok th' \<and> th_open th' = th_open th"
  shows "conn_inv s'"
  using assms token_thread [OF assms(2,3)] by (simp add: conn_inv_def live_simps)

lemma conn_invD:
  assumes "conn_inv s" and "token_inv s" and "thread_at i s = Some th"
  shows "thread_ok th" "conn_rel (th_open th) (sy_pc s) (sy_conns s)" "sy_threads s = [th]" "i = 0"
  using assms token_thread [OF assms(2,3)] by (auto simp: conn_inv_def live_simps)

lemma conn_inv_single:
  assumes "sy_threads s = [th]" and "thread_ok th" and "conn_rel (th_open th) (sy_pc s) (sy_conns s)"
  shows "conn_inv s"
  using assms by (simp add: conn_inv_def live_simps)

text \<open>A step of a handler on its own connection.\<close>

lemma conn_inv_handler:
  assumes "conn_inv s" and "sy_threads s' = sy_threads s"
    and "sy_pc s' = (sy_pc s)(h \<mapsto> p)" and "sy_conns s' = (sy_conns s)(h \<mapsto> c)" and "conn_ok (h \<in> live s) p c"
  shows "conn_inv s'"
  using assms conn_rel_both [of "live s" "sy_pc s" "sy_conns s" h "live s" p c]
  by (simp add: conn_inv_def live_def)

lemma conn_inv_dom: "conn_inv s \<Longrightarrow> sy_pc s h = None \<Longrightarrow> h \<notin> live s \<and> sy_conns s h = None"
  by (auto simp: conn_inv_def conn_rel_def)

lemma conn_inv_ok: "conn_inv s \<Longrightarrow> sy_pc s h = Some p \<Longrightarrow> sy_conns s h = Some c \<Longrightarrow> conn_ok (h \<in> live s) p c"
  unfolding conn_inv_def by (blast dest: conn_relD)

lemma conn_inv_conn: "conn_inv s \<Longrightarrow> sy_pc s h = Some p \<Longrightarrow> \<exists>c. sy_conns s h = Some c"
  unfolding conn_inv_def conn_rel_def by (metis domD domI)

lemma conn_inv_LoopPacket:
  assumes inv: "conn_inv s" and tok: "token_inv s" and step: "do_LoopPacket i order s = Some (Inr s')"
  shows "conn_inv s'"
  using step
proof (cases rule: do_LoopPacket_Inr)
  case 1
  with conn_invD [OF inv tok 1(1)] show ?thesis by (simp add: conn_inv_def live_def thread_ok_def th_open_def)
qed

lemma conn_inv_LoopClosed:
  assumes inv: "conn_inv s" and tok: "token_inv s" and step: "do_LoopClosed i order s = Some (Inr s')"
  shows "conn_inv s'"
  using step
proof (cases rule: do_LoopClosed_Inr)
  case 1
  with conn_invD [OF inv tok 1(1)] show ?thesis by (simp add: conn_inv_def live_def thread_ok_def th_open_def)
qed

lemma conn_inv_Distribute:
  assumes inv: "conn_inv s" and tok: "token_inv s" and step: "do_Distribute i s = Some (Inr s')"
  shows "conn_inv s'"
  using step
proof (cases rule: do_Distribute_Inr)
  case (queued th packet c todo conn)
  note d = conn_invD [OF inv tok queued(1)]
  let ?th = "th\<lparr>th_pc := Distributing packet todo\<rparr>"
  have o: "th_open ?th = th_open th" "thread_ok ?th" using queued(2) d(1) by (auto simp: th_open_def thread_ok_def)
  have "c \<in> th_open th" using queued(2) d(1) by (auto simp: th_open_def thread_ok_def)
  then obtain pc where pc: "sy_pc s c = Some pc" using d(2) by (auto simp: conn_rel_def)
  have "conn_ok (c \<in> th_open ?th) pc (conn\<lparr>conn_Queue := (conn_Queue conn)\<lparr>cbuf := cbuf (conn_Queue conn) @ [packet]\<rparr>\<rparr>)"
    unfolding o(1) using conn_relD [OF d(2) pc queued(3)] by (rule conn_ok_live) simp_all
  with d(2) pc o have "conn_rel (th_open ?th) (sy_pc s') (sy_conns s')"
    unfolding queued(6) by (simp add: conn_rel_conn)
  then show ?thesis
    using d(3,4) o by (intro conn_inv_single [of s' ?th]) (simp_all add: queued(6))
next
  case (dropped th packet c todo)
  with conn_invD [OF inv tok dropped(1)] show ?thesis
    by (auto simp: conn_inv_def live_def thread_ok_def th_open_def)
next
  case (finished th packet)
  with conn_invD [OF inv tok finished(1)] show ?thesis
    by (auto simp: conn_inv_def live_def thread_ok_def th_open_def)
qed

lemma conn_inv_Cleanup:
  assumes inv: "conn_inv s" and tok: "token_inv s" and step: "do_Cleanup i s = Some (Inr s')"
  shows "conn_inv s'"
  using step
proof (cases rule: do_Cleanup_Inr)
  case (close th c todo conn)
  note d = conn_invD [OF inv tok close(1)]
  let ?th = "th\<lparr>th_pc := CleaningUp todo\<rparr>"
  have "c \<in> th_open th" using close(2) by (simp add: th_open_def)
  then obtain pc where pc: "sy_pc s c = Some pc" using d(2) by (auto simp: conn_rel_def)
  have "conn_ok True pc conn" using conn_relD [OF d(2) pc close(3)] \<open>c \<in> th_open th\<close> by simp
  from conn_ok_close [OF this]
  have "conn_ok (c \<in> th_open ?th) pc (conn\<lparr>conn_Queue := (conn_Queue conn)\<lparr>cclosed := True\<rparr>\<rparr>)" .
  moreover have "th_open ?th - {c} = th_open th - {c}" "thread_ok ?th"
    using close(2) d(1) by (auto simp: th_open_def thread_ok_def)
  ultimately show ?thesis
    using d pc by (intro conn_inv_single [of s' ?th]) (simp_all add: close(5) conn_rel_conn)
next
  case (finished th)
  with conn_invD [OF inv tok finished(1)] show ?thesis
    by (auto simp: conn_inv_def live_def th_open_def remove_nth_def)
qed

lemma conn_inv_Input:
  assumes inv: "conn_inv s" and tok: "token_inv s" and step: "do_InputSend i p s = Some (Inr s') \<or> do_InputClose i s = Some (Inr s')"
  shows "conn_inv s'"
  using step
proof (cases rule: do_Input_Inr)
  case (loop th q)
  with conn_invD [OF inv tok loop(1)] show ?thesis by (simp add: conn_inv_def live_def)
next
  case (call j q)
  with inv show ?thesis by (simp add: conn_inv_def live_def)
qed

lemmas conn_inv_loop = conn_inv_LoopPacket conn_inv_LoopClosed conn_inv_Distribute conn_inv_Cleanup conn_inv_Input

lemma conn_inv_LoopInhibit:
  assumes inv: "conn_inv s" and tok: "token_inv s" and step: "do_LoopInhibit accept i order b s = Some (Inr s')"
  shows "conn_inv s'"
  using step
proof (cases rule: do_LoopInhibit_Inr)
  case (1 th conns)
  note d = conn_invD [OF inv tok 1(1)]
  have "conn_rel (th_open th) (sy_pc s) conns"
  proof (cases b)
    case True
    with 1(5) have "go_foreach close_conn order (sy_conns s) = Inr conns" by simp
    from close_all [OF this 1(3)] have conns: "conns = (\<lambda>h. if h \<in> set order
        then map_option (\<lambda>c. c\<lparr>conn_Queue := (conn_Queue c)\<lparr>cclosed := True\<rparr>\<rparr>) (sy_conns s h) else sy_conns s h)"
      by blast
    have "set order = th_open th" using 1(2,4) by (simp add: th_open_def)
    then have "conn_ok (k \<in> th_open th) p c" if "sy_pc s k = Some p" "conns k = Some c" for k p c
      using conn_relD [OF d(2) that(1)] conn_ok_close [of p] that(2) by (auto simp: conns split: if_splits)
    moreover have "dom conns = dom (sy_conns s)" by (auto simp: conns dom_def split: if_splits)
    ultimately show ?thesis using d(2) by (auto simp: conn_rel_def)
  next
    case False
    with 1(5) d(2) show ?thesis by simp
  qed
  with d 1(2) show ?thesis
    by (simp add: 1(6) conn_inv_def live_def thread_ok_def th_open_def)
qed

lemma conn_inv_LoopAdd:
  assumes inv: "conn_inv s" and tok: "token_inv s" and step: "do_LoopAdd accept i h now s = Some (Inr s')"
  shows "conn_inv s'"
  using step
proof (cases rule: do_LoopAdd_Inr)
  case (1 th conn ok b)
  note d = conn_invD [OF inv tok 1(3)]
  have hok: "conn_ok (h \<in> th_open th) HAdd conn" using conn_relD [OF d(2) 1(1,2)] .
  then have h: "h \<notin> set (sl_pool (th_vars th))" using 1(4) by (simp add: th_open_def)
  let ?th = "th\<lparr>th_vars := (th_vars th)\<lparr>sl_pool := sl_pool (th_vars th) @ [h]\<rparr>\<rparr>"
  show ?thesis
  proof (cases ok)
    case True
    have "conn_rel (th_open ?th) ((sy_pc s)(h \<mapsto> HAccepted)) (sy_conns s)"
      using d(2) 1(2,4) hok by (intro conn_rel_pc [OF d(2) 1(2)]) (auto simp: th_open_def)
    moreover have "thread_ok ?th" using d(1) h 1(4) by (simp add: thread_ok_def)
    ultimately show ?thesis
      using d(3,4) True h by (intro conn_inv_single [of s' ?th]) (simp_all add: 1(6) added_def)
  next
    case False
    with d 1(2) hok show ?thesis
      by (intro conn_inv_single [of s' th]) (simp_all add: 1(6) added_def conn_rel_both)
  qed
qed

lemma conn_inv_LoopRemove:
  assumes inv: "conn_inv s" and tok: "token_inv s" and step: "do_LoopRemove accept i h s = Some (Inr s')"
  shows "conn_inv s'"
  using step
proof (cases rule: do_LoopRemove_Inr)
  case (1 th conn conns)
  note d = conn_invD [OF inv tok 1(3)]
  let ?th = "th\<lparr>th_vars := (th_vars th)\<lparr>sl_pool := removeAll h (sl_pool (th_vars th))\<rparr>\<rparr>"
  have o: "th_open ?th = th_open th - {h}" "thread_ok ?th" using 1(4) d(1) by (simp_all add: th_open_def thread_ok_def distinct_removeAll)
  have ok: "conn_ok (h \<in> th_open th) HRemove conn" using conn_relD [OF d(2) 1(1,2)] .
  have "conn_rel (th_open ?th) ((sy_pc s)(h \<mapsto> HDrain)) conns"
  proof (cases "conn_Closed conn")
    case True
    with 1(5) have "conns = sy_conns s" by simp
    with ok True o(1) show ?thesis by (simp add: conn_rel_pc [OF d(2) 1(2)])
  next
    case False
    with 1(5) have "close_conn h (sy_conns s) = Inr conns" by simp
    then have "conns = (sy_conns s)(h \<mapsto> conn\<lparr>conn_Queue := (conn_Queue conn)\<lparr>cclosed := True\<rparr>\<rparr>)"
      by (rule close_conn_Inr) (use 1(2) in simp)
    then show ?thesis using d(2) o(1) by (simp add: conn_rel_both)
  qed
  then show ?thesis
    using d(3,4) o(2) by (intro conn_inv_single [of s' ?th]) (simp_all add: 1(6))
qed

lemmas conn_inv_request = conn_inv_LoopInhibit conn_inv_LoopAdd conn_inv_LoopRemove

lemma conn_inv_HttpRequest:
  assumes inv: "conn_inv s" and tok: "token_inv s" and step: "do_HttpRequest h r s = Some (Inr s')"
  shows "conn_inv s'"
  using step
proof (cases rule: do_HttpRequest_Inr)
  case (1 ok w)
  with conn_inv_dom [OF inv 1(1)] show ?thesis
    by (intro conn_inv_handler [OF inv, of s' h]) (auto simp: NewConnection_def make_chan_def)
qed

lemma conn_inv_EatAdd:
  assumes inv: "conn_inv s" and tok: "token_inv s" and step: "do_EatAdd h now s = Some (Inr s')"
  shows "conn_inv s'"
  using step
proof (cases rule: do_EatAdd_Inr)
  case (1 conn)
  with conn_inv_ok [OF inv 1(1,2)] show ?thesis by (intro conn_inv_handler [OF inv, of s' h]) auto
qed

lemma conn_inv_StartServe:
  assumes inv: "conn_inv s" and tok: "token_inv s" and step: "do_StartServe h now ok s = Some (Inr s')"
  shows "conn_inv s'"
  using step
proof (cases rule: do_StartServe_Inr)
  case (1 conn running conn')
  with conn_inv_ok [OF inv 1(1,2)] Serve_start_conn [OF 1(3)] show ?thesis by (cases running; intro conn_inv_handler [OF inv, of s' h]) auto
qed

lemma conn_inv_ServePark:
  assumes inv: "conn_inv s" and tok: "token_inv s" and step: "do_ServePark h s = Some (Inr s')"
  shows "conn_inv s'"
  using step
proof (cases rule: do_ServePark_Inr)
  case (1 conn)
  with conn_inv_ok [OF inv 1(1,2)] show ?thesis 
    by (intro conn_inv_handler [OF inv, of s' h HServe "conn\<lparr>conn_Queue := chan_park (conn_Queue conn)\<rparr>"]) (auto simp: chan_park_def fun_upd_idem)
qed

lemma conn_inv_ServeTurn:
  assumes inv: "conn_inv s" and tok: "token_inv s" and step: "do_ServeTurn h choice s = Some (Inr s')"
  shows "conn_inv s'"
  using step
proof (cases rule: do_ServeTurn_Inr)
  case (1 conn running conn')
  with conn_inv_ok [OF inv 1(1,2)] Serve_turn_conn [OF 1(3)] show ?thesis by (cases running; intro conn_inv_handler [OF inv, of s' h]) auto
qed

lemma conn_inv_EatRemove:
  assumes inv: "conn_inv s" and tok: "token_inv s" and step: "do_EatRemove h s = Some (Inr s')"
  shows "conn_inv s'"
  using step
proof (cases rule: do_EatRemove_Inr)
  case (1 conn)
  with token_eater [OF tok 1(3)] have "live s = {}" by (simp add: live_simps)
  with 1 conn_inv_ok [OF inv 1(1,2)] show ?thesis by (intro conn_inv_handler [OF inv, of s' h HDrain conn]) (auto simp: fun_upd_idem)
qed

lemma conn_inv_Drain:
  assumes inv: "conn_inv s" and tok: "token_inv s" and step: "do_Drain h d s = Some (Inr s')"
  shows "conn_inv s'"
  using step
proof (cases rule: do_Drain_Inr)
  case (1 conn)
  with conn_inv_ok [OF inv 1(1,2)] show ?thesis by (intro conn_inv_handler [OF inv, of s' h]) auto
qed

lemma conn_inv_Release:
  assumes inv: "conn_inv s" and tok: "token_inv s" and step: "do_Release release h s = Some (Inr s')"
  shows "conn_inv s'"
  using step
proof (cases rule: do_Release_Inr)
  case 1
  then obtain conn where c: "sy_conns s h = Some conn" using conn_inv_conn [OF inv] by blast
  with 1 conn_inv_ok [OF inv 1(1) c] show ?thesis by (intro conn_inv_handler [OF inv, of s' h HDone conn]) (auto simp: fun_upd_idem)
qed

lemmas conn_inv_serve = conn_inv_HttpRequest conn_inv_EatAdd conn_inv_StartServe conn_inv_ServePark conn_inv_ServeTurn conn_inv_EatRemove conn_inv_Drain conn_inv_Release

lemma conn_step:
  assumes inv: "conn_inv s" and tok: "token_inv s" and step: "sys_step accept release a s = Some (Inr s')"
  shows "conn_inv s'"
proof (cases a)
  case (StreamCall q)
  with step show ?thesis by (auto simp: step_defs intro: conn_inv_cong [OF inv] split: if_splits bool.splits prod.splits)
next
  case (EatStart j)
  with step have "sy_threads s = []" using token_eater [OF tok] by (auto simp: step_defs split: if_splits)
  with EatStart step inv show ?thesis
    by (auto simp: step_defs conn_inv_def live_def thread_ok_def th_open_def new_thread_def stream_vars_init_def split: if_splits)
next
  case (LoopStart i j)
  with step obtain th where th: "thread_at i s = Some th" "th_pc th = InLoop" "j < length (sy_starting s)"
    by (auto simp: step_defs split: option.splits if_splits)
  from token_thread [OF tok th(1)] th tok show ?thesis
    by (auto simp: token_inv_def looping_def split: if_splits)
next
  case (EatInhibit b)
  with step inv show ?thesis by (auto simp: step_defs split: if_splits)
next
  case (OtherAccept addr)
  with step show ?thesis by (auto simp: step_defs intro: conn_inv_cong [OF inv] split: prod.splits)
next
  case OtherRelease
  with step show ?thesis by (auto simp: step_defs intro: conn_inv_cong [OF inv] split: if_splits)
qed (use step in \<open>auto intro: conn_inv_loop [OF inv tok] conn_inv_request [OF inv tok] conn_inv_serve [OF inv tok]\<close>)

lemma conn_reachable:
  assumes "reachable accept release str b s" and "str_running str = AtomicFalse"
  shows "conn_inv s"
  using assms(1)
proof induction
  case init
  show ?case by (simp add: conn_inv_def conn_rel_def sys_init_def live_def)
next
  case (step s a s')
  with token_reachable [OF step(1) assms(2)] show ?case using conn_step by blast
qed

section \<open>Places at the broker\<close>

fun holding :: "handler_pc \<Rightarrow> bool" where
  "holding HAdd = False"
| "holding HDone = False"
| "holding _ = True"

definition held_by :: "(nat \<rightharpoonup> handler_pc) \<Rightarrow> nat set" where
  "held_by pcs = {h. \<exists>p. pcs h = Some p \<and> holding p}"

abbreviation held :: "'b system \<Rightarrow> nat set" where
  "held s \<equiv> held_by (sy_pc s)"

lemma held_upd [simp]:
  "held_by (pcs(h \<mapsto> p)) = (if holding p then insert h (held_by pcs) else held_by pcs - {h})"
  by (auto simp: held_by_def)

lemma held_in: "pcs h = Some p \<Longrightarrow> h \<in> held_by pcs \<longleftrightarrow> holding p"
  by (simp add: held_by_def)

lemma held_same:
  assumes "pcs h = Some p"
  shows "holding p \<Longrightarrow> insert h (held_by pcs) = held_by pcs" "\<not> holding p \<Longrightarrow> held_by pcs - {h} = held_by pcs"
  using held_in [of pcs, OF assms] by auto

lemma held_none: "pcs h = None \<Longrightarrow> held_by pcs - {h} = held_by pcs"
  by (auto simp: held_by_def)

text \<open>Every step but the acceptance of a client, its release and those of other streamers leaves the
  broker and the holders of a place alone.\<close>

lemma broker_unchanged:
  assumes "sys_step accept release a s = Some (Inr s')"
    and "\<not> (\<exists>i h now addr. a = LoopAdd i h now \<or> a = ReleasePlace h \<or> a = OtherAccept addr \<or> a = OtherRelease)"
  shows "sy_broker s' = sy_broker s \<and> sy_others s' = sy_others s \<and> held s' = held s"
  using assms by (cases a) (auto elim!: step_Inr simp: held_none held_same split: if_splits)

context connection_broker
begin

definition places_ok :: "nat \<Rightarrow> 'b system \<Rightarrow> bool" where
  "places_ok n s \<longleftrightarrow> invar (sy_broker s) \<and> places (sy_broker s) = n \<and> finite (held s)
     \<and> taken (sy_broker s) = card (held s) + sy_others s"

lemma places_step:
  assumes inv: "places_ok n s" and step: "sys_step accept release a s = Some (Inr s')"
  shows "places_ok n s'"
proof (cases "\<exists>i h now addr. a = LoopAdd i h now \<or> a = ReleasePlace h \<or> a = OtherAccept addr \<or> a = OtherRelease")
  case False
  from broker_unchanged [OF step False] inv show ?thesis by (simp add: places_ok_def)
next
  case True
  note I = inv [unfolded places_ok_def]
  from True consider i h now where "do_LoopAdd accept i h now s = Some (Inr s')"
    | h where "do_Release release h s = Some (Inr s')" | addr where "do_OtherAccept accept addr s = Some (Inr s')"
    | "do_OtherRelease release s = Some (Inr s')"
    using step by auto
  then show ?thesis
  proof cases
    case 1
    then show ?thesis
    proof (cases rule: do_LoopAdd_Inr)
      case (1 th conn ok b)
      have h: "h \<notin> held s" using held_in [of "sy_pc s", OF 1(1)] by simp
      have b: "taken b = taken (sy_broker s) + (if ok then 1 else 0)" "places b = n" "invar b"
        using accept_result [of "sy_broker s" "conn_ClientAddress conn" ok b] 1(5) I by (auto split: if_splits)
      with h 1(2) I show ?thesis by (cases ok) (simp_all add: 1(6) added_def places_ok_def)
    qed
  next
    case 2
    then show ?thesis
    proof (cases rule: do_Release_Inr)
      case 1
      have h: "h \<in> held s" using held_in [of "sy_pc s", OF 1(1)] by simp
      then have "card (held s) = Suc (card (held s - {h}))" using I by (metis card.remove)
      with I release_taken [of "sy_broker s"] release_invar [of "sy_broker s"] show ?thesis
        by (auto simp: 1(2) places_ok_def)
    qed
  next
    case (3 addr)
    then show ?thesis
      using accept_result [of "sy_broker s" addr] I by (auto simp: step_defs places_ok_def split: prod.splits)
  next
    case 4
    then show ?thesis
      using release_taken [of "sy_broker s"] release_invar [of "sy_broker s"] I
      by (auto simp: step_defs places_ok_def split: if_splits)
  qed
qed

lemma places_reachable:
  assumes "reachable accept release str b s" and "invar b" and "taken b = 0"
  shows "places_ok (places b) s"
  using assms(1)
proof induction
  case init
  show ?case using assms(2,3) by (simp add: places_ok_def sys_init_def held_by_def)
qed (rule places_step)

end

section \<open>Absence of panics\<close>

fun serving :: "handler_pc \<Rightarrow> bool" where
  "serving HAccepted = True"
| "serving HServe = True"
| "serving HRemove = True"
| "serving _ = False"

text \<open>The steps of a streamer that is never inhibited and is only restarted once the clients of the
  previous session are gone.\<close>

definition calm :: "action \<Rightarrow> 'b system \<Rightarrow> bool" where
  "calm a s \<longleftrightarrow>
     (case a of
        LoopInhibit i order b \<Rightarrow> \<not> b
      | StreamCall q \<Rightarrow> \<forall>h p. sy_pc s h = Some p \<longrightarrow> \<not> serving p
      | _ \<Rightarrow> True)"

inductive calm_reachable ::
  "(string \<Rightarrow> 'b \<Rightarrow> bool \<times> 'b) \<Rightarrow> ('b \<Rightarrow> 'b) \<Rightarrow> Streamer \<Rightarrow> 'b \<Rightarrow> 'b system \<Rightarrow> bool"
  for accept release str b where
  init: "calm_reachable accept release str b (sys_init str b)"
| step: "calm_reachable accept release str b s \<Longrightarrow> calm a s \<Longrightarrow> sys_step accept release a s = Some (Inr s') \<Longrightarrow>
           calm_reachable accept release str b s'"

lemma calm_reachable_reachable:
  "calm_reachable accept release str b s \<Longrightarrow> reachable accept release str b s"
  by (induction rule: calm_reachable.induct) (auto intro: reachable.intros)

definition safe_inv :: "'b system \<Rightarrow> bool" where
  "safe_inv s \<longleftrightarrow> str_events (sy_str s) \<and> (\<forall>h \<in> live s. open_conn (sy_conns s) h)
     \<and> (sy_starting s \<noteq> [] \<longrightarrow> (\<forall>h p. sy_pc s h = Some p \<longrightarrow> \<not> serving p))
     \<and> (\<forall>th \<in> set (sy_threads s). looping th \<longrightarrow>
          (\<forall>h p. sy_pc s h = Some p \<longrightarrow> serving p \<longrightarrow> open_conn (sy_conns s) h))"

lemma conn_ok_serving: "conn_ok True p c \<Longrightarrow> serving p"
  by (cases p) auto

lemma live_serving: "conn_inv s \<Longrightarrow> h \<in> live s \<Longrightarrow> \<exists>p. sy_pc s h = Some p \<and> serving p"
  unfolding conn_inv_def conn_rel_def
  by (metis (full_types) conn_ok_serving domD subsetD)

lemma open_conn_upd:
  "open_conn (conns(c \<mapsto> conn)) h = (if h = c then \<not> cclosed (conn_Queue conn) else open_conn conns h)"
  by (simp add: open_conn_def)

lemma open_conn_Some: "conns h = Some c \<Longrightarrow> open_conn conns h \<longleftrightarrow> \<not> cclosed (conn_Queue c)"
  by (simp add: open_conn_def)

text \<open>No step panics in such a state.\<close>

lemma safe_no_panic:
  assumes safe: "safe_inv s" and inv: "conn_inv s" and tok: "token_inv s" and "calm a s"
  shows "sys_step accept release a s \<noteq> Some (Inl p)"
proof
  assume panic: "sys_step accept release a s = Some (Inl p)"
  have live: "open_conn (sy_conns s) c" if "thread_at i s = Some th" "c \<in> th_open th" for i th c
    using safe conn_invD(3) [OF inv tok that(1)] that(2) by (auto simp: safe_inv_def live_simps)
  show False
  proof (cases a)
    case (Distribute i)
    with panic obtain th packet c todo where th: "thread_at i s = Some th" "th_pc th = Distributing packet (c # todo)"
        "distribute1 packet c (sy_conns s, sy_str s) = Inl p"
      by (auto simp: step_defs go_bind_def split: option.splits loop_pc.splits list.splits sum.splits)
    have "c \<in> th_open th" using conn_invD(1) [OF inv tok th(1)] th(2) by (auto simp: thread_ok_def th_open_def)
    from live [OF th(1) this] th(3) show False
      by (auto simp: open_conn_def distribute1_def chan_try_send_def split: option.splits if_splits)
  next
    case (Cleanup i)
    with panic obtain th c todo where th: "thread_at i s = Some th" "th_pc th = CleaningUp (c # todo)"
        "close_conn c (sy_conns s) = Inl p"
      by (auto simp: step_defs go_bind_def split: option.splits loop_pc.splits list.splits sum.splits)
    from live [OF th(1), of c] th show False
      by (auto simp: open_conn_def close_conn_def chan_close_def th_open_def split: option.splits)
  next
    case (LoopRemove i h)
    with panic obtain th conn where th: "sy_pc s h = Some HRemove" "sy_conns s h = Some conn"
        "thread_at i s = Some th" "th_pc th = InLoop" "close_conn h (sy_conns s) = Inl p"
      by (auto simp: step_defs loop_request_def stream_request_def remove_request_def go_bind_def
          split: option.splits handler_pc.splits if_splits sum.splits)
    have "open_conn (sy_conns s) h"
      using safe conn_invD(3) [OF inv tok th(3)] th(1,4) by (auto simp: safe_inv_def looping_def)
    with th(5) show False by (auto simp: open_conn_def close_conn_def chan_close_def split: option.splits)
  next
    case (LoopAdd i h now)
    with panic show False
      by (auto simp: step_defs loop_request_def stream_request_def add_request_def go_bind_def
          split: option.splits handler_pc.splits if_splits sum.splits prod.splits)
  next
    case (LoopInhibit i order b)
    with panic assms(4) show False
      by (auto simp: step_defs loop_request_def stream_request_def SetInhibit_def new_request_def calm_def
          split: option.splits if_splits)
  qed (use panic safe in \<open>auto simp: step_defs safe_inv_def
         split: option.splits handler_pc.splits if_splits prod.splits bool.splits sum.splits\<close>)
qed

text \<open>Calm steps stay among such states.\<close>

lemma safe_handler:
  assumes "safe_inv s" and "sy_pc s h = Some p" and "sy_conns s h = Some c"
    and "sy_threads s' = sy_threads s" and "sy_starting s' = sy_starting s"
    and "sy_pc s' = (sy_pc s)(h \<mapsto> p')" and "sy_conns s' = (sy_conns s)(h \<mapsto> c')"
    and "str_events (sy_str s') = str_events (sy_str s)"
    and "cclosed (conn_Queue c') = cclosed (conn_Queue c)" and "serving p' \<Longrightarrow> serving p"
  shows "safe_inv s'"
proof -
  have "open_conn (sy_conns s') k = open_conn (sy_conns s) k" for k
    using assms(3,7,9) by (simp add: open_conn_def)
  moreover have "live s' = live s" using assms(4) by (simp add: live_def)
  ultimately show ?thesis
    using assms(1,2,4,5,6,8,10) unfolding safe_inv_def by (auto split: if_splits)
qed

lemma safe_loop:
  assumes "safe_inv s" and "token_inv s" and "thread_at i s = Some th" and "sy_threads s' = (sy_threads s)[i := th']"
    and "th_open th' = th_open th" and "looping th' \<Longrightarrow> looping th"
    and "sy_starting s' = sy_starting s" and "sy_pc s' = sy_pc s"
    and "\<And>h. open_conn (sy_conns s') h = open_conn (sy_conns s) h" and "str_events (sy_str s') = str_events (sy_str s)"
  shows "safe_inv s'"
  using assms token_thread [OF assms(2,3)] by (auto simp: safe_inv_def live_simps)

lemma safe_LoopPacket:
  assumes safe: "safe_inv s" and inv: "conn_inv s" and tok: "token_inv s" and step: "do_LoopPacket i order s = Some (Inr s')"
  shows "safe_inv s'"
  using step
proof (cases rule: do_LoopPacket_Inr)
  case (1 th packet q)
  then show ?thesis
    by (intro safe_loop [OF safe tok 1(1), where th' = "th\<lparr>th_queue := q, th_pc := Distributing packet order\<rparr>"])
       (simp_all add: th_open_def looping_def)
qed

lemma safe_LoopClosed:
  assumes safe: "safe_inv s" and inv: "conn_inv s" and tok: "token_inv s" and step: "do_LoopClosed i order s = Some (Inr s')"
  shows "safe_inv s'"
  using step
proof (cases rule: do_LoopClosed_Inr)
  case (1 th q)
  then show ?thesis
    by (intro safe_loop [OF safe tok 1(1), where th' = "th\<lparr>th_queue := q, th_pc := CleaningUp order\<rparr>"])
       (simp_all add: th_open_def looping_def)
qed

lemma safe_Distribute:
  assumes safe: "safe_inv s" and inv: "conn_inv s" and tok: "token_inv s" and step: "do_Distribute i s = Some (Inr s')"
  shows "safe_inv s'"
  using step
proof (cases rule: do_Distribute_Inr)
  case (queued th packet c todo conn)
  then show ?thesis
    by (intro safe_loop [OF safe tok queued(1), where th' = "th\<lparr>th_pc := Distributing packet todo\<rparr>"])
       (simp_all add: th_open_def looping_def open_conn_def)
next
  case (dropped th packet c todo)
  then show ?thesis
    by (intro safe_loop [OF safe tok dropped(1), where th' = "th\<lparr>th_pc := Distributing packet todo\<rparr>"])
       (simp_all add: th_open_def looping_def)
next
  case (finished th packet)
  then show ?thesis
    by (intro safe_loop [OF safe tok finished(1), where th' = "th\<lparr>th_pc := InLoop\<rparr>"]) (simp_all add: th_open_def looping_def)
qed

lemma safe_Cleanup:
  assumes safe: "safe_inv s" and inv: "conn_inv s" and tok: "token_inv s" and step: "do_Cleanup i s = Some (Inr s')"
  shows "safe_inv s'"
  using step
proof (cases rule: do_Cleanup_Inr)
  case (close th c todo conn)
  with conn_invD [OF inv tok close(1)] safe show ?thesis
    by (auto simp: safe_inv_def live_simps th_open_def looping_def thread_ok_def open_conn_upd)
next
  case (finished th)
  with conn_invD [OF inv tok finished(1)] safe show ?thesis
    by (auto simp: safe_inv_def live_def remove_nth_def)
qed

lemma safe_Input:
  assumes safe: "safe_inv s" and inv: "conn_inv s" and tok: "token_inv s" and step: "do_InputSend i p s = Some (Inr s') \<or> do_InputClose i s = Some (Inr s')"
  shows "safe_inv s'"
  using step
proof (cases rule: do_Input_Inr)
  case (loop th q)
  then show ?thesis by (intro safe_loop [OF safe tok loop(1), where th' = "th\<lparr>th_queue := q\<rparr>"]) simp_all
next
  case (call j q)
  with safe show ?thesis by (simp add: safe_inv_def live_def)
qed

lemma safe_LoopInhibit:
  assumes safe: "safe_inv s" and inv: "conn_inv s" and tok: "token_inv s" and step: "do_LoopInhibit accept i order False s = Some (Inr s')"
  shows "safe_inv s'"
  using step
proof (cases rule: do_LoopInhibit_Inr)
  case (1 th conns)
  then show ?thesis
    by (intro safe_loop [OF safe tok 1(1), where th' = "th\<lparr>th_vars := (th_vars th)\<lparr>sl_inhibit := False\<rparr>\<rparr>"])
       (simp_all add: th_open_def)
qed

lemmas safe_threads = safe_LoopPacket safe_LoopClosed safe_Distribute safe_Cleanup safe_Input safe_LoopInhibit

lemma safe_HttpRequest:
  assumes safe: "safe_inv s" and inv: "conn_inv s" and tok: "token_inv s" and step: "do_HttpRequest h r s = Some (Inr s')"
  shows "safe_inv s'"
  using step
proof (cases rule: do_HttpRequest_Inr)
  case (1 ok w)
  with conn_inv_dom [OF inv 1(1)] safe show ?thesis
    by (auto simp: safe_inv_def live_def open_conn_upd split: if_splits)
qed

lemma safe_EatAdd:
  assumes safe: "safe_inv s" and inv: "conn_inv s" and tok: "token_inv s" and step: "do_EatAdd h now s = Some (Inr s')"
  shows "safe_inv s'"
  using step
proof (cases rule: do_EatAdd_Inr)
  case (1 conn)
  then show ?thesis
    by (intro safe_handler [OF safe 1(1,2), where p' = HDone
          and c' = "conn\<lparr>conn_writer := ServeStreamError now (conn_writer conn) 404\<rparr>"]) auto
qed

lemma safe_StartServe:
  assumes safe: "safe_inv s" and inv: "conn_inv s" and tok: "token_inv s" and step: "do_StartServe h now ok s = Some (Inr s')"
  shows "safe_inv s'"
  using step
proof (cases rule: do_StartServe_Inr)
  case (1 conn running conn')
  with Serve_start_conn [OF 1(3)] show ?thesis
    by (intro safe_handler [OF safe 1(1,2), where p' = "if running then HServe else HRemove" and c' = conn']) auto
qed

lemma safe_ServePark:
  assumes safe: "safe_inv s" and inv: "conn_inv s" and tok: "token_inv s" and step: "do_ServePark h s = Some (Inr s')"
  shows "safe_inv s'"
  using step
proof (cases rule: do_ServePark_Inr)
  case (1 conn)
  then show ?thesis
    by (intro safe_handler [OF safe 1(1,2), where p' = HServe and c' = "conn\<lparr>conn_Queue := chan_park (conn_Queue conn)\<rparr>"])
       (auto simp: chan_park_def fun_upd_idem)
qed

lemma safe_ServeTurn:
  assumes safe: "safe_inv s" and inv: "conn_inv s" and tok: "token_inv s" and step: "do_ServeTurn h choice s = Some (Inr s')"
  shows "safe_inv s'"
  using step
proof (cases rule: do_ServeTurn_Inr)
  case (1 conn running conn')
  with Serve_turn_conn [OF 1(3)] show ?thesis
    by (intro safe_handler [OF safe 1(1,2), where p' = "if running then HServe else HRemove" and c' = conn']) auto
qed

lemma safe_EatRemove:
  assumes safe: "safe_inv s" and inv: "conn_inv s" and tok: "token_inv s" and step: "do_EatRemove h s = Some (Inr s')"
  shows "safe_inv s'"
  using step
proof (cases rule: do_EatRemove_Inr)
  case (1 conn)
  then show ?thesis by (intro safe_handler [OF safe 1(1,2), where p' = HDrain and c' = conn]) (auto simp: fun_upd_idem)
qed

lemma safe_Drain:
  assumes safe: "safe_inv s" and inv: "conn_inv s" and tok: "token_inv s" and step: "do_Drain h d s = Some (Inr s')"
  shows "safe_inv s'"
  using step
proof (cases rule: do_Drain_Inr)
  case (1 conn)
  then show ?thesis
    by (intro safe_handler [OF safe 1(1,2), where p' = HRelease
          and c' = "conn\<lparr>conn_Queue := (conn_Queue conn)\<lparr>cbuf := []\<rparr>\<rparr>"]) auto
qed

lemma safe_Release:
  assumes safe: "safe_inv s" and inv: "conn_inv s" and tok: "token_inv s" and step: "do_Release release h s = Some (Inr s')"
  shows "safe_inv s'"
  using step
proof (cases rule: do_Release_Inr)
  case 1
  obtain conn where c: "sy_conns s h = Some conn" using conn_inv_conn [OF inv 1(1)] by blast
  with 1 show ?thesis by (intro safe_handler [OF safe 1(1) c, where p' = HDone and c' = conn]) (auto simp: fun_upd_idem)
qed

lemma safe_LoopAdd:
  assumes safe: "safe_inv s" and inv: "conn_inv s" and tok: "token_inv s" and step: "do_LoopAdd accept i h now s = Some (Inr s')"
  shows "safe_inv s'"
  using step
proof (cases rule: do_LoopAdd_Inr)
  case (1 th conn ok b)
  note d = conn_invD [OF inv tok 1(3)]
  have hok: "conn_ok (h \<in> th_open th) HAdd conn" using conn_relD [OF d(2) 1(1,2)] .
  then have h: "h \<notin> set (sl_pool (th_vars th))" "open_conn (sy_conns s) h"
    using 1(2,4) by (simp_all add: th_open_def open_conn_def)
  have "sy_starting s = []" using tok d(3) 1(4) by (auto simp: token_inv_def looping_def split: if_splits)
  with safe d(3,4) 1(2,4) h show ?thesis
    by (cases ok) (auto simp: 1(6) added_def safe_inv_def live_simps th_open_def looping_def open_conn_def split: if_splits)
qed

lemma safe_LoopRemove:
  assumes safe: "safe_inv s" and inv: "conn_inv s" and tok: "token_inv s" and step: "do_LoopRemove accept i h s = Some (Inr s')"
  shows "safe_inv s'"
  using step
proof (cases rule: do_LoopRemove_Inr)
  case (1 th conn conns)
  note d = conn_invD [OF inv tok 1(3)]
  have "open_conn conns k = open_conn (sy_conns s) k" if "k \<noteq> h" for k
    using 1(5) that by (auto simp: open_conn_def split: if_splits elim!: close_conn_Inr)
  moreover have "sy_starting s = []" using tok d(3) 1(4) by (auto simp: token_inv_def looping_def split: if_splits)
  ultimately show ?thesis
    using safe d(3,4) 1(4) by (auto simp: 1(6) safe_inv_def live_simps th_open_def looping_def split: if_splits)
qed

lemmas safe_handlers = safe_HttpRequest safe_EatAdd safe_StartServe safe_ServePark safe_ServeTurn safe_EatRemove safe_Drain safe_Release safe_LoopAdd safe_LoopRemove

lemma safe_step:
  assumes safe: "safe_inv s" and inv: "conn_inv s" and tok: "token_inv s"
    and step: "sys_step accept release a s = Some (Inr s')" and "calm a s"
  shows "safe_inv s'"
proof (cases a)
  case (StreamCall q)
  with step safe \<open>calm a s\<close> show ?thesis
    by (auto simp: step_defs safe_inv_def live_def calm_def split: prod.splits bool.splits)
next
  case (EatStart j)
  with step have "sy_threads s = []" "sy_starting s \<noteq> []"
    using token_eater [OF tok] by (auto simp: step_defs split: if_splits)
  with EatStart step safe show ?thesis
    by (auto simp: step_defs safe_inv_def live_def th_open_def new_thread_def stream_vars_init_def split: if_splits)
next
  case (LoopStart i j)
  with step obtain th where th: "thread_at i s = Some th" "th_pc th = InLoop" "j < length (sy_starting s)"
    by (auto simp: step_defs split: option.splits if_splits)
  from token_thread [OF tok th(1)] th tok show ?thesis
    by (auto simp: token_inv_def looping_def split: if_splits)
next
  case (EatInhibit b)
  with step safe show ?thesis by (auto simp: step_defs split: if_splits)
next
  case (OtherAccept addr)
  with step safe show ?thesis by (auto simp: step_defs safe_inv_def live_def split: prod.splits)
next
  case OtherRelease
  with step safe show ?thesis by (auto simp: step_defs safe_inv_def live_def split: if_splits)
qed (use step \<open>calm a s\<close> in \<open>auto simp: calm_def intro: safe_threads [OF safe inv tok] safe_handlers [OF safe inv tok]\<close>)

lemma safe_reachable:
  assumes "calm_reachable accept release str b s" and "str_running str = AtomicFalse" and "str_events str"
  shows "safe_inv s"
  using assms(1)
proof induction
  case init
  show ?case using assms(3) by (simp add: safe_inv_def sys_init_def live_def)
next
  case (step s a s')
  note r = calm_reachable_reachable [OF step(1)]
  from safe_step [OF step.IH conn_reachable [OF r assms(2)] token_reachable [OF r assms(2)] step(3,2)] show ?case .
qed

end
