(* ===== verification/Stream_Delivery.thy ===== *)
theory Stream_Delivery
  imports Stream_Safety
begin

text \<open>
  The invariant behind delivery: at every moment, what a client has received and what is in its queue
  make up the packets put into the queue, and these are a subsequence of the packets the loops took
  from their input.
\<close>

section \<open>What the clients receive\<close>

fun deliver_ok :: "bytes \<Rightarrow> bytes list \<Rightarrow> handler_pc \<Rightarrow> Connection \<Rightarrow> bool" where
  "deliver_ok pre ps HAdd c \<longleftrightarrow> ps = [] \<and> cbuf (conn_Queue c) = [] \<and> rw_body (conn_writer c) = []"
| "deliver_ok pre ps HAccepted c \<longleftrightarrow> ps = cbuf (conn_Queue c) \<and> rw_body (conn_writer c) = [] \<and> \<not> conn_Closed c"
| "deliver_ok pre ps HServe c \<longleftrightarrow> (\<exists>p \<in> {[], pre}. served p ps \<lparr>sv_running = True, sv_conn = c\<rparr>)"
| "deliver_ok pre ps HRemove c \<longleftrightarrow> (\<exists>p \<in> {[], pre}. served p ps \<lparr>sv_running = False, sv_conn = c\<rparr>)"
| "deliver_ok pre ps _ c \<longleftrightarrow> (\<exists>p \<in> {[], pre}. \<exists>ds. prefix ds ps \<and> rw_body (conn_writer c) = p @ concat ds)"

definition dist_ok :: "'b system \<Rightarrow> bool" where
  "dist_ok s \<longleftrightarrow> (\<forall>h. subseq (sy_sent s h) (sy_seen s)) \<and>
     (\<forall>th \<in> set (sy_threads s). \<forall>p todo. th_pc th = Distributing p todo \<longrightarrow>
        (\<forall>h \<in> set todo. subseq (sy_sent s h @ [p]) (sy_seen s)))"

definition deliver_inv :: "bytes \<Rightarrow> 'b system \<Rightarrow> bool" where
  "deliver_inv pre s \<longleftrightarrow> str_preamble (sy_str s) = pre \<and> dist_ok s
     \<and> (\<forall>h. sy_pc s h = None \<longrightarrow> sy_sent s h = [])
     \<and> (\<forall>h p c. sy_pc s h = Some p \<longrightarrow> sy_conns s h = Some c \<longrightarrow> deliver_ok pre (sy_sent s h) p c)"

lemma served_weaken: "served pre ps sv \<Longrightarrow> \<exists>ds. prefix ds ps \<and> rw_body (conn_writer (sv_conn sv)) = pre @ concat ds"
  unfolding served_def by (metis append_assoc prefixI)

lemma deliver_start:
  assumes "deliver_ok pre ps HAccepted c" and "Serve_start now ok pre c = (running, c')"
  shows "deliver_ok pre ps (if running then HServe else HRemove) c'"
proof -
  let ?p = "if ok then pre else []"
  have "conn_Queue c' = conn_Queue c" "conn_Closed c' = conn_Closed c" "rw_body (conn_writer c') = ?p"
    using assms by (auto simp: Serve_start_def Let_def stream_headers_def split: if_splits)
  with assms(1) have "served ?p ps \<lparr>sv_running = r, sv_conn = c'\<rparr>" for r by (simp add: served_def)
  then show ?thesis by (cases ok; cases running) auto
qed

lemma deliver_turn:
  assumes "deliver_ok pre ps HServe c" and "Serve_turn choice c = Some (running, c')"
  shows "deliver_ok pre ps (if running then HServe else HRemove) c'"
proof -
  from assms(1) obtain p where p: "p \<in> {[], pre}" "served p ps \<lparr>sv_running = True, sv_conn = c\<rparr>" by auto
  from Serve_turn_served [OF p(2)] assms(2) have "served p ps \<lparr>sv_running = running, sv_conn = c'\<rparr>" by simp
  with p(1) show ?thesis by (cases running) auto
qed

lemma deliver_enqueue:
  assumes "deliver_ok pre ps p c" and "serving p" and "\<not> cclosed (conn_Queue c)" and "chan_room (conn_Queue c)"
  shows "deliver_ok pre (ps @ [x]) p (c\<lparr>conn_Queue := (conn_Queue c)\<lparr>cbuf := cbuf (conn_Queue c) @ [x]\<rparr>\<rparr>)"
proof -
  have "served q (ps @ [x]) \<lparr>sv_running = r, sv_conn = c\<lparr>conn_Queue := (conn_Queue c)\<lparr>cbuf := cbuf (conn_Queue c) @ [x]\<rparr>\<rparr>\<rparr>"
    if "served q ps \<lparr>sv_running = r, sv_conn = c\<rparr>" for q r
    using serve_event_served [OF that, of "Enqueue x"] assms(3,4)
    by (simp add: serve_event_step_def chan_try_send_def queued_by_def)
  with assms(1,2) show ?thesis by (cases p) auto
qed

lemma deliver_close:
  "deliver_ok pre ps p c \<Longrightarrow> deliver_ok pre ps p (c\<lparr>conn_Queue := (conn_Queue c)\<lparr>cclosed := True\<rparr>\<rparr>)"
  by (cases p) (auto simp: served_def)

lemma deliver_park: "deliver_ok pre ps p c \<Longrightarrow> deliver_ok pre ps p (c\<lparr>conn_Queue := chan_park (conn_Queue c)\<rparr>)"
  by (cases p) (auto simp: served_def chan_park_def)

lemma deliver_drain: "deliver_ok pre ps HRemove c \<Longrightarrow> deliver_ok pre ps HDrain c"
  using served_weaken by fastforce

lemma deliver_refuse: "deliver_ok pre ps HAdd c \<Longrightarrow>
    deliver_ok pre ps HDone (c\<lparr>conn_writer := ServeStreamError now (conn_writer c) 404\<rparr>)"
  by (auto simp: ServeStreamError_def stream_headers_def intro: exI [of _ "[]"])

lemma deliver_inv_handler:
  assumes "deliver_inv pre s" and "sy_threads s' = sy_threads s" and "sy_seen s' = sy_seen s" and "sy_sent s' = sy_sent s"
    and "str_preamble (sy_str s') = str_preamble (sy_str s)"
    and "sy_pc s' = (sy_pc s)(h \<mapsto> p)" and "sy_conns s' = (sy_conns s)(h \<mapsto> c)" and "deliver_ok pre (sy_sent s h) p c"
  shows "deliver_inv pre s'"
proof -
  have "dist_ok s' = dist_ok s" using assms(2-4) by (simp add: dist_ok_def)
  with assms show ?thesis by (simp add: deliver_inv_def)
qed

lemma deliver_inv_cong:
  assumes "deliver_inv pre s" and "sy_seen s' = sy_seen s" and "sy_sent s' = sy_sent s"
    and "str_preamble (sy_str s') = str_preamble (sy_str s)" and "sy_pc s' = sy_pc s" and "sy_conns s' = sy_conns s"
    and "\<forall>th \<in> set (sy_threads s'). (\<exists>th0 \<in> set (sy_threads s). th_pc th0 = th_pc th) \<or> (\<forall>p todo. th_pc th \<noteq> Distributing p todo)"
  shows "deliver_inv pre s'"
proof -
  have "dist_ok s'"
    using assms(1,2,3,7) unfolding deliver_inv_def dist_ok_def by metis
  with assms(1-6) show ?thesis by (simp add: deliver_inv_def)
qed

lemma deliver_ok_of:
  "deliver_inv pre s \<Longrightarrow> sy_pc s h = Some p \<Longrightarrow> sy_conns s h = Some c \<Longrightarrow> deliver_ok pre (sy_sent s h) p c"
  by (simp add: deliver_inv_def)

lemma deliver_LoopPacket:
  assumes del: "deliver_inv pre s" and inv: "conn_inv s" and tok: "token_inv s" and step: "do_LoopPacket i order s = Some (Inr s')"
  shows "deliver_inv pre s'"
  using step
proof (cases rule: do_LoopPacket_Inr)
  case (1 th packet q)
  have sub: "subseq (sy_sent s h) (sy_seen s)" for h using del by (simp add: deliver_inv_def dist_ok_def)
  then have "dist_ok s'"
    using conn_invD(3,4) [OF inv tok 1(1)] by (auto simp: 1(6) dist_ok_def intro: list_emb_append2 subseq_append')
  with del show ?thesis by (simp add: 1(6) deliver_inv_def)
qed

lemma deliver_Distribute:
  assumes del: "deliver_inv pre s" and inv: "conn_inv s" and tok: "token_inv s" and step: "do_Distribute i s = Some (Inr s')"
  shows "deliver_inv pre s'"
  using step
proof (cases rule: do_Distribute_Inr)
  case (queued th packet c todo conn)
  note d = conn_invD [OF inv tok queued(1)]
  have c: "c \<in> th_open th" "c \<notin> set todo" using queued(2) d(1) by (auto simp: th_open_def thread_ok_def)
  then obtain pc where pc: "sy_pc s c = Some pc" "serving pc"
    using live_serving [OF inv] d(3) by (auto simp: live_simps)
  have all: "\<forall>h \<in> set (c # todo). subseq (sy_sent s h @ [packet]) (sy_seen s)"
    using del d(3) queued(2) by (auto simp: deliver_inv_def dist_ok_def)
  have "dist_ok s'"
    using del all c(2) d(3,4) by (auto simp: queued(6) deliver_inv_def dist_ok_def)
  moreover have "deliver_ok pre (sy_sent s c @ [packet]) pc
      (conn\<lparr>conn_Queue := (conn_Queue conn)\<lparr>cbuf := cbuf (conn_Queue conn) @ [packet]\<rparr>\<rparr>)"
    using deliver_enqueue [OF deliver_ok_of [OF del pc(1) queued(3)] pc(2) queued(4,5)] .
  ultimately show ?thesis
    using del pc(1) by (auto simp: queued(6) deliver_inv_def)
next
  case (dropped th packet c todo)
  with conn_invD(3,4) [OF inv tok dropped(1)] del show ?thesis by (auto simp: deliver_inv_def dist_ok_def)
next
  case (finished th packet)
  with conn_invD(3,4) [OF inv tok finished(1)] del show ?thesis by (auto simp: deliver_inv_def dist_ok_def)
qed

lemmas deliver_loop = deliver_LoopPacket deliver_Distribute

lemma deliver_LoopAdd:
  assumes del: "deliver_inv pre s" and inv: "conn_inv s" and tok: "token_inv s" and step: "do_LoopAdd accept i h now s = Some (Inr s')"
  shows "deliver_inv pre s'"
  using step
proof (cases rule: do_LoopAdd_Inr)
  case (1 th conn ok b)
  note d = conn_invD [OF inv tok 1(3)] and ok = deliver_ok_of [OF del 1(1,2)]
  have "dist_ok s'" using del d(3,4) 1(4) by (simp add: 1(6) deliver_inv_def dist_ok_def)
  moreover have "\<not> conn_Closed conn" using conn_relD [OF d(2) 1(1,2)] by simp
  ultimately show ?thesis
    using del ok deliver_refuse [OF ok, of now] 1(2) by (cases ok) (auto simp: 1(6) deliver_inv_def added_def)
qed

lemma deliver_LoopRemove:
  assumes del: "deliver_inv pre s" and inv: "conn_inv s" and tok: "token_inv s" and step: "do_LoopRemove accept i h s = Some (Inr s')"
  shows "deliver_inv pre s'"
  using step
proof (cases rule: do_LoopRemove_Inr)
  case (1 th conn conns)
  note d = conn_invD [OF inv tok 1(3)] and ok = deliver_ok_of [OF del 1(1,2)]
  have "dist_ok s'" using del d(3,4) 1(4) by (simp add: 1(6) deliver_inv_def dist_ok_def)
  moreover have "conns = sy_conns s \<or> conns = (sy_conns s)(h \<mapsto> conn\<lparr>conn_Queue := (conn_Queue conn)\<lparr>cclosed := True\<rparr>\<rparr>)"
    using 1(2,5) by (auto split: if_splits elim!: close_conn_Inr)
  ultimately show ?thesis
    using del deliver_drain [OF ok] deliver_drain [OF deliver_close [OF ok]] 1(2)
    by (auto simp: 1(6) deliver_inv_def simp del: deliver_ok.simps)
qed

lemma deliver_LoopInhibit:
  assumes del: "deliver_inv pre s" and inv: "conn_inv s" and tok: "token_inv s" and step: "do_LoopInhibit accept i order b s = Some (Inr s')"
  shows "deliver_inv pre s'"
  using step
proof (cases rule: do_LoopInhibit_Inr)
  case (1 th conns)
  note d = conn_invD [OF inv tok 1(1)]
  have "dist_ok s'" using del d(3,4) 1(2) by (simp add: 1(6) deliver_inv_def dist_ok_def)
  moreover have "deliver_ok pre (sy_sent s k) p c" if "sy_pc s k = Some p" "conns k = Some c" for k p c
  proof (cases b)
    case True
    with 1(5) have "go_foreach close_conn order (sy_conns s) = Inr conns" by simp
    from close_all [OF this 1(3)] that(2) deliver_ok_of [OF del that(1)] show ?thesis
      by (auto intro: deliver_close split: if_splits)
  next
    case False
    with 1(5) that deliver_ok_of [OF del that(1)] show ?thesis by simp
  qed
  ultimately show ?thesis using del by (simp add: 1(6) deliver_inv_def)
qed

lemma deliver_Cleanup:
  assumes del: "deliver_inv pre s" and inv: "conn_inv s" and tok: "token_inv s" and step: "do_Cleanup i s = Some (Inr s')"
  shows "deliver_inv pre s'"
  using step
proof (cases rule: do_Cleanup_Inr)
  case (close th c todo conn)
  note d = conn_invD [OF inv tok close(1)]
  have "dist_ok s'" using del d(3,4) by (simp add: close(5) deliver_inv_def dist_ok_def)
  with del close(3) deliver_close show ?thesis by (auto simp: close(5) deliver_inv_def)
next
  case (finished th)
  with conn_invD(3,4) [OF inv tok finished(1)] show ?thesis
    by (intro deliver_inv_cong [OF del]) (auto simp: remove_nth_def)
qed

lemmas deliver_requests = deliver_LoopAdd deliver_LoopRemove deliver_LoopInhibit deliver_Cleanup

lemma deliver_HttpRequest:
  assumes del: "deliver_inv pre s" and inv: "conn_inv s" and tok: "token_inv s" and step: "do_HttpRequest h r s = Some (Inr s')"
  shows "deliver_inv pre s'"
  using step
proof (cases rule: do_HttpRequest_Inr)
  case (1 ok w)
  have sent: "sy_sent s h = []" using del 1(1) by (simp add: deliver_inv_def)
  have "rw_body w = []"
    using 1(2) by (auto simp: HandleHttpAuthentication_def new_response_def Let_def split: if_splits)
  with sent have "deliver_ok pre (sy_sent s h) (if ok then HAdd else HDone)
      (NewConnection w (str_queueSize (sy_str s)) (rq_remote r))"
    by (cases ok) (auto simp: NewConnection_def make_chan_def)
  then show ?thesis by (intro deliver_inv_handler [OF del, of s' h]) (simp_all add: 1(3))
qed

lemma deliver_EatAdd:
  assumes del: "deliver_inv pre s" and inv: "conn_inv s" and tok: "token_inv s" and step: "do_EatAdd h now s = Some (Inr s')"
  shows "deliver_inv pre s'"
  using step
proof (cases rule: do_EatAdd_Inr)
  case (1 conn)
  from deliver_refuse [OF deliver_ok_of [OF del 1(1,2)], of now] show ?thesis
    by (intro deliver_inv_handler [OF del, of s' h]) (simp_all add: 1(4) del: deliver_ok.simps)
qed

lemma deliver_StartServe:
  assumes del: "deliver_inv pre s" and inv: "conn_inv s" and tok: "token_inv s" and step: "do_StartServe h now ok s = Some (Inr s')"
  shows "deliver_inv pre s'"
  using step
proof (cases rule: do_StartServe_Inr)
  case (1 conn running conn')
  have "Serve_start now ok pre conn = (running, conn')" using 1(3) del by (simp add: deliver_inv_def)
  from deliver_start [OF deliver_ok_of [OF del 1(1,2)] this] show ?thesis by (intro deliver_inv_handler [OF del, of s' h]) (simp_all add: 1(4))
qed

lemma deliver_ServePark:
  assumes del: "deliver_inv pre s" and inv: "conn_inv s" and tok: "token_inv s" and step: "do_ServePark h s = Some (Inr s')"
  shows "deliver_inv pre s'"
  using step
proof (cases rule: do_ServePark_Inr)
  case (1 conn)
  from deliver_park [OF deliver_ok_of [OF del 1(1,2)]] show ?thesis
    by (intro deliver_inv_handler [OF del, of s' h, where p = HServe]) (simp_all add: 1(1,3) fun_upd_idem)
qed

lemma deliver_ServeTurn:
  assumes del: "deliver_inv pre s" and inv: "conn_inv s" and tok: "token_inv s" and step: "do_ServeTurn h choice s = Some (Inr s')"
  shows "deliver_inv pre s'"
  using step
proof (cases rule: do_ServeTurn_Inr)
  case (1 conn running conn')
  from deliver_turn [OF deliver_ok_of [OF del 1(1,2)] 1(3)] show ?thesis by (intro deliver_inv_handler [OF del, of s' h]) (simp_all add: 1(4))
qed

lemma deliver_EatRemove:
  assumes del: "deliver_inv pre s" and inv: "conn_inv s" and tok: "token_inv s" and step: "do_EatRemove h s = Some (Inr s')"
  shows "deliver_inv pre s'"
  using step
proof (cases rule: do_EatRemove_Inr)
  case (1 conn)
  from deliver_drain [OF deliver_ok_of [OF del 1(1,2)]] show ?thesis
    by (intro deliver_inv_handler [OF del, of s' h, where c = conn]) (simp_all add: 1(2,4) fun_upd_idem del: deliver_ok.simps)
qed

lemma deliver_Drain:
  assumes del: "deliver_inv pre s" and inv: "conn_inv s" and tok: "token_inv s" and step: "do_Drain h d s = Some (Inr s')"
  shows "deliver_inv pre s'"
  using step
proof (cases rule: do_Drain_Inr)
  case (1 conn)
  from deliver_ok_of [OF del 1(1,2)] show ?thesis 
    by (intro deliver_inv_handler [OF del, of s' h, where p = HRelease and c = "conn\<lparr>conn_Queue := (conn_Queue conn)\<lparr>cbuf := []\<rparr>\<rparr>"]) (simp_all add: 1(4))
qed

lemma deliver_Release:
  assumes del: "deliver_inv pre s" and inv: "conn_inv s" and tok: "token_inv s" and step: "do_Release release h s = Some (Inr s')"
  shows "deliver_inv pre s'"
  using step
proof (cases rule: do_Release_Inr)
  case 1
  obtain conn where c: "sy_conns s h = Some conn" using conn_inv_conn [OF inv 1(1)] by blast
  from deliver_ok_of [OF del 1(1) c] show ?thesis by (intro deliver_inv_handler [OF del, of s' h, where c = conn and p = HDone]) (simp_all add: 1(2) c fun_upd_idem)
qed

lemmas deliver_handlers = deliver_HttpRequest deliver_EatAdd deliver_StartServe deliver_ServePark deliver_ServeTurn deliver_EatRemove deliver_Drain deliver_Release

lemma deliver_thread:
  assumes del: "deliver_inv pre s" and tok: "token_inv s" and "thread_at i s = Some th"
    and "sy_threads s' = (sy_threads s)[i := th']" and "th_pc th' = th_pc th \<or> (\<exists>order. th_pc th' = CleaningUp order)"
    and "sy_seen s' = sy_seen s" and "sy_sent s' = sy_sent s" and "sy_pc s' = sy_pc s" and "sy_conns s' = sy_conns s"
    and "str_preamble (sy_str s') = str_preamble (sy_str s)"
  shows "deliver_inv pre s'"
  using assms token_thread [OF tok assms(3)] by (intro deliver_inv_cong [OF del]) auto

lemma deliver_step:
  assumes del: "deliver_inv pre s" and inv: "conn_inv s" and tok: "token_inv s"
    and step: "sys_step accept release a s = Some (Inr s')"
  shows "deliver_inv pre s'"
proof (cases a)
  case (StreamCall q)
  with step show ?thesis
    by (auto simp: step_defs intro: deliver_inv_cong [OF del] split: prod.splits bool.splits)
next
  case (EatStart j)
  with step show ?thesis
    by (auto simp: step_defs new_thread_def intro!: deliver_inv_cong [OF del] split: if_splits)
next
  case (LoopStart i j)
  with step show ?thesis
    by (auto simp: step_defs new_thread_def intro!: deliver_inv_cong [OF del] split: option.splits if_splits)
next
  case (LoopClosed i order)
  with step show ?thesis by (auto elim!: step_Inr intro: deliver_thread [OF del tok])
next
  case (InputSend i p)
  with step show ?thesis by (auto elim!: step_Inr intro: deliver_thread [OF del tok] deliver_inv_cong [OF del])
next
  case (InputClose i)
  with step show ?thesis by (auto elim!: step_Inr intro: deliver_thread [OF del tok] deliver_inv_cong [OF del])
next
  case (EatInhibit b)
  with step del show ?thesis by (auto simp: step_defs split: if_splits)
next
  case (OtherAccept addr)
  with step show ?thesis by (auto simp: step_defs intro: deliver_inv_cong [OF del] split: prod.splits)
next
  case OtherRelease
  with step show ?thesis by (auto simp: step_defs intro: deliver_inv_cong [OF del] split: if_splits)
qed (use step in \<open>auto intro: deliver_loop [OF del inv tok] deliver_requests [OF del inv tok] deliver_handlers [OF del inv tok]\<close>)

lemma deliver_reachable:
  assumes "reachable accept release str b s" and "str_running str = AtomicFalse"
  shows "deliver_inv (str_preamble str) s"
  using assms(1)
proof induction
  case init
  show ?case by (simp add: deliver_inv_def dist_ok_def sys_init_def)
next
  case (step s a s')
  from deliver_step [OF step.IH conn_reachable [OF step(1) assms(2)] token_reachable [OF step(1) assms(2)] step(2)]
  show ?case .
qed

end
