(* ===== verification/Stream_Properties.thy ===== *)
theory Stream_Properties
  imports Stream_Delivery
begin

text \<open>
  What the invariants of \<open>Stream_Safety\<close> mean for a streamer: exclusion, the connection limit, delivery,
  absence of panics and progress, and the two ways in which a streamer does panic.
\<close>

section \<open>Notifications\<close>

fun reported :: "handler_pc \<Rightarrow> bool" where
  "reported HServe = True"
| "reported HRemove = True"
| "reported HDrain = True"
| "reported _ = False"

definition reported_by :: "(nat \<rightharpoonup> handler_pc) \<Rightarrow> nat set" where
  "reported_by pcs = {h. \<exists>p. pcs h = Some p \<and> reported p}"

lemma reported_upd [simp]:
  "reported_by (pcs(h \<mapsto> p)) = (if reported p then insert h (reported_by pcs) else reported_by pcs - {h})"
  by (auto simp: reported_by_def)

lemma reported_in: "pcs h = Some p \<Longrightarrow> h \<in> reported_by pcs \<longleftrightarrow> reported p"
  by (simp add: reported_by_def)

lemma reported_same:
  assumes "pcs h = Some p"
  shows "reported p \<Longrightarrow> insert h (reported_by pcs) = reported_by pcs"
    and "\<not> reported p \<Longrightarrow> reported_by pcs - {h} = reported_by pcs"
  using reported_in [of pcs, OF assms] by auto

lemma reported_none: "pcs h = None \<Longrightarrow> reported_by pcs - {h} = reported_by pcs"
  by (auto simp: reported_by_def)

definition notify_inv :: "'b system \<Rightarrow> bool" where
  "notify_inv s \<longleftrightarrow> finite (reported_by (sy_pc s)) \<and> sum_list (sy_notified s) = int (card (reported_by (sy_pc s)))"

lemma notify_unchanged:
  assumes "sys_step accept release a s = Some (Inr s')" and "\<not> (\<exists>h now ok d. a = StartServe h now ok \<or> a = Drain h d)"
  shows "sy_notified s' = sy_notified s \<and> reported_by (sy_pc s') = reported_by (sy_pc s)"
  using assms by (cases a) (auto elim!: step_Inr simp: added_def reported_none reported_same split: if_splits)

lemma notify_step:
  assumes inv: "notify_inv s" and step: "sys_step accept release a s = Some (Inr s')"
  shows "notify_inv s'"
proof (cases "\<exists>h now ok d. a = StartServe h now ok \<or> a = Drain h d")
  case False
  from notify_unchanged [OF step False] inv show ?thesis by (simp add: notify_inv_def)
next
  case True
  then consider h now ok where "do_StartServe h now ok s = Some (Inr s')" | h d where "do_Drain h d s = Some (Inr s')"
    using step by auto
  then show ?thesis
  proof cases
    case 1
    then show ?thesis
    proof (cases rule: do_StartServe_Inr)
      case (1 conn running conn')
      have "h \<notin> reported_by (sy_pc s)" using reported_in [of "sy_pc s", OF 1(1)] by simp
      with inv show ?thesis by (cases running) (simp_all add: 1(4) notify_inv_def)
    qed
  next
    case 2
    then show ?thesis
    proof (cases rule: do_Drain_Inr)
      case (1 conn)
      have "h \<in> reported_by (sy_pc s)" using reported_in [of "sy_pc s", OF 1(1)] by simp
      then have "card (reported_by (sy_pc s)) = Suc (card (reported_by (sy_pc s) - {h}))"
        using inv unfolding notify_inv_def by (metis card.remove)
      with inv show ?thesis by (simp add: 1(4) notify_inv_def)
    qed
  qed
qed

lemma notify_reachable: "reachable accept release str b s \<Longrightarrow> notify_inv s"
proof (induction rule: reachable.induct)
  case init
  show ?case by (simp add: notify_inv_def sys_init_def reported_by_def)
qed (rule notify_step)

section \<open>Progress\<close>

definition ready :: "'b system \<Rightarrow> bool" where
  "ready s \<longleftrightarrow> sy_eaters s > 0 \<or> (\<exists>th. sy_threads s = [th] \<and> th_pc th = InLoop)"

definition own_step :: "action \<Rightarrow> bool" where
  "own_step a \<longleftrightarrow> a = Distribute 0 \<or> a = Cleanup 0"

definition becomes_ready :: "(string \<Rightarrow> 'b \<Rightarrow> bool \<times> 'b) \<Rightarrow> ('b \<Rightarrow> 'b) \<Rightarrow> nat \<Rightarrow> 'b system \<Rightarrow> bool" where
  "becomes_ready accept release n s \<longleftrightarrow>
     (\<exists>as s'. length as \<le> n \<and> list_all own_step as \<and> run_actions accept release as s = Some (Inr s')
        \<and> ready s' \<and> sy_pc s' = sy_pc s \<and> sy_starting s' = sy_starting s)"

lemma becomes_ready_step:
  assumes "own_step a" and "sys_step accept release a s = Some (Inr s1)" and "becomes_ready accept release n s1"
    and "sy_pc s1 = sy_pc s" and "sy_starting s1 = sy_starting s"
  shows "becomes_ready accept release (Suc n) s"
proof -
  from assms(3) obtain as s' where "length as \<le> n" "list_all own_step as" "run_actions accept release as s1 = Some (Inr s')"
      "ready s'" "sy_pc s' = sy_pc s1" "sy_starting s' = sy_starting s1"
    by (auto simp: becomes_ready_def)
  with assms(1,2,4,5) show ?thesis
    unfolding becomes_ready_def by (intro exI [of _ "a # as"] exI [of _ s']) simp
qed

lemma becomes_ready_now: "ready s \<Longrightarrow> becomes_ready accept release n s"
  unfolding becomes_ready_def by (intro exI [of _ "[]"]) simp

lemma calm_own_step:
  assumes "calm_reachable accept release str b s" and "str_running str = AtomicFalse" and "str_events str"
    and "own_step a" and "sys_step accept release a s = Some r"
  obtains s' where "r = Inr s'" "calm_reachable accept release str b s'"
proof -
  have c: "calm a s" using assms(4) by (auto simp: own_step_def calm_def)
  note R = calm_reachable_reachable [OF assms(1)]
  have "r \<noteq> Inl p" for p
    using safe_no_panic [OF safe_reachable [OF assms(1-3)] conn_reachable [OF R assms(2)] token_reachable [OF R assms(2)] c]
      assms(5) by blast
  then obtain s' where "r = Inr s'" by (cases r) auto
  with calm_reachable.step [OF assms(1) c, of s'] assms(5) that show ?thesis by simp
qed

lemma distributing_ready:
  assumes "calm_reachable accept release str b s" and "str_running str = AtomicFalse" and "str_events str"
    and "sy_threads s = [th]" and "th_pc th = Distributing p todo"
  shows "becomes_ready accept release (Suc (length todo)) s"
  using assms(1,4,5)
proof (induction todo arbitrary: s th)
  case Nil
  have "sys_step accept release (Distribute 0) s = Some (Inr (set_thread 0 (th\<lparr>th_pc := InLoop\<rparr>) s))"
    using Nil by (simp add: step_defs thread_at_def)
  from becomes_ready_step [OF _ this becomes_ready_now] Nil show ?case
    by (simp add: own_step_def ready_def)
next
  case (Cons c todo)
  obtain r where r: "sys_step accept release (Distribute 0) s = Some r"
    using Cons.prems by (simp add: step_defs thread_at_def)
  obtain s1 where s1: "r = Inr s1" "calm_reachable accept release str b s1"
    by (rule calm_own_step [OF Cons.prems(1) assms(2,3) _ r]) (simp_all add: own_step_def)
  from r s1(1) have "do_Distribute 0 s = Some (Inr s1)" by simp
  then have "sy_threads s1 = [th\<lparr>th_pc := Distributing p todo\<rparr>]" "sy_pc s1 = sy_pc s" "sy_starting s1 = sy_starting s"
    by (cases rule: do_Distribute_Inr; use Cons.prems in \<open>auto simp: thread_at_def\<close>)+
  moreover from this(1) have "becomes_ready accept release (Suc (length todo)) s1"
    by (intro Cons.IH [OF s1(2), of "th\<lparr>th_pc := Distributing p todo\<rparr>"]) simp_all
  ultimately show ?case
    using becomes_ready_step [OF _ r [unfolded s1(1)]] by (simp add: own_step_def)
qed

lemma cleaning_ready:
  assumes "calm_reachable accept release str b s" and "str_running str = AtomicFalse" and "str_events str"
    and "sy_threads s = [th]" and "th_pc th = CleaningUp todo"
  shows "becomes_ready accept release (Suc (length todo)) s"
  using assms(1,4,5)
proof (induction todo arbitrary: s th)
  case Nil
  have "sys_step accept release (Cleanup 0) s = Some (Inr (s\<lparr>sy_threads := [], sy_eaters := sy_eaters s + 1\<rparr>))"
    using Nil by (simp add: step_defs thread_at_def remove_nth_def)
  from becomes_ready_step [OF _ this becomes_ready_now] show ?case
    by (simp add: own_step_def ready_def)
next
  case (Cons c todo)
  obtain r where r: "sys_step accept release (Cleanup 0) s = Some r"
    using Cons.prems by (simp add: step_defs thread_at_def)
  obtain s1 where s1: "r = Inr s1" "calm_reachable accept release str b s1"
    by (rule calm_own_step [OF Cons.prems(1) assms(2,3) _ r]) (simp_all add: own_step_def)
  from r s1(1) have "do_Cleanup 0 s = Some (Inr s1)" by simp
  then have "sy_threads s1 = [th\<lparr>th_pc := CleaningUp todo\<rparr>]" "sy_pc s1 = sy_pc s" "sy_starting s1 = sy_starting s"
    by (cases rule: do_Cleanup_Inr; use Cons.prems in \<open>auto simp: thread_at_def\<close>)+
  moreover from this(1) have "becomes_ready accept release (Suc (length todo)) s1"
    by (intro Cons.IH [OF s1(2), of "th\<lparr>th_pc := CleaningUp todo\<rparr>"]) simp_all
  ultimately show ?case
    using becomes_ready_step [OF _ r [unfolded s1(1)]] by (simp add: own_step_def)
qed

definition backlog :: "'b system \<Rightarrow> nat" where
  "backlog s = (case sy_threads s of
     th # _ \<Rightarrow> (case th_pc th of InLoop \<Rightarrow> 0 | Distributing p todo \<Rightarrow> Suc (length todo) | CleaningUp todo \<Rightarrow> Suc (length todo))
   | [] \<Rightarrow> 0)"

lemma ready_soon:
  assumes "calm_reachable accept release str b s" and "str_running str = AtomicFalse" and "str_events str"
  shows "becomes_ready accept release (backlog s) s"
proof -
  have tok: "token_inv s" using token_reachable [OF calm_reachable_reachable [OF assms(1)] assms(2)] .
  show ?thesis
  proof (cases "sy_threads s")
    case Nil
    with tok show ?thesis by (intro becomes_ready_now) (simp add: ready_def token_inv_def)
  next
    case (Cons th ths)
    with tok have "sy_threads s = [th]" by (auto simp: token_inv_def)
    with distributing_ready [OF assms] cleaning_ready [OF assms] becomes_ready_now [of s] show ?thesis
      by (cases "th_pc th") (auto simp: backlog_def ready_def)
  qed
qed

section \<open>Example\<close>

definition example_streamer :: Streamer where
  "example_streamer = SetPreamble [9] (SetNotifier (NewStreamer ''s'' 4 PassAuthenticator))"

definition example_request :: http_request where
  "example_request = \<lparr>rq_header = Map.empty, rq_remote = ''r'', rq_path = ''/s'', rq_query = (\<lambda>_. [])\<rparr>"

definition input :: "bytes list \<Rightarrow> bytes chan" where
  "input ps = \<lparr>cbuf = ps, ccap = 10, cclosed = False, cwaiting = 0\<rparr>"

definition joined :: "action list" where
  "joined = [StreamCall (input [[1], [2]]), EatStart 0, HttpRequest 0 example_request, LoopAdd 0 0 [], StartServe 0 [] True]"

definition stream_run :: "action list \<Rightarrow> AccessController system go option" where
  "stream_run as = run_actions Accept Release as (sys_init example_streamer (NewAccessController 5))"

lemma example_streamer_simps [simp]:
  "str_running example_streamer = AtomicFalse" "str_events example_streamer" "str_preamble example_streamer = [9]"
  by (simp_all add: example_streamer_def SetPreamble_def SetNotifier_def NewStreamer_def)

lemma example_reachable:
  "stream_run as = Some (Inr s) \<Longrightarrow> reachable Accept Release example_streamer (NewAccessController 5) s"
  unfolding stream_run_def by (rule run_actions_reachable [OF reachable.init])

lemma example_obtain:
  assumes "map_option (map_sum id f) (stream_run as) = Some (Inr x)"
  obtains s where "stream_run as = Some (Inr s)" "f s = x"
  using assms by (cases "stream_run as"; cases "the (stream_run as)") auto

lemma run_actions_calm:
  fixes accept :: "string \<Rightarrow> 'b \<Rightarrow> bool \<times> 'b"
  assumes "calm_reachable accept release str b s" and "\<forall>a \<in> set as. \<forall>s :: 'b system. calm a s"
    and "run_actions accept release as s = Some (Inr s')"
  shows "calm_reachable accept release str b s'"
  using assms
proof (induction as arbitrary: s)
  case (Cons a as)
  then obtain s1 where "sys_step accept release a s = Some (Inr s1)" "run_actions accept release as s1 = Some (Inr s')"
    by (auto split: option.splits sum.splits)
  moreover have "calm a s" using Cons.prems(2) by simp
  ultimately show ?case using Cons.IH [OF calm_reachable.step [OF Cons.prems(1)]] Cons.prems(2) by auto
qed simp

lemma example_calm:
  assumes "\<forall>a \<in> set as. \<forall>s :: AccessController system. calm a s" and "stream_run (StreamCall q # as) = Some (Inr s)"
  shows "calm_reachable Accept Release example_streamer (NewAccessController 5) s"
proof -
  let ?s = "sys_init example_streamer (NewAccessController 5)"
  from assms(2) obtain s1 where s1: "sys_step Accept Release (StreamCall q) ?s = Some (Inr s1)"
      "run_actions Accept Release as s1 = Some (Inr s)"
    by (auto simp: stream_run_def split: option.splits sum.splits)
  have "calm (StreamCall q) ?s" by (simp add: calm_def sys_init_def)
  from run_actions_calm [OF calm_reachable.step [OF calm_reachable.init this s1(1)] assms(1) s1(2)] show ?thesis .
qed

section \<open>Properties\<close>

text \<open>
  C11. Exclusion: at every moment exactly one goroutine receives the requests of a streamer, either the
  command eater or one streaming loop, and the running flag is set exactly while a loop is running or
  about to start. So two calls of \<open>Stream\<close> never stream at the same time, and a call returns
  \<open>ErrAlreadyRunning\<close> only if another one is active.
\<close>

theorem stream_exclusive:
  assumes "reachable accept release str b s" and "str_running str = AtomicFalse"
  shows "sy_eaters s + length (sy_threads s) = 1
     \<and> length (sy_starting s) + length (filter looping (sy_threads s)) = (if is_running s then 1 else 0)
     \<and> (sys_step accept release (StreamCall q) s = Some (Inr s)
          \<longleftrightarrow> sy_starting s \<noteq> [] \<or> (\<exists>th \<in> set (sy_threads s). looping th))"
proof -
  have tok: "token_inv s" using token_reachable [OF assms] .
  have "sys_step accept release (StreamCall q) s = Some (Inr s) \<longleftrightarrow> is_running s"
  proof (cases "is_running s")
    case True
    with tok show ?thesis by (simp add: step_defs token_inv_def is_running_def CompareAndSwapBool_bool)
  next
    case False
    with tok have "sy_starting s = []" by (simp add: token_inv_def)
    with False tok show ?thesis
      by (auto simp: step_defs token_inv_def is_running_def CompareAndSwapBool_bool dest: arg_cong [where f = sy_starting])
  qed
  moreover have "is_running s \<longleftrightarrow> sy_starting s \<noteq> [] \<or> (\<exists>th \<in> set (sy_threads s). looping th)"
  proof -
    have "(\<exists>th \<in> set (sy_threads s). looping th) \<longleftrightarrow> length (filter looping (sy_threads s)) \<noteq> 0"
      by (auto simp: filter_empty_conv)
    with tok show ?thesis by (auto simp: token_inv_def split: if_splits)
  qed
  ultimately show ?thesis using tok by (simp add: token_inv_def)
qed

theorem stream_exclusive_witness:
  "\<exists>s. stream_run joined = Some (Inr s) \<and> length (sy_threads s) = 1 \<and> sy_eaters s = 0"
proof -
  have "map_option (map_sum id (\<lambda>s. length (sy_threads s))) (stream_run joined) = Some (Inr 1)" by code_simp
  then obtain s where s: "stream_run joined = Some (Inr s)" "length (sy_threads s) = 1" by (rule example_obtain)
  with stream_exclusive [OF example_reachable [OF s(1)]] show ?thesis by auto
qed

lemma places_within_limit:
  assumes "reachable Accept Release str (NewAccessController m) s" and "m \<noteq> 0"
  shows "unat (ac_connections (sy_broker s)) = card (held s) + sy_others s
     \<and> card (held s) + sy_others s \<le> unat m"
proof -
  have "acl.places_ok (unat (ac_maxconnections (NewAccessController m))) s"
    using acl.places_reachable [OF assms(1)] assms(2) by (simp add: acl_limited_def NewAccessController_def)
  then show ?thesis
    using acl.taken_places [of "sy_broker s"] by (simp add: acl.places_ok_def NewAccessController_def)
qed

text \<open>
  The connection limit: with a broker that allows \<open>m\<close> connections, the number of clients that were
  accepted by a streamer and have not yet been released, together with those of all other streamers,
  is what the broker counts, and never more than \<open>m\<close>. No place is lost or given back twice, whichever
  way a connection ends.
\<close>

theorem connection_limit:
  assumes "reachable Accept Release str (NewAccessController m) s" and "m \<noteq> 0"
  shows "unat (ac_connections (sy_broker s)) = card (held s) + sy_others s
     \<and> card (held s) + sy_others s \<le> unat m"
  using assms by (rule places_within_limit)

theorem connection_limit_witness:
  "\<exists>s. stream_run (joined @ [OtherAccept []]) = Some (Inr s) \<and> unat (ac_connections (sy_broker s)) = 2
     \<and> card (held s) + sy_others s = 2"
proof -
  have "map_option (map_sum id (\<lambda>s. unat (ac_connections (sy_broker s)))) (stream_run (joined @ [OtherAccept []])) = Some (Inr 2)"
    by code_simp
  then obtain s where s: "stream_run (joined @ [OtherAccept []]) = Some (Inr s)" "unat (ac_connections (sy_broker s)) = 2"
    by (rule example_obtain)
  with connection_limit [OF example_reachable [OF s(1)]] show ?thesis by auto
qed

lemma deliver_ok_weaken:
  assumes "deliver_ok pre ps p c"
  shows "\<exists>q \<in> {[], pre}. \<exists>ds. prefix ds ps \<and> rw_body (conn_writer c) = q @ concat ds"
proof -
  have serve: "\<exists>ds. prefix ds ps \<and> rw_body (conn_writer c) = q @ concat ds"
    if "served q ps \<lparr>sv_running = r, sv_conn = c\<rparr>" for q r
    using served_weaken [OF that] by simp
  have none: ?thesis if "rw_body (conn_writer c) = []"
    using that by (intro bexI [of _ "[]"] exI [of _ "[]"]) auto
  show ?thesis
  proof (cases p)
    case HServe
    with assms obtain q where "q \<in> {[], pre}" "served q ps \<lparr>sv_running = True, sv_conn = c\<rparr>" by auto
    with serve [OF this(2)] show ?thesis by blast
  next
    case HRemove
    with assms obtain q where "q \<in> {[], pre}" "served q ps \<lparr>sv_running = False, sv_conn = c\<rparr>" by auto
    with serve [OF this(2)] show ?thesis by blast
  qed (use assms none in simp_all)
qed

lemma delivered_packets:
  assumes "reachable accept release str b s" and "str_running str = AtomicFalse"
    and "sy_pc s h = Some p" and "sy_conns s h = Some c"
  shows "\<exists>pre ds. pre \<in> {[], str_preamble str} \<and> rw_body (conn_writer c) = pre @ concat ds
     \<and> prefix ds (sy_sent s h) \<and> subseq (sy_sent s h) (sy_seen s)"
proof -
  have del: "deliver_inv (str_preamble str) s" using deliver_reachable [OF assms(1,2)] .
  have "deliver_ok (str_preamble str) (sy_sent s h) p c" using deliver_ok_of [OF del assms(3,4)] .
  then have "\<exists>pre \<in> {[], str_preamble str}. \<exists>ds. prefix ds (sy_sent s h) \<and> rw_body (conn_writer c) = pre @ concat ds"
    by (rule deliver_ok_weaken)
  moreover have "subseq (sy_sent s h) (sy_seen s)" using del by (simp add: deliver_inv_def dist_ok_def)
  ultimately show ?thesis by blast
qed


definition one_packet :: "action list" where
  "one_packet = joined @ [LoopPacket 0 [0], Distribute 0, Distribute 0, ServeTurn 0 (TakePacket True)]"


text \<open>
  C13. Absence of panics: a streamer with a notifier that is never inhibited, and that is only restarted
  after the handlers of the previous session have sent their removal, never panics: it does not send to
  a closed queue and does not close a queue twice, for any interleaving of loop, eater and handlers.
\<close>

theorem calm_never_panics:
  assumes "calm_reachable accept release str b s" and "str_running str = AtomicFalse" and "str_events str"
    and "calm a s"
  shows "sys_step accept release a s \<noteq> Some (Inl p)"
proof -
  note r = calm_reachable_reachable [OF assms(1)]
  show ?thesis
    using safe_no_panic [OF safe_reachable [OF assms(1-3)] conn_reachable [OF r assms(2)] token_reachable [OF r assms(2)] assms(4)] .
qed

lemma calm_one_packet:
  "\<exists>as. one_packet = StreamCall (input [[1], [2]]) # as \<and> (\<forall>a \<in> set as. \<forall>s :: AccessController system. calm a s)"
  by (simp add: one_packet_def joined_def calm_def)

theorem calm_never_panics_witness:
  "\<exists>s. stream_run one_packet = Some (Inr s) \<and> sys_step Accept Release (ServeTurn 0 ContextDone) s \<noteq> Some (Inl CloseOfClosedChannel)"
proof -
  have "map_option (map_sum id (\<lambda>s. ())) (stream_run one_packet) = Some (Inr ())" by code_simp
  then obtain s where s: "stream_run one_packet = Some (Inr s)" by (rule example_obtain)
  obtain as where as: "one_packet = StreamCall (input [[1], [2]]) # as" "\<forall>a \<in> set as. \<forall>s :: AccessController system. calm a s"
    using calm_one_packet by blast
  from calm_never_panics [OF example_calm [OF as(2) s [unfolded as(1)]], of "ServeTurn 0 ContextDone"] s
  show ?thesis by (auto simp: calm_def)
qed


definition taken_packet :: "action list" where
  "taken_packet = joined @ [LoopPacket 0 [0]]"



definition client_left :: "action list" where
  "client_left = joined @ [ServeTurn 0 ContextDone, LoopRemove 0 0]"


text \<open>
  Notifications: the connection changes a streamer has reported to the event queue always add up to
  the number of clients that are being served, that is, have started and have not yet drained their
  queue.
\<close>

theorem notifications_balance:
  assumes "reachable accept release str b s"
  shows "finite {h. \<exists>p. sy_pc s h = Some p \<and> reported p}
     \<and> sum_list (sy_notified s) = int (card {h. \<exists>p. sy_pc s h = Some p \<and> reported p})"
  using notify_reachable [OF assms] by (simp add: notify_inv_def reported_by_def)

theorem notifications_balance_witness:
  "\<exists>s. stream_run joined = Some (Inr s) \<and> card {h. \<exists>p. sy_pc s h = Some p \<and> reported p} = 1"
proof -
  have "map_option (map_sum id (\<lambda>s. sum_list (sy_notified s))) (stream_run joined) = Some (Inr 1)" by code_simp
  then obtain s where s: "stream_run joined = Some (Inr s)" "sum_list (sy_notified s) = 1" by (rule example_obtain)
  with notifications_balance [OF example_reachable [OF s(1)]] show ?thesis by auto
qed

text \<open>
  C17. Inhibiting a streamer with clients makes it panic: the queues of all connections of the pool are
  closed, but the connections stay in the pool, so the next packet from upstream is sent to a closed
  queue.
\<close>

theorem inhibit_panics:
  assumes "thread_at i s = Some th" and "sl_pool (th_vars th) = c # cs" and "distinct (c # cs)"
    and "sys_step accept release (LoopInhibit i (c # cs) True) s = Some (Inr s1)"
    and "chan_recv (th_queue th) = Some (Some p, q)"
  shows "\<exists>s2. sys_step accept release (LoopPacket i (c # cs)) s1 = Some (Inr s2)
     \<and> sys_step accept release (Distribute i) s2 = Some (Inl SendOnClosedChannel)"
proof -
  from assms(4) have "do_LoopInhibit accept i (c # cs) True s = Some (Inr s1)" by simp
  then show ?thesis
  proof (cases rule: do_LoopInhibit_Inr)
    case (1 th' conns)
    from 1(5) have "go_foreach close_conn (c # cs) (sy_conns s) = Inr conns" by simp
    from close_all [OF this 1(3)] obtain conn where "conns c = Some conn" "cclosed (conn_Queue conn)"
      by (force simp: open_conn_def split: option.splits)
    with assms 1 show ?thesis
      by (auto simp: step_defs thread_at_def distribute1_def chan_try_send_def split: if_splits)
  qed
qed

theorem inhibit_panics_witness:
  "\<exists>s1 s2. stream_run (joined @ [LoopInhibit 0 [0] True]) = Some (Inr s1)
     \<and> sys_step Accept Release (LoopPacket 0 [0]) s1 = Some (Inr s2)
     \<and> sys_step Accept Release (Distribute 0) s2 = Some (Inl SendOnClosedChannel)"
proof -
  have "map_option (map_sum id (\<lambda>s. (map_option (\<lambda>th. (sl_pool (th_vars th), cbuf (th_queue th))) (thread_at 0 s),
      map_option (map_sum id (\<lambda>_. ())) (sys_step Accept Release (LoopInhibit 0 [0] True) s)))) (stream_run joined) =
    Some (Inr (Some ([0], [[1], [2]]), Some (Inr ())))" by code_simp
  then obtain s where s: "stream_run joined = Some (Inr s)" and
      "(map_option (\<lambda>th. (sl_pool (th_vars th), cbuf (th_queue th))) (thread_at 0 s),
        map_option (map_sum id (\<lambda>_. ())) (sys_step Accept Release (LoopInhibit 0 [0] True) s)) =
       (Some ([0], [[1], [2]]), Some (Inr ()))"
    by (rule example_obtain)
  then obtain th r where th: "thread_at 0 s = Some th" "sl_pool (th_vars th) = [0]" "cbuf (th_queue th) = [[1], [2]]"
      and r: "sys_step Accept Release (LoopInhibit 0 [0] True) s = Some r" "map_sum id (\<lambda>_. ()) r = Inr ()"
    by auto
  from r(2) obtain s1 where s1: "r = Inr s1" by (cases r) auto
  have run: "run_actions a b (xs @ ys) t = (case run_actions a b xs t of Some (Inr u) \<Rightarrow> run_actions a b ys u | z \<Rightarrow> z)"
    for a b xs ys and t :: "AccessController system"
    by (induction xs arbitrary: t) (auto split: option.splits sum.splits)
  have "stream_run (joined @ [LoopInhibit 0 [0] True]) = Some (Inr s1)"
    using s r(1) s1 by (simp add: stream_run_def run)
  moreover obtain q where "chan_recv (th_queue th) = Some (Some [1], q)" using th(3) by (simp add: chan_recv_def)
  ultimately show ?thesis
    using inhibit_panics [OF th(1,2) _ r(1) [unfolded s1]] by auto
qed


end
