(* ===== verification/Stream_Session.thy ===== *)
theory Stream_Session
  imports Stream_Properties Upstream_Client
begin

text \<open>
  The input of a streamer over several sessions. A history variable collects the packets that its
  upstream clients put into the input queues of the calls of \<open>Stream\<close> that were not refused; the streamer
  sees them all, in this order, whatever goes on with its own clients.
\<close>

section \<open>The packets fed to a streamer\<close>

fun fed_by :: "action \<Rightarrow> 'b system \<Rightarrow> bytes list" where
  "fed_by (StreamCall q) s = (if LoadBool (str_running (sy_str s)) then [] else cbuf q)"
| "fed_by (InputSend i p) s = [p]"
| "fed_by _ s = []"

inductive fed_reachable ::
  "(string \<Rightarrow> 'b \<Rightarrow> bool \<times> 'b) \<Rightarrow> ('b \<Rightarrow> 'b) \<Rightarrow> Streamer \<Rightarrow> 'b \<Rightarrow> 'b system \<Rightarrow> bytes list \<Rightarrow> bool"
  for accept release str b where
  fed_init: "fed_reachable accept release str b (sys_init str b) []"
| fed_step: "fed_reachable accept release str b s ps \<Longrightarrow> sys_step accept release a s = Some (Inr s') \<Longrightarrow>
    fed_reachable accept release str b s' (ps @ fed_by a s)"

lemma fed_reachable_reachable: "fed_reachable accept release str b s ps \<Longrightarrow> reachable accept release str b s"
  by (induction rule: fed_reachable.induct) (auto intro: reachable.intros)

text \<open>The input queues of the loops, each with whether its loop still reads it, and the packets that
  wait in them.\<close>

definition phase :: "stream_thread \<Rightarrow> bytes chan \<times> bool" where
  "phase th = (th_queue th, looping th)"

definition phases :: "'b system \<Rightarrow> (bytes chan \<times> bool) list" where
  "phases s = map phase (sy_threads s)"

definition waiting :: "'b system \<Rightarrow> bytes list" where
  "waiting s = concat (map (cbuf \<circ> fst) (phases s)) @ concat (map cbuf (sy_starting s))"

definition input_inv :: "'b system \<Rightarrow> bytes list \<Rightarrow> bool" where
  "input_inv s ps \<longleftrightarrow> sy_seen s @ waiting s = ps
     \<and> list_all (\<lambda>x. snd x \<or> cbuf (fst x) = [] \<and> cclosed (fst x)) (phases s)"

lemma input_inv_cong:
  "input_inv s ps \<Longrightarrow> sy_seen s' = sy_seen s \<Longrightarrow> sy_starting s' = sy_starting s \<Longrightarrow> phases s' = phases s \<Longrightarrow> input_inv s' ps"
  by (simp add: input_inv_def waiting_def)

text \<open>Updating a thread without touching its queue or its phase.\<close>

lemma same_thread:
  assumes "thread_at i s = Some th" and "phase th' = phase th"
  shows "map phase ((sy_threads s)[i := th']) = map phase (sy_threads s)"
  using assms by (auto simp: thread_at_def map_update intro!: list_update_same_conv [THEN iffD2] split: if_splits)

lemma phase_updates [simp]:
  "phase (th\<lparr>th_vars := v\<rparr>) = phase th"
  "th_pc th = Distributing p todo \<Longrightarrow> phase (th\<lparr>th_pc := InLoop\<rparr>) = phase th"
  "th_pc th = Distributing p todo \<Longrightarrow> phase (th\<lparr>th_pc := Distributing p' todo'\<rparr>) = phase th"
  "th_pc th = CleaningUp todo \<Longrightarrow> phase (th\<lparr>th_pc := CleaningUp todo'\<rparr>) = phase th"
  by (simp_all add: phase_def looping_def)

lemmas handler_steps = do_HttpRequest_Inr do_EatAdd_Inr do_StartServe_Inr do_ServePark_Inr do_ServeTurn_Inr
  do_EatRemove_Inr do_Drain_Inr do_Release_Inr

text \<open>The steps that have nothing to do with the input.\<close>

fun inner_step :: "action \<Rightarrow> bool" where
  "inner_step (StreamCall q) = False"
| "inner_step (EatStart j) = False"
| "inner_step (LoopStart i j) = False"
| "inner_step (LoopPacket i order) = False"
| "inner_step (LoopClosed i order) = False"
| "inner_step (Cleanup i) = False"
| "inner_step (InputSend i p) = False"
| "inner_step (InputClose i) = False"
| "inner_step _ = True"

lemma inner_step_inputs:
  assumes "sys_step accept release a s = Some (Inr s')" and "inner_step a"
  shows "sy_seen s' = sy_seen s" and "sy_starting s' = sy_starting s" and "phases s' = phases s"
proof -
  have "sy_seen s' = sy_seen s \<and> sy_starting s' = sy_starting s \<and> map phase (sy_threads s') = map phase (sy_threads s)"
  proof (cases a)
    case (Distribute i)
    then have "do_Distribute i s = Some (Inr s')" using assms by simp
    then show ?thesis by (cases rule: do_Distribute_Inr) (simp_all add: same_thread)
  next
    case (LoopInhibit i order b)
    then have "do_LoopInhibit accept i order b s = Some (Inr s')" using assms by simp
    then show ?thesis by (cases rule: do_LoopInhibit_Inr) (simp_all add: same_thread)
  next
    case (LoopAdd i h now)
    then have "do_LoopAdd accept i h now s = Some (Inr s')" using assms by simp
    then show ?thesis by (cases rule: do_LoopAdd_Inr) (simp_all add: same_thread)
  next
    case (LoopRemove i h)
    then have "do_LoopRemove accept i h s = Some (Inr s')" using assms by simp
    then show ?thesis by (cases rule: do_LoopRemove_Inr) (simp_all add: same_thread)
  next
    case (OtherAccept addr)
    then show ?thesis using assms by (auto simp: do_OtherAccept_def split: prod.splits)
  next
    case OtherRelease
    then show ?thesis using assms by (auto simp: do_OtherRelease_def split: if_splits)
  next
    case (EatInhibit b)
    then show ?thesis using assms by (auto simp: do_EatInhibit_def split: if_splits)
  qed (use assms in \<open>auto elim!: handler_steps\<close>)
  then show "sy_seen s' = sy_seen s" and "sy_starting s' = sy_starting s" and "phases s' = phases s"
    by (simp_all add: phases_def)
qed

text \<open>The steps of the input itself. With the token invariant there is at most one queue.\<close>

lemma one_thread:
  assumes "token_inv s" and "thread_at i s = Some th"
  shows "i = 0" and "phases s = [phase th]" and "looping th \<Longrightarrow> sy_starting s = []" and "sy_threads s = [th]"
  using token_thread [OF assms] assms(1) by (auto simp: phases_def token_inv_def split: if_splits)

lemma one_starting:
  assumes "token_inv s" and "j < length (sy_starting s)" and "q = sy_starting s ! j"
  shows "j = 0" and "sy_starting s = [q]"
proof -
  have "length (sy_starting s) = 1" using assms(1,2) by (auto simp: token_inv_def split: if_splits)
  then show "j = 0" "sy_starting s = [q]" using assms(2,3) by (auto simp: length_Suc_conv)
qed

text \<open>An input queue that is open is the only one that can hold packets.\<close>

lemma input_update:
  assumes "input_inv s ps" and "token_inv s" and "input_at i s = Some q" and "\<not> cclosed q" and "cbuf q' = cbuf q @ qs"
  shows "input_inv (set_input i q' s) (ps @ qs)"
  using assms(3)
proof (cases rule: input_at_cases)
  case (loop th)
  note one = one_thread [OF assms(2) loop(1)]
  have lp: "looping th" using assms(1,4) one(2) loop(2) by (simp add: input_inv_def phase_def)
  have "phases (set_input i q' s) = [phase (th\<lparr>th_queue := q'\<rparr>)]" using loop(3) one by (simp add: phases_def)
  then show ?thesis using assms(1,5) one lp loop(2,3) by (auto simp: input_inv_def waiting_def phase_def)
next
  case (call j)
  note one = one_starting [OF assms(2) call(3,4)]
  have "phases (set_input i q' s) = phases s" "sy_starting (set_input i q' s) = [q']"
    using call(5) one by (simp_all add: phases_def)
  then show ?thesis using assms(1,5) call(5) one(2) by (simp add: input_inv_def waiting_def)
qed

lemma input_send:
  assumes "input_inv s ps" and "token_inv s" and "do_InputSend i p s = Some (Inr s')"
  shows "input_inv s' (ps @ [p])"
proof -
  obtain q q' where q: "input_at i s = Some q" "chan_try_send p q = Inr (Some q')" "s' = set_input i q' s"
    using assms(3) by (auto simp: do_InputSend_def split: option.splits sum.splits)
  then have "\<not> cclosed q" "cbuf q' = cbuf q @ [p]" by (auto simp: chan_try_send_def split: if_splits)
  then show ?thesis using input_update [OF assms(1,2) q(1)] q(3) by simp
qed

lemma input_close:
  assumes "input_inv s ps" and "token_inv s" and "do_InputClose i s = Some (Inr s')"
  shows "input_inv s' ps"
proof -
  obtain q q' where q: "input_at i s = Some q" "chan_close q = Inr q'" "s' = set_input i q' s"
    using assms(3) by (auto simp: do_InputClose_def split: option.splits sum.splits)
  then have "\<not> cclosed q" "cbuf q' = cbuf q @ []" by (auto simp: chan_close_def split: if_splits)
  from input_update [OF assms(1,2) q(1) this] show ?thesis using q(3) by simp
qed

lemma input_packet:
  assumes "input_inv s ps" and "token_inv s" and "do_LoopPacket i order s = Some (Inr s')"
  shows "input_inv s' ps"
  using assms(3)
proof (cases rule: do_LoopPacket_Inr)
  case (1 th packet q)
  note one = one_thread [OF assms(2) 1(1)]
  have loop: "looping th" using 1 by (simp add: looping_def)
  have "cbuf (th_queue th) = packet # cbuf q"
    using 1 by (auto simp: chan_recv_def split: list.splits if_splits)
  moreover have "phases s' = [(q, True)]" "sy_seen s' = sy_seen s @ [packet]" "sy_starting s' = []"
    using 1 one loop by (simp_all add: phases_def phase_def looping_def)
  ultimately show ?thesis using assms(1) one loop by (simp add: input_inv_def waiting_def phase_def)
qed

lemma input_end:
  assumes "input_inv s ps" and "token_inv s" and "do_LoopClosed i order s = Some (Inr s')"
  shows "input_inv s' ps"
proof -
  obtain th q where th: "thread_at i s = Some th" "th_pc th = InLoop" "chan_recv (th_queue th) = Some (None, q)"
    "s' = (set_thread i (th\<lparr>th_queue := q, th_pc := CleaningUp order\<rparr>) s)
       \<lparr>sy_str := (sy_str s)\<lparr>str_running := StoreBool False (str_running (sy_str s))\<rparr>\<rparr>"
    using assms(3) by (auto simp: do_LoopClosed_def split: option.splits if_splits)
  note one = one_thread [OF assms(2) th(1)]
  have "cbuf (th_queue th) = []" "cbuf q = []" "cclosed q"
    using th(3) by (auto simp: chan_recv_def split: list.splits if_splits)
  moreover have "phases s' = [(q, False)]" "sy_seen s' = sy_seen s" "sy_starting s' = sy_starting s"
    using th(4) one by (simp_all add: phases_def phase_def looping_def)
  ultimately show ?thesis using assms(1) one by (simp add: input_inv_def waiting_def phase_def)
qed

lemma input_cleanup:
  assumes "input_inv s ps" and "token_inv s" and "do_Cleanup i s = Some (Inr s')"
  shows "input_inv s' ps"
  using assms(3)
proof (cases rule: do_Cleanup_Inr)
  case (close th c todo conn)
  then show ?thesis using assms(1) by (intro input_inv_cong [OF assms(1)]) (simp_all add: phases_def same_thread)
next
  case (finished th)
  note one = one_thread [OF assms(2) finished(1)]
  have "\<not> looping th" using finished by (simp add: looping_def)
  moreover have "phases s' = []" "sy_seen s' = sy_seen s" "sy_starting s' = sy_starting s"
    using finished one token_thread [OF assms(2) finished(1)] by (simp_all add: phases_def remove_nth_def)
  ultimately show ?thesis using assms(1) one by (auto simp: input_inv_def waiting_def phase_def)
qed

lemma input_start:
  assumes "input_inv s ps" and "token_inv s" and "do_EatStart j s = Some (Inr s') \<or> do_LoopStart i j s = Some (Inr s')"
  shows "input_inv s' ps"
  using assms(3)
proof
  assume st: "do_EatStart j s = Some (Inr s')"
  then have e: "0 < sy_eaters s" "j < length (sy_starting s)" by (auto simp: do_EatStart_def split: if_splits)
  note none = token_eater [OF assms(2) e(1)]
  have "length (sy_starting s) \<le> 1" using assms(2) by (auto simp: token_inv_def split: if_splits)
  then obtain q where q: "sy_starting s = [q]" "j = 0" using e(2) by (cases "sy_starting s") auto
  then have "phases s' = [(q, True)]" "sy_seen s' = sy_seen s" "sy_starting s' = []"
    using st none e by (auto simp: do_EatStart_def phases_def phase_def new_thread_def looping_def remove_nth_def)
  then show ?thesis using assms(1) none q by (simp add: input_inv_def waiting_def phases_def)
next
  assume st: "do_LoopStart i j s = Some (Inr s')"
  then obtain th where th: "thread_at i s = Some th" "th_pc th = InLoop" "j < length (sy_starting s)"
    by (auto simp: do_LoopStart_def split: option.splits if_splits)
  then show ?thesis using one_thread(3) [OF assms(2) th(1)] by (simp add: looping_def)
qed

lemma input_call:
  assumes "input_inv s ps" and "token_inv s" and "do_StreamCall q s = Some (Inr s')"
  shows "input_inv s' (ps @ fed_by (StreamCall q) s)"
proof -
  have cas: "CompareAndSwapBool False True (str_running (sy_str s)) =
      (if LoadBool (str_running (sy_str s)) then (False, str_running (sy_str s)) else (True, AtomicTrue))"
    using assms(2) CompareAndSwapBool_bool [of "str_running (sy_str s)" False True]
    by (auto simp: token_inv_def ToAtomicBool_def)
  have "phases s' = phases s" "sy_seen s' = sy_seen s"
    "sy_starting s' = sy_starting s @ (if LoadBool (str_running (sy_str s)) then [] else [q])"
    using assms(3) by (auto simp: do_StreamCall_def cas phases_def split: if_splits)
  then show ?thesis using assms(1) by (auto simp: input_inv_def waiting_def)
qed

lemma input_step:
  assumes "input_inv s ps" and "token_inv s" and "sys_step accept release a s = Some (Inr s')"
  shows "input_inv s' (ps @ fed_by a s)"
proof (cases "inner_step a")
  case True
  then have "fed_by a s = []" by (cases a) auto
  then show ?thesis using inner_step_inputs [OF assms(3) True] input_inv_cong [OF assms(1)] by simp
next
  case False
  then show ?thesis
    using assms(3) input_call [OF assms(1,2)] input_start [OF assms(1,2)] input_packet [OF assms(1,2)] input_end [OF assms(1,2)]
      input_cleanup [OF assms(1,2)] input_send [OF assms(1,2)] input_close [OF assms(1,2)]
    by (cases a) (simp_all, blast+)
qed

lemma input_reachable:
  assumes "fed_reachable accept release str b s ps" and "str_running str = AtomicFalse"
  shows "input_inv s ps"
  using assms(1)
proof induction
  case fed_init
  show ?case by (simp add: input_inv_def waiting_def phases_def sys_init_def)
next
  case (fed_step s ps a s')
  show ?case
    using input_step [OF fed_step.IH token_reachable [OF fed_reachable_reachable [OF fed_step.hyps(1)] assms(2)] fed_step.hyps(2)] .
qed

section \<open>The packets of an upstream client\<close>

text \<open>The packets a call of \<open>pull\<close> puts into its queue.\<close>

definition queued :: "'s io_reader \<Rightarrow> 's \<Rightarrow> bytes list" where
  "queued rd u = (case pull rd AtomicTrue u of Some (err, effs, running, u') \<Rightarrow> [p. EffQueue p \<leftarrow> effs] | None \<Rightarrow> [])"

lemma queued_packets:
  assumes "byte_source rd bytes_left invar" and "invar u"
  shows "queued rd u = packets_of (bytes_left u)"
proof -
  obtain e u' where "pull_loop rd False [] u =
      Some (e, packets_of (bytes_left u) \<noteq> [], forwarded False (packets_of (bytes_left u)), u')"
    using byte_source.pull_loop_stream [OF assms, of False "[]"] by auto
  moreover have "[p. EffQueue p \<leftarrow> concat (map (\<lambda>p. [EffPacketReceived, EffQueue p]) ps)] = ps" for ps
    by (induction ps) auto
  ultimately show ?thesis by (simp add: queued_def pull_def forwarded_def)
qed

lemma packets_of_packets: "p \<in> set (packets_of bs) \<Longrightarrow> is_packet p"
proof (induction bs rule: packets_of.induct)
  case (1 bs)
  show ?case
  proof (cases "next_packet bs")
    case None
    then show ?thesis using 1 by (simp add: packets_of_next)
  next
    case (Some qr)
    obtain q rest where qr: "qr = (q, rest)" by (cases qr)
    have "is_packet x" if "q = Some x" for x
    proof -
      from Some qr that obtain i where i: "find_sync (take MpegTsPacketSize bs) = Some i"
        "MpegTsPacketSize + i \<le> length bs" "x = take MpegTsPacketSize (drop i bs)"
        by (auto simp: next_packet_def split: if_splits option.splits)
      have "i < MpegTsPacketSize \<and> bs ! i = MpegTsSyncByte"
        using find_sync_Some [of "take MpegTsPacketSize bs" i] i(1) by auto
      then show ?thesis using i by (simp add: is_packet_def MpegTsPacketSize_def)
    qed
    then show ?thesis using 1 Some qr by (cases q) (auto simp: packets_of_next)
  qed
qed

end
