(* ===== verification/Server_System.thy ===== *)
theory Server_System
  imports Program_Start Stream_Session
begin

text \<open>
  The running server: all streamers that \<open>cmd/restreamer/restreamer.go\<close> starts, with what they share, the
  access controller, the event queue with its handlers, and the statistics.

  Every streamer takes the steps of \<open>Stream_System\<close>, on the shared access controller instead of one of its
  own. What a step reports (\<open>announced\<close>, \<open>collected\<close>) goes to the event queue and to the collector that
  is registered for the path of the streamer. A handler that reports to the queue waits until the message
  fits into the channel: its step is taken at the moment of the send, and is not possible while the channel
  is full. The queue, its heartbeat and the update loop of the statistics
  take steps of their own, and so do the upstream clients, which here may send packets and report to
  the collector at any time; \<open>Server_Upstream\<close> says when they do. The steps come in any order. The
  upstream clients connect while the program is still being built; here their steps come after that.

  The main result is a simulation: each streamer, seen with the shared controller, is a streamer of
  \<open>Stream_System\<close> for which all other streamers are the other users of the controller.
\<close>

section \<open>State\<close>

record server_sys =
  sr_streams :: "string \<rightharpoonup> AccessController system"
  sr_acl :: AccessController
  sr_queue :: "note_handler Queue"
  sr_store :: "nat \<rightharpoonup> UrlHandler"
  sr_calls :: "note_handler call list"
  sr_loop :: "stats_loop option"

text \<open>The server that a program start leaves behind: \<open>sv\<close>, \<open>acl\<close> and \<open>nt\<close> are what \<open>main\<close> has built.\<close>

definition server_init :: "server \<Rightarrow> AccessController \<Rightarrow> note_state \<Rightarrow> server_sys" where
  "server_init sv acl nt =
     \<lparr>sr_streams = (\<lambda>p. case map_of (sv_routes sv) p of Some (StreamRoute str) \<Rightarrow> Some (sys_init str acl) | _ \<Rightarrow> None),
      sr_acl = acl, sr_queue = ns_queue nt, sr_store = ns_store nt, sr_calls = [],
      sr_loop = (case sv_stats sv of RealStatistics stats \<Rightarrow> Some (loop_init stats) | DummyStatistics \<Rightarrow> None)\<rparr>"

section \<open>What a step of a streamer reports\<close>

text \<open>The changes in the number of connections that a step sends to the event queue, and the operations on the
  collector that it calls.\<close>

fun announced :: "action \<Rightarrow> int list" where
  "announced (StartServe h now ok) = [1]"
| "announced (Drain h d) = [-1]"
| "announced _ = []"

definition distributed :: "nat \<Rightarrow> 'b system \<Rightarrow> collector_op list" where
  "distributed i s =
     (case thread_at i s of
        None \<Rightarrow> []
      | Some th \<Rightarrow>
          (case th_pc th of
             Distributing packet (c # todo) \<Rightarrow> [if has_room (sy_conns s) c then OpPacketSent else OpPacketDropped]
           | _ \<Rightarrow> []))"

fun collected :: "action \<Rightarrow> 'b system \<Rightarrow> collector_op list" where
  "collected (StartServe h now ok) s = [OpConnectionAdded]"
| "collected (Drain h d) s = [OpConnectionRemoved, OpStreamDuration d]"
| "collected (Distribute i) s = distributed i s"
| "collected _ s = []"

text \<open>The steps that stand for other streamers; in a server they are steps of those.\<close>

fun shared :: "action \<Rightarrow> bool" where
  "shared (OtherAccept addr) = True"
| "shared OtherRelease = True"
| "shared _ = False"

lemma step_reports:
  assumes "sys_step accept release a s = Some (Inr s')"
  shows "sy_notified s' = sy_notified s @ announced a
     \<and> str_stats (sy_str s') = fold iface_collect (collected a s) (str_stats (sy_str s))"
  using assms by (cases a) (auto elim!: step_Inr simp: report_def has_room_def distributed_def)

section \<open>The rest of the world is not read\<close>

text \<open>The number of places that others hold is a history variable for all but the steps of others.\<close>

lemma others_simps [simp]:
  "thread_at i (s\<lparr>sy_others := n\<rparr>) = thread_at i s"
  "set_thread i th (s\<lparr>sy_others := n\<rparr>) = (set_thread i th s)\<lparr>sy_others := n\<rparr>"
  "set_pc h pc (s\<lparr>sy_others := n\<rparr>) = (set_pc h pc s)\<lparr>sy_others := n\<rparr>"
  "set_conn h c (s\<lparr>sy_others := n\<rparr>) = (set_conn h c s)\<lparr>sy_others := n\<rparr>"
  "added h now ok (s\<lparr>sy_others := n\<rparr>) = (added h now ok s)\<lparr>sy_others := n\<rparr>"
  "input_at i (s\<lparr>sy_others := n\<rparr>) = input_at i s"
  "set_input i q (s\<lparr>sy_others := n\<rparr>) = (set_input i q s)\<lparr>sy_others := n\<rparr>"
  by (simp_all add: thread_at_def set_thread_def set_pc_def set_conn_def added_def input_at_def set_input_def Let_def split: option.split)

lemma map_sum_go_bind: "map_sum id f (go_bind m g) = go_bind m (map_sum id f \<circ> g)"
  by (cases m) (simp_all add: go_bind_def)

lemma go_bind_cong: "(\<And>x. g x = h x) \<Longrightarrow> go_bind m g = go_bind m h"
  by (cases m) (simp_all add: go_bind_def)

lemma loop_request_others:
  "loop_request accept i order request (s\<lparr>sy_others := n\<rparr>) =
     map_option (map_sum id (apsnd (\<lambda>s. s\<lparr>sy_others := n\<rparr>))) (loop_request accept i order request s)"
  by (auto simp: loop_request_def map_sum_go_bind split: option.split intro!: go_bind_cong)

lemma own_step_others:
  assumes "\<not> shared a"
  shows "sys_step accept release a (s\<lparr>sy_others := n\<rparr>) =
    map_option (map_sum id (\<lambda>s. s\<lparr>sy_others := n\<rparr>)) (sys_step accept release a s)"
proof (cases a)
  case (StreamCall q)
  then show ?thesis by (simp add: do_StreamCall_def split: prod.split bool.split)
next
  case (LoopPacket i order)
  then show ?thesis by (simp add: do_LoopPacket_def split: option.split)
next
  case (Distribute i)
  then show ?thesis
    by (auto simp: do_Distribute_def map_sum_go_bind split: option.split loop_pc.split list.split intro!: go_bind_cong)
next
  case (LoopClosed i order)
  then show ?thesis by (simp add: do_LoopClosed_def split: option.split)
next
  case (Cleanup i)
  then show ?thesis
    by (auto simp: do_Cleanup_def map_sum_go_bind split: option.split loop_pc.split list.split intro!: go_bind_cong)
next
  case (LoopInhibit i order b)
  then show ?thesis
    by (auto simp: do_LoopInhibit_def loop_request_others option.map_comp sum.map_comp comp_def split: option.split)
next
  case (LoopAdd i h now)
  then show ?thesis
    by (auto simp: do_LoopAdd_def loop_request_others option.map_comp sum.map_comp comp_def split_beta split: option.split handler_pc.split)
next
  case (LoopRemove i h)
  then show ?thesis
    by (auto simp: do_LoopRemove_def loop_request_others option.map_comp sum.map_comp comp_def split_beta split: option.split handler_pc.split)
next
  case (HttpRequest h r)
  then show ?thesis by (simp add: do_HttpRequest_def split: prod.split)
next
  case (StartServe h now ok)
  then show ?thesis by (auto simp: do_StartServe_def set_pc_def set_conn_def split_beta split: option.split handler_pc.split)
next
  case (ServePark h)
  then show ?thesis by (auto simp: do_ServePark_def split: option.split handler_pc.split)
next
  case (ServeTurn h c)
  then show ?thesis by (simp add: do_ServeTurn_def split: prod.split option.split handler_pc.split)
next
  case (InputSend i p)
  then show ?thesis by (simp add: do_InputSend_def split: option.split sum.split)
next
  case (InputClose i)
  then show ?thesis by (simp add: do_InputClose_def split: option.split sum.split)
qed (use assms in \<open>simp_all add: step_defs split: option.split handler_pc.split\<close>)

lemma dom_if_upd [simp]: "dom (\<lambda>a. if a = h then Some x else f a) = insert h (dom f)"
  by auto

lemma finite_handlers: "reachable accept release str b s \<Longrightarrow> finite (dom (sy_pc s))"
proof (induction rule: reachable.induct)
  case init
  show ?case by (simp add: sys_init_def)
next
  case (step s a s')
  then show ?case by (cases a) (auto elim!: step_Inr simp: added_def)
qed

lemma held_dom: "held_by pcs \<subseteq> dom pcs"
  by (auto simp: held_by_def)

text \<open>What a step does to the access controller: nothing, it asks for a place, or it gives one back.\<close>

lemma step_places:
  assumes "sys_step accept release a s = Some (Inr s')" and "\<not> shared a" and "finite (held s)"
  obtains (same) "sy_broker s' = sy_broker s" "card (held s') = card (held s)"
    | (taken) addr ok where "accept addr (sy_broker s) = (ok, sy_broker s')" "card (held s') = card (held s) + (if ok then 1 else 0)"
    | (given) "sy_broker s' = release (sy_broker s)" "card (held s) = Suc (card (held s'))"
proof (cases "\<exists>i h now addr. a = LoopAdd i h now \<or> a = ReleasePlace h \<or> a = OtherAccept addr \<or> a = OtherRelease")
  case False
  then show ?thesis using same broker_unchanged [OF assms(1) False] by simp
next
  case True
  then consider i h now where "do_LoopAdd accept i h now s = Some (Inr s')" | h where "do_Release release h s = Some (Inr s')"
    using assms(1,2) by auto
  then show ?thesis
  proof cases
    case (1 i h now)
    then show ?thesis
    proof (cases rule: do_LoopAdd_Inr)
      case (1 th conn ok b)
      have "h \<notin> held s" using held_in [of "sy_pc s", OF 1(1)] by simp
      then have "card (held s') = card (held s) + (if ok then 1 else 0)" "sy_broker s' = b"
        using 1(2) assms(3) by (auto simp: 1(6) added_def)
      then show ?thesis using 1(5) same taken by (auto split: if_splits)
    qed
  next
    case (2 h)
    then show ?thesis
    proof (cases rule: do_Release_Inr)
      case 1
      have "h \<in> held s" using held_in [of "sy_pc s", OF 1(1)] by simp
      then have "card (held s) = Suc (card (held s - {h}))" using assms(3) by (metis card.remove)
      then show ?thesis using given by (simp add: 1(2))
    qed
  qed
qed

section \<open>Steps of the server\<close>

definition collect_all :: "string \<Rightarrow> collector_op list \<Rightarrow> stats_loop \<Rightarrow> stats_loop" where
  "collect_all p ops lp = lp\<lparr>lp_stats := fold (collect_at p) ops (lp_stats lp)\<rparr>"

text \<open>The handlers are called one after the other by the loop of the queue; a nil handler panics.\<close>

definition invoke_all :: "(nat \<rightharpoonup> UrlHandler) \<Rightarrow> note_handler call list \<Rightarrow> unit go" where
  "invoke_all store calls = go_foreach (\<lambda>c u. go_bind (invoke store c) (\<lambda>request. Inr u)) calls ()"

text \<open>A step of a streamer; an upstream client that reports to the collector of a path; the event queue handles a
  message; the heartbeat ticks; the two halves of a tick of the statistics.\<close>

datatype server_action =
    AtStream string action
  | AtSource string collector_op
  | AtQueue
  | AtHeartbeat int
  | AtDelta
  | AtUpdate i64

definition stream_step :: "string \<Rightarrow> action \<Rightarrow> server_sys \<Rightarrow> server_sys go option" where
  "stream_step p a st =
     (case sr_streams st p of
        None \<Rightarrow> None
      | Some s \<Rightarrow>
          if shared a then None
          else (case sys_step Accept Release a (s\<lparr>sy_broker := sr_acl st\<rparr>) of
                  None \<Rightarrow> None
                | Some (Inl x) \<Rightarrow> Some (Inl x)
                | Some (Inr s') \<Rightarrow>
                    (case announce NotifyConnect (announced a) (sr_queue st) of
                       Inl x \<Rightarrow> Some (Inl x)
                     | Inr None \<Rightarrow> None
                     | Inr (Some q) \<Rightarrow>
                         Some (Inr (st\<lparr>sr_streams := (sr_streams st)(p \<mapsto> s'), sr_acl := sy_broker s', sr_queue := q,
                           sr_loop := map_option (collect_all p (collected a s)) (sr_loop st)\<rparr>)))))"

definition stats_action :: "(u64 \<Rightarrow> i64 \<Rightarrow> u64) \<Rightarrow> stats_event \<Rightarrow> server_sys \<Rightarrow> server_sys go option" where
  "stats_action rate e st =
     map_option (\<lambda>lp. map_sum id (\<lambda>lp'. st\<lparr>sr_loop := Some lp'\<rparr>) (stats_step rate e lp)) (sr_loop st)"

fun server_step :: "(u64 \<Rightarrow> i64 \<Rightarrow> u64) \<Rightarrow> server_action \<Rightarrow> server_sys \<Rightarrow> server_sys go option" where
  "server_step rate (AtStream p a) st = stream_step p a st"
| "server_step rate (AtSource p op) st =
     (if op \<in> {OpSourceConnected, OpPacketReceived, OpSourceDisconnected}
      then Some (Inr (st\<lparr>sr_loop := map_option (collect_all p [op]) (sr_loop st)\<rparr>)) else None)"
| "server_step rate AtQueue st =
     (case run_step ChooseMessage (sr_queue st) of
        None \<Rightarrow> None
      | Some (running, q, calls) \<Rightarrow>
          Some (go_bind (invoke_all (sr_store st) calls)
            (\<lambda>u. Inr (st\<lparr>sr_queue := q, sr_calls := sr_calls st @ calls\<rparr>))))"
| "server_step rate (AtHeartbeat now) st =
     (case NotifyHeartbeat now (sr_queue st) of
        Inl x \<Rightarrow> Some (Inl x)
      | Inr None \<Rightarrow> None
      | Inr (Some q) \<Rightarrow> Some (Inr (st\<lparr>sr_queue := q\<rparr>)))"
| "server_step rate AtDelta st = stats_action rate TickDelta st"
| "server_step rate (AtUpdate d) st = stats_action rate (TickUpdate d) st"

inductive server_reachable :: "(u64 \<Rightarrow> i64 \<Rightarrow> u64) \<Rightarrow> server_sys \<Rightarrow> server_sys \<Rightarrow> bool" for rate st0 where
  server_start: "server_reachable rate st0 st0"
| server_next: "server_reachable rate st0 st \<Longrightarrow> server_step rate a st = Some (Inr st') \<Longrightarrow> server_reachable rate st0 st'"

section \<open>Every stream of the server is a streamer at work\<close>

text \<open>The places that the other streamers hold, and a streamer with the shared controller.\<close>

definition others :: "server_sys \<Rightarrow> string \<Rightarrow> nat" where
  "others st p = (\<Sum>q \<in> dom (sr_streams st) - {p}. card (held (the (sr_streams st q))))"

definition view :: "server_sys \<Rightarrow> string \<Rightarrow> AccessController system \<Rightarrow> AccessController system" where
  "view st p s = s\<lparr>sy_broker := sr_acl st, sy_others := others st p\<rparr>"

definition simulates :: "server_sys \<Rightarrow> server_sys \<Rightarrow> bool" where
  "simulates st0 st \<longleftrightarrow> dom (sr_streams st) = dom (sr_streams st0) \<and>
     (\<forall>p s. sr_streams st p = Some s \<longrightarrow> (\<exists>str. sr_streams st0 p = Some (sys_init str (sr_acl st0))
        \<and> reachable Accept Release str (sr_acl st0) (view st p s)))"

lemma stream_step_Inr:
  assumes "stream_step p a st = Some (Inr st')"
  obtains s s' q where "sr_streams st p = Some s" "\<not> shared a"
    "sys_step Accept Release a (s\<lparr>sy_broker := sr_acl st\<rparr>) = Some (Inr s')"
    "announce NotifyConnect (announced a) (sr_queue st) = Inr (Some q)"
    "st' = st\<lparr>sr_streams := (sr_streams st)(p \<mapsto> s'), sr_acl := sy_broker s', sr_queue := q,
       sr_loop := map_option (collect_all p (collected a s)) (sr_loop st)\<rparr>"
  using assms by (auto simp: stream_step_def split: option.splits sum.splits if_splits)

lemma others_update_self:
  "sr_streams st p \<noteq> None \<Longrightarrow> sr_streams st' = (sr_streams st)(p \<mapsto> s') \<Longrightarrow> others st' p = others st p"
  unfolding others_def by (rule sum.cong) auto

lemma others_update:
  assumes "finite (dom (sr_streams st))" and "sr_streams st p = Some s" and "sr_streams st' = (sr_streams st)(p \<mapsto> s')" and "q \<noteq> p"
  shows "others st' q + card (held s) = others st q + card (held s')"
proof -
  let ?D = "dom (sr_streams st) - {q}"
  have "p \<in> ?D" "finite ?D" and dom': "dom (sr_streams st') - {q} = ?D" using assms by auto
  note split = sum.remove [OF this(2,1)]
  have "(\<Sum>x \<in> ?D - {p}. card (held (the (sr_streams st' x)))) = (\<Sum>x \<in> ?D - {p}. card (held (the (sr_streams st x))))"
    using assms(3) by (intro sum.cong) auto
  then show ?thesis
    unfolding others_def dom' by (subst (1 2) split) (use assms(2,3) in simp)
qed

lemma simulates_stream:
  assumes "simulates st0 st" and "finite (dom (sr_streams st0))" and "stream_step p a st = Some (Inr st')"
  shows "simulates st0 st'"
  using assms(3)
proof (cases rule: stream_step_Inr)
  case (1 s s' queue)
  have fin: "finite (dom (sr_streams st))" and sim: "\<And>q t. sr_streams st q = Some t \<Longrightarrow>
      \<exists>str. sr_streams st0 q = Some (sys_init str (sr_acl st0)) \<and> reachable Accept Release str (sr_acl st0) (view st q t)"
    using assms(1,2) by (auto simp: simulates_def)
  have st': "sr_streams st' = (sr_streams st)(p \<mapsto> s')" "sr_acl st' = sy_broker s'" using 1 by simp_all
  obtain strp where strp: "sr_streams st0 p = Some (sys_init strp (sr_acl st0))"
      "reachable Accept Release strp (sr_acl st0) (view st p s)" using sim [OF 1(1)] by blast
  have own: "sys_step Accept Release a (view st p s) = Some (Inr (view st' p s'))"
    using own_step_others [where accept = Accept and release = Release and s = "s\<lparr>sy_broker := sr_acl st\<rparr>"
        and n = "others st p", OF 1(2)] 1(1,3) st' others_update_self [of st p st' s'] by (simp add: view_def)
  have fin_held: "finite (held s)" using finite_subset [OF held_dom finite_handlers [OF strp(2)]] by (simp add: view_def)
  have other: "reachable Accept Release str (sr_acl st0) (view st' q t)"
    if "q \<noteq> p" and r: "reachable Accept Release str (sr_acl st0) (view st q t)" for q t str
  proof -
    have cnt: "others st' q + card (held s) = others st q + card (held s')"
      using others_update [OF fin 1(1) st'(1) that(1)] .
    have "finite (held (s\<lparr>sy_broker := sr_acl st\<rparr>))" using fin_held by simp
    with 1(3,2) show ?thesis
    proof (cases rule: step_places)
      case same
      then have "view st' q t = view st q t" using cnt st'(2) by (simp add: view_def)
      then show ?thesis using r by simp
    next
      case (taken addr ok)
      then have "sys_step Accept Release (OtherAccept addr) (view st q t) = Some (Inr (view st' q t))"
        using cnt st'(2) by (simp add: view_def do_OtherAccept_def)
      then show ?thesis by (rule reachable.step [OF r])
    next
      case given
      then have "sys_step Accept Release OtherRelease (view st q t) = Some (Inr (view st' q t))"
        using cnt st'(2) by (simp add: view_def do_OtherRelease_def)
      then show ?thesis by (rule reachable.step [OF r])
    qed
  qed
  have "\<exists>str. sr_streams st0 q = Some (sys_init str (sr_acl st0)) \<and> reachable Accept Release str (sr_acl st0) (view st' q t)"
    if "sr_streams st' q = Some t" for q t
  proof (cases "q = p")
    case True
    then show ?thesis using that st'(1) strp(1) reachable.step [OF strp(2) own] by auto
  next
    case False
    then show ?thesis using that st'(1) sim [of q t] other by auto
  qed
  moreover have "dom (sr_streams st') = dom (sr_streams st0)" using assms(1) 1(1) st'(1) by (auto simp: simulates_def)
  ultimately show ?thesis by (simp add: simulates_def)
qed

lemma stats_action_Inr:
  assumes "stats_action rate e st = Some (Inr st')"
  obtains lp lp' where "sr_loop st = Some lp" "stats_step rate e lp = Inr lp'" "st' = st\<lparr>sr_loop := Some lp'\<rparr>"
  using assms by (cases "sr_loop st"; cases "stats_step rate e (the (sr_loop st))") (auto simp: stats_action_def)

lemma AtQueue_Inr:
  assumes "server_step rate AtQueue st = Some (Inr st')"
  obtains c m ms q' calls where "q_notifier (sr_queue st) = Some c" "cbuf c = m # ms"
    "handle m (sr_queue st) = (q', calls)"
    "st' = st\<lparr>sr_queue := q'\<lparr>q_notifier := Some (c\<lparr>cbuf := ms, cwaiting := cwaiting c - 1\<rparr>)\<rparr>, sr_calls := sr_calls st @ calls\<rparr>"
    "queue_turn (sr_queue st) = Some (sr_queue st')"
  using assms
  by (auto simp: queue_turn_def go_bind_Inr_conv split: option.splits prod.splits elim!: run_step_Some)

lemma AtHeartbeat_Inr:
  assumes "server_step rate (AtHeartbeat now) st = Some (Inr st')"
  obtains q where "NotifyHeartbeat now (sr_queue st) = Inr (Some q)"
    "st' = st\<lparr>sr_queue := q\<rparr>"
  using assms by (auto split: option.splits sum.splits)

lemma AtSource_Inr:
  assumes "server_step rate (AtSource p op) st = Some (Inr st')"
  obtains "op \<in> {OpSourceConnected, OpPacketReceived, OpSourceDisconnected}"
    "st' = st\<lparr>sr_loop := map_option (collect_all p [op]) (sr_loop st)\<rparr>"
  using assms by (simp split: if_splits)

text \<open>A step that is not one of a streamer leaves the streamers and the access controller alone.\<close>

lemma other_step:
  assumes "server_step rate a st = Some (Inr st')" and "\<nexists>p x. a = AtStream p x"
  shows "sr_streams st' = sr_streams st \<and> sr_acl st' = sr_acl st"
proof (cases a)
  case (AtStream p x)
  then show ?thesis using assms(2) by blast
next
  case (AtSource p op)
  then show ?thesis using assms(1) by (auto elim: AtSource_Inr simp del: server_step.simps)
next
  case AtQueue
  then show ?thesis using assms(1) by (auto elim: AtQueue_Inr simp del: server_step.simps)
next
  case (AtHeartbeat now)
  then show ?thesis using assms(1) by (auto elim: AtHeartbeat_Inr simp del: server_step.simps)
qed (use assms(1) in \<open>auto elim: stats_action_Inr\<close>)

lemma simulates_step:
  assumes "simulates st0 st" and "finite (dom (sr_streams st0))" and "server_step rate a st = Some (Inr st')"
  shows "simulates st0 st'"
proof (cases "\<exists>p x. a = AtStream p x")
  case True
  then show ?thesis using assms simulates_stream by auto
next
  case False
  from other_step [OF assms(3) this] have "sr_streams st' = sr_streams st" "sr_acl st' = sr_acl st" by simp_all
  then have "view st' = view st" by (intro ext) (simp add: view_def others_def)
  then show ?thesis using assms(1) \<open>sr_streams st' = sr_streams st\<close> by (simp add: simulates_def)
qed

lemma server_init_streams:
  "sr_streams (server_init sv acl nt) p = Some s \<longleftrightarrow>
     (\<exists>str. map_of (sv_routes sv) p = Some (StreamRoute str) \<and> s = sys_init str acl)"
  by (auto simp: server_init_def split: option.split route.split)

lemma server_init_acl [simp]: "sr_acl (server_init sv acl nt) = acl"
  by (simp add: server_init_def)

lemma server_init_dom:
  "p \<in> dom (sr_streams (server_init sv acl nt)) \<Longrightarrow> \<exists>str. sr_streams (server_init sv acl nt) p = Some (sys_init str acl)"
  using server_init_streams by (metis domD)

lemma server_init_finite: "finite (dom (sr_streams (server_init sv acl nt)))"
  by (rule finite_subset [OF _ finite_dom_map_of [of "sv_routes sv"]])
     (auto simp: server_init_streams simp del: domIff)

lemma simulates_init: "simulates (server_init sv acl nt) (server_init sv acl nt)"
proof -
  let ?st = "server_init sv acl nt"
  have "others ?st p = 0" for p
    unfolding others_def
    by (rule sum.neutral) (auto dest!: server_init_dom simp: sys_init_def held_by_def simp del: domIff)
  then have "view ?st p (sys_init str acl) = sys_init str acl" for p str
    by (simp add: view_def sys_init_def)
  then show ?thesis using reachable.init by (force simp: simulates_def server_init_streams)
qed

lemma simulates_reachable:
  "server_reachable rate (server_init sv acl nt) st \<Longrightarrow> simulates (server_init sv acl nt) st"
proof (induction rule: server_reachable.induct)
  case server_start
  show ?case by (rule simulates_init)
next
  case (server_next st a st')
  then show ?case using simulates_step server_init_finite by blast
qed

lemma server_view:
  assumes "server_reachable rate (server_init sv acl nt) st" and "sr_streams st p = Some s"
  shows "\<exists>str. map_of (sv_routes sv) p = Some (StreamRoute str) \<and> reachable Accept Release str acl (view st p s)"
proof -
  obtain str where "sr_streams (server_init sv acl nt) p = Some (sys_init str acl)"
      "reachable Accept Release str acl (view st p s)"
    using simulates_reachable [OF assms(1)] assms(2) by (force simp: simulates_def)
  then show ?thesis by (auto simp: server_init_streams sys_init_def)
qed

lemma server_finite:
  "server_reachable rate (server_init sv acl nt) st \<Longrightarrow> finite (dom (sr_streams st))"
  using simulates_reachable server_init_finite by (metis simulates_def)

lemma server_dom:
  assumes "server_reachable rate (server_init sv acl nt) st" and "map_of (sv_routes sv) p = Some (StreamRoute str)"
  shows "\<exists>s. sr_streams st p = Some s"
proof -
  have "p \<in> dom (sr_streams (server_init sv acl nt))" using assms(2) server_init_streams by blast
  then show ?thesis using simulates_reachable [OF assms(1)] unfolding simulates_def by blast
qed

section \<open>Runs\<close>

fun server_run :: "(u64 \<Rightarrow> i64 \<Rightarrow> u64) \<Rightarrow> server_action list \<Rightarrow> server_sys \<Rightarrow> server_sys go option" where
  "server_run rate [] st = Some (Inr st)"
| "server_run rate (a # as) st =
     (case server_step rate a st of
        None \<Rightarrow> None
      | Some (Inl p) \<Rightarrow> Some (Inl p)
      | Some (Inr st') \<Rightarrow> server_run rate as st')"

lemma server_run_reachable:
  "server_reachable rate st0 st \<Longrightarrow> server_run rate as st = Some (Inr st') \<Longrightarrow> server_reachable rate st0 st'"
  by (induction as arbitrary: st) (auto split: option.splits sum.splits intro: server_next)

end
