(* ===== verification/Server_Events.thy ===== *)
theory Server_Events
  imports Server_System
begin

text \<open>
  Places and connection events of a running server. The access controller limits the places of all streamers
  together; the event queue counts the clients of all streamers, and its limit events tell whether
  there are as many as the limit.
\<close>

section \<open>Places\<close>

text \<open>Over all streamers: the clients that have a place, those that are reported to the queue, and the sum
  of the changes reported so far.\<close>

definition places :: "server_sys \<Rightarrow> nat" where
  "places st = (\<Sum>p \<in> dom (sr_streams st). card (held (the (sr_streams st p))))"

definition clients :: "server_sys \<Rightarrow> nat" where
  "clients st = (\<Sum>p \<in> dom (sr_streams st). card (reported_by (sy_pc (the (sr_streams st p)))))"

definition notified :: "server_sys \<Rightarrow> int" where
  "notified st = (\<Sum>p \<in> dom (sr_streams st). sum_list (sy_notified (the (sr_streams st p))))"

lemma others_places:
  assumes "finite (dom (sr_streams st))" and "sr_streams st p = Some s"
  shows "card (held s) + others st p = places st"
  using assms sum.remove [OF assms(1) domI [of "sr_streams st", OF assms(2)], of "\<lambda>p. card (held (the (sr_streams st p)))"]
  by (simp add: others_def places_def)

lemma reported_holding: "reported p \<Longrightarrow> holding p"
  by (cases p) simp_all

lemma server_clients:
  assumes "server_reachable rate (server_init sv acl nt) st"
  shows "notified st = int (clients st)" and "clients st \<le> places st"
proof -
  have one: "sum_list (sy_notified s) = int (card (reported_by (sy_pc s)))" "card (reported_by (sy_pc s)) \<le> card (held s)"
    if s: "sr_streams st p = Some s" for p s
  proof -
    obtain str where r: "reachable Accept Release str acl (view st p s)" using server_view [OF assms s] by blast
    show "sum_list (sy_notified s) = int (card (reported_by (sy_pc s)))"
      using notify_reachable [OF r] by (simp add: notify_inv_def view_def)
    have "finite (held s)" using finite_subset [OF held_dom finite_handlers [OF r]] by (simp add: view_def)
    then show "card (reported_by (sy_pc s)) \<le> card (held s)"
      by (rule card_mono) (auto simp: reported_by_def held_by_def reported_holding)
  qed
  show "notified st = int (clients st)"
    unfolding notified_def clients_def of_nat_sum by (rule sum.cong) (auto simp: one)
  show "clients st \<le> places st"
    unfolding clients_def places_def by (rule sum_mono) (auto simp: one)
qed

lemma server_places:
  assumes "server_reachable rate (server_init sv (NewAccessController m) nt) st" and "m \<noteq> 0"
  shows "places st \<le> unat m"
proof (cases "dom (sr_streams st) = {}")
  case True
  then show ?thesis by (simp add: places_def)
next
  case False
  then obtain p s where s: "sr_streams st p = Some s" by blast
  obtain str where "reachable Accept Release str (NewAccessController m) (view st p s)"
    using server_view [OF assms(1) s] by blast
  from places_within_limit [OF this assms(2)] show ?thesis
    using others_places [OF server_finite [OF assms(1)] s] by (simp add: view_def)
qed

section \<open>The history of the queue\<close>

text \<open>The handlers were called for the messages \<open>ms\<close>, one after the other.\<close>

definition handled :: "note_handler Queue \<Rightarrow> server_sys \<Rightarrow> bool" where
  "handled q0 st \<longleftrightarrow> (\<exists>ms. handle_all ms q0 = ((sr_queue st)\<lparr>q_notifier := q_notifier q0\<rparr>, sr_calls st))"

lemma handled_notifier:
  "sr_queue st' = (sr_queue st)\<lparr>q_notifier := x\<rparr> \<Longrightarrow> sr_calls st' = sr_calls st \<Longrightarrow> handled q0 st \<Longrightarrow> handled q0 st'"
  by (simp add: handled_def)

lemma announced_one: "announced a = [] \<or> (\<exists>d. announced a = [d] \<and> \<bar>d\<bar> \<le> 1)"
  by (cases a) auto

lemma announce_Inr:
  assumes "announce NotifyConnect (announced a) q = Inr (Some q')"
  obtains (quiet) "announced a = []" "q' = q"
    | (sent) d where "announced a = [d]" "\<bar>d\<bar> \<le> 1" "notify (connect_msg d) q = Inr (Some q')"
  using assms by (cases a) (auto simp: NotifyConnect_def connect_msg_def split: sum.splits option.splits)

lemma notified_step:
  assumes "stream_step p a st = Some (Inr st')" and "finite (dom (sr_streams st))"
  shows "notified st' = notified st + sum_list (announced a)"
  using assms(1)
proof (cases rule: stream_step_Inr)
  case (1 s s' q)
  let ?D = "dom (sr_streams st)"
  have n: "sum_list (sy_notified s') = sum_list (sy_notified s) + sum_list (announced a)"
    using step_reports [OF 1(3)] by simp
  have "p \<in> ?D" and dom': "dom (sr_streams st') = ?D" using 1(1,5) by auto
  note split = sum.remove [OF assms(2) this(1)]
  have "(\<Sum>x \<in> ?D - {p}. sum_list (sy_notified (the (sr_streams st' x)))) = (\<Sum>x \<in> ?D - {p}. sum_list (sy_notified (the (sr_streams st x))))"
    using 1(5) by (intro sum.cong) auto
  then show ?thesis
    unfolding notified_def dom' by (subst (1 2) split) (use 1(1,5) n in simp)
qed

text \<open>One step of the server, for a queue that was started with the state \<open>q0\<close>.\<close>

lemma events_step:
  assumes "counting (notified st) (sr_queue st)" and "handled q0 st" and "count_ok (notified st')"
    and "server_step rate a st = Some (Inr st')" and "finite (dom (sr_streams st))"
  shows "counting (notified st') (sr_queue st') \<and> handled q0 st'"
proof (cases a)
  case (AtStream p x)
  then have step: "stream_step p x st = Some (Inr st')" using assms(4) by simp
  note n = notified_step [OF step assms(5)]
  from step show ?thesis
  proof (cases rule: stream_step_Inr)
    case (1 s s' q)
    have "count_ok (notified st + sum_list (take k (announced x)))" for k
      using counting_count [OF assms(1)] assms(3) n announced_one [of x] by (cases k) auto
    then have "counting (notified st') q"
      using nq.announce_tracks [OF assms(1) 1(4)] announced_one [of x] n by auto
    moreover have "handled q0 st'"
      using 1(4) by (cases rule: announce_Inr) (use 1(5) assms(2) in \<open>auto elim!: notify_Inr intro: handled_notifier simp: handled_def\<close>)
    ultimately show ?thesis using 1(5) by simp
  qed
next
  case (AtSource p op)
  then have "st' = st\<lparr>sr_loop := map_option (collect_all p [op]) (sr_loop st)\<rparr>"
    using assms(4) by (auto elim: AtSource_Inr simp del: server_step.simps)
  then show ?thesis using assms(1,2) by (simp add: notified_def handled_def)
next
  case AtQueue
  from assms(4) [unfolded AtQueue] show ?thesis
  proof (cases rule: AtQueue_Inr)
    case (1 c m ms q' calls)
    obtain hs where hs: "handle_all hs q0 = ((sr_queue st)\<lparr>q_notifier := q_notifier q0\<rparr>, sr_calls st)"
      using assms(2) by (auto simp: handled_def)
    have "counting (notified st) (sr_queue st')" using nq.turn_tracks [OF assms(1)] 1(5) by simp
    moreover have "handle_all (hs @ [m]) q0 = ((sr_queue st')\<lparr>q_notifier := q_notifier q0\<rparr>, sr_calls st')"
      using 1 hs by (simp add: handle_all_append handle_notifier)
    ultimately show ?thesis using 1(4) by (auto simp: notified_def handled_def)
  qed
next
  case (AtHeartbeat now)
  from assms(4) [unfolded AtHeartbeat] show ?thesis
  proof (cases rule: AtHeartbeat_Inr)
    case (1 q)
    have "notified st' = notified st" using 1(2) by (simp add: notified_def)
    then show ?thesis
      using nq.heartbeat_tracks [OF assms(1) 1(1)] assms(2) 1 by (auto simp: NotifyHeartbeat_def elim!: notify_Inr intro: handled_notifier)
  qed
qed (use assms in \<open>auto elim!: stats_action_Inr simp: notified_def handled_def\<close>)

lemma events_reachable:
  assumes "server_reachable rate (server_init sv (NewAccessController m) nt) st"
    and "m \<noteq> 0" and "int (unat m) \<le> MaxInt32"
    and "q_connections (ns_queue nt) = 0" and "waiting_messages (ns_queue nt) = []"
  shows "counting (notified st) (sr_queue st) \<and> handled (ns_queue nt) st"
  using assms(1)
proof (induction rule: server_reachable.induct)
  case server_start
  have "notified (server_init sv (NewAccessController m) nt) = 0"
    unfolding notified_def
    by (rule sum.neutral) (auto dest!: server_init_dom simp: sys_init_def simp del: domIff)
  moreover have "handle_all [] (ns_queue nt) = (ns_queue nt, [])" by simp
  ultimately show ?case
    using assms(4,5) by (auto simp: counting_def handled_def server_init_def count_ok_def MaxInt32_def intro!: exI [of _ "[]"])
next
  case (server_next st a st')
  have r': "server_reachable rate (server_init sv (NewAccessController m) nt) st'"
    using server_next.hyps by (rule server_reachable.server_next)
  have "count_ok (notified st')"
    using server_clients [OF r'] server_places [OF r' assms(2)] assms(3) unfolding count_ok_def by linarith
  then show ?case
    using events_step server_next.IH server_next.hyps(2) server_finite [OF server_next.hyps(1)] by blast
qed

lemma alternates_last:
  "alternates full xs \<Longrightarrow> xs \<noteq> [] \<Longrightarrow> last xs = TypeLimitHit \<longleftrightarrow> full = even (length xs)"
proof (induction xs arbitrary: full)
  case (Cons x xs)
  then show ?case by (cases xs) auto
qed simp

lemma sint_zero: "sint w = 0 \<Longrightarrow> w = 0"
  using signed_eq_0_iff by blast

section \<open>The queue of a started program\<close>

lemma RegisterEventHandler_fields [simp]:
  "q_limit (RegisterEventHandler ty h q) = q_limit q" "q_connections (RegisterEventHandler ty h q) = q_connections q"
  "q_running (RegisterEventHandler ty h q) = q_running q" "q_notifier (RegisterEventHandler ty h q) = q_notifier q"
  by (simp_all add: RegisterEventHandler_def Let_def)

text \<open>A queue that is being set up.\<close>

definition waits :: "int \<Rightarrow> 'h Queue \<Rightarrow> bool" where
  "waits limit q \<longleftrightarrow> q_limit q = limit \<and> q_connections q = 0 \<and> \<not> q_running q"

lemma waits_notifications: "waits limit q \<Longrightarrow> waits limit (ns_queue (setup_notifications env config q))"
proof -
  have "waits limit (ns_queue (setup_notification env config e st)) = waits limit (ns_queue st)" for e st
    by (auto simp: setup_notification_def waits_def Let_def split: prod.splits option.splits sum.splits)
  then have "waits limit (ns_queue (fold (setup_notification env config) es st)) = waits limit (ns_queue st)" for es st
    by (induction es arbitrary: st) simp_all
  then show "waits limit q \<Longrightarrow> ?thesis" by (simp add: setup_notifications_def)
qed

lemma main_queue:
  assumes "main env (Inr (Inr config)) = Inr (ListenAndServe listen sv acl nt heartbeat)"
  shows "q_limit (ns_queue nt) = sint (Configuration.FullConnections config)" "0 \<le> q_limit (ns_queue nt)"
    "q_connections (ns_queue nt) = 0" "waiting_messages (ns_queue nt) = []"
proof -
  obtain q :: "note_handler Queue" where q: "NewQueue (sint (Configuration.FullConnections config)) = Inr q"
    "ns_queue nt = Start (ns_queue (setup_notifications env config q))"
    using assms by (auto simp: main_def start_server_def start_queue_def go_bind_Inr_conv Let_def split: if_splits)
  from q(1) have "waits (sint (Configuration.FullConnections config)) q" and pos: "0 \<le> sint (Configuration.FullConnections config)"
    by (auto simp: NewQueue_def waits_def split: if_splits)
  from waits_notifications [OF this(1)] q(2)
  show "q_limit (ns_queue nt) = sint (Configuration.FullConnections config)" "q_connections (ns_queue nt) = 0"
      "waiting_messages (ns_queue nt) = []"
    by (simp_all add: waits_def Start_def waiting_messages_def make_chan_def)
  with pos show "0 \<le> q_limit (ns_queue nt)" by simp
qed

lemma main_streams:
  assumes "main env (Inr (Inr config)) = Inr (ListenAndServe listen sv acl nt heartbeat)"
  shows "(p, StreamRoute str) \<in> set (sv_routes sv) \<Longrightarrow> map_of (sv_routes sv) p = Some (StreamRoute str)"
    and "\<exists>p str. map_of (sv_routes sv) p = Some (StreamRoute str)"
proof -
  have w: "distinct (map fst (sv_routes sv))" "filter (is_stream \<circ> snd) (sv_routes sv) \<noteq> []"
    using main_Serve(1,2) [OF assms] by (auto simp: wired_def)
  from map_of_is_SomeI [OF w(1)]
  show one: "(p, StreamRoute str) \<in> set (sv_routes sv) \<Longrightarrow> map_of (sv_routes sv) p = Some (StreamRoute str)" for p str .
  from w(2) obtain p rt where "(p, rt) \<in> set (sv_routes sv)" "is_stream rt" by (auto simp: filter_empty_conv)
  then show "\<exists>p str. map_of (sv_routes sv) p = Some (StreamRoute str)" using one by (cases rt) auto
qed

section \<open>A server with two streams\<close>

text \<open>The configuration has a limit of two connections for the events and a maximum of three. A client joins each of
  the streams, the queue handles both messages, and a packet arrives for the first stream.\<close>

fun started :: "start_result go \<Rightarrow> server_sys option" where
  "started (Inr (ListenAndServe l sv acl nt hb)) = Some (server_init sv acl nt)"
| "started _ = None"

lemma run_value: "map_option (map_sum id f) r = Some (Inr x) \<Longrightarrow> \<exists>s. r = Some (Inr s) \<and> f s = x"
  by (cases r; cases "the r") auto

definition note_env :: start_env where
  "note_env = sample_env\<lparr>en_note_url := Inr\<rparr>"

definition twin_config :: Configuration where
  "twin_config = sample_config\<lparr>Configuration.MaxConnections := 3, Configuration.FullConnections := 2,
     Resources := [sample_resource_of ''stream'' ''/a'' ''http://a'', sample_resource_of ''stream'' ''/b'' ''http://b''],
     Notifications := [sample_note\<lparr>note_Event := ''limit_hit''\<rparr>, sample_note\<lparr>note_Event := ''limit_miss''\<rparr>]\<rparr>"

definition twin_start :: server_sys where
  "twin_start = the (started (start_server note_env twin_config))"

lemma twin_started: 
  "map_option (\<lambda>st. (q_handlers (sr_queue st) TypeLimitHit, q_handlers (sr_queue st) TypeLimitMiss))
     (started (start_server note_env twin_config)) = Some (Some [(Some 0, True)], Some [(Some 1, True)])"
  by code_simp

definition join :: "nat \<Rightarrow> action list" where
  "join h = [HttpRequest h example_request, LoopAdd 0 h [], StartServe h [] True]"

definition twin_actions :: "server_action list" where
  "twin_actions = map (AtStream ''/a'') ([StreamCall (input []), EatStart 0] @ join 0)
     @ map (AtStream ''/b'') ([StreamCall (input []), EatStart 0] @ join 0)
     @ [AtQueue, AtQueue]
     @ map (AtStream ''/a'') [InputSend 0 (ts_packet 1), LoopPacket 0 [0], Distribute 0, Distribute 0]"

lemma twin_value:
  "map_option (map_sum id (\<lambda>st. (q_connections (sr_queue st), waiting_messages (sr_queue st),
       limit_types (Some 0) (Some 1) (sr_calls st), ac_connections (sr_acl st), map_option (\<lambda>lp. Option.is_none (lp_delta lp)) (sr_loop st)))) 
     (server_run (\<lambda>n d. n) twin_actions twin_start) = Some (Inr (2, [], [TypeLimitHit], 2, Some True))"
  by code_simp

lemma twin_main:
  obtains listen sv acl nt hb where
    "main note_env (Inr (Inr twin_config) :: (unit + Configuration) go) = Inr (ListenAndServe listen sv acl nt hb)"
    and "server_init sv acl nt = twin_start" and "registered (Some 0) TypeLimitHit (ns_queue nt)"
    and "registered (Some 1) TypeLimitMiss (ns_queue nt)"
proof -
  obtain listen sv acl nt hb where r: "start_server note_env twin_config = Inr (ListenAndServe listen sv acl nt hb)"
    using twin_started by (cases "start_server note_env twin_config" rule: started.cases) auto
  then have st: "server_init sv acl nt = twin_start" by (simp add: twin_start_def)
  have "q_handlers (ns_queue nt) TypeLimitHit = Some [(Some 0, True)]" "q_handlers (ns_queue nt) TypeLimitMiss = Some [(Some 1, True)]"
    using twin_started r by (simp_all add: server_init_def)
  then have "registered (Some 0) TypeLimitHit (ns_queue nt)" "registered (Some 1) TypeLimitMiss (ns_queue nt)"
    by (simp_all add: registered_def)
  with r st that show ?thesis by (simp add: main_def)
qed

lemma twin_run:
  obtains st lp where "server_run (\<lambda>n d. n) twin_actions twin_start = Some (Inr st)"
    and "q_connections (sr_queue st) = 2" and "waiting_messages (sr_queue st) = []"
    and "limit_types (Some 0) (Some 1) (sr_calls st) = [TypeLimitHit]" and "ac_connections (sr_acl st) = 2"
    and "sr_loop st = Some lp" and "lp_delta lp = None"
  using run_value [OF twin_value] by (auto simp: Option.is_none_def)

lemma twin_limits [simp]:
  "Configuration.MaxConnections twin_config = 3" "Configuration.FullConnections twin_config = 2"
  by (simp_all add: twin_config_def)

section \<open>Properties\<close>

text \<open>
  C2. Every streamer of a running server behaves like the streamer of \<open>Stream_System\<close>: whatever the
  streamers, their clients, the event queue and the statistics do and in which order, the state of one
  streamer, with the access controller that all of them share and the number of places the others hold, is
  one that this streamer can get into on its own beside other users of the access controller.
  So everything that is shown of a streamer holds for each streamer of the server. The
  controller counts the places of all streamers together, and with a configured maximum there are
  never more.\<close>

theorem server_refines:
  assumes "main env (Inr (Inr config)) = Inr (ListenAndServe listen sv acl nt heartbeat)"
    and "server_reachable rate (server_init sv acl nt) st"
  shows "(\<forall>p s. sr_streams st p = Some s \<longrightarrow>
       (\<exists>str. (p, StreamRoute str) \<in> set (sv_routes sv) \<and> reachable Accept Release str acl (view st p s)))
     \<and> (Configuration.MaxConnections config \<noteq> 0 \<longrightarrow>
          places st \<le> unat (Configuration.MaxConnections config) \<and> unat (ac_connections (sr_acl st)) = places st)"
proof (intro conjI allI impI)
  fix p s assume "sr_streams st p = Some s"
  then show "\<exists>str. (p, StreamRoute str) \<in> set (sv_routes sv) \<and> reachable Accept Release str acl (view st p s)"
    using server_view [OF assms(2)] map_of_SomeD by metis
next
  assume m: "Configuration.MaxConnections config \<noteq> 0"
  note r = assms(2) [unfolded main_Serve(3) [OF assms(1)]]
  show "places st \<le> unat (Configuration.MaxConnections config)" using server_places [OF r m] .
  obtain p str where "map_of (sv_routes sv) p = Some (StreamRoute str)"
    using main_streams(2) [OF assms(1)] by blast
  then obtain s where s: "sr_streams st p = Some s" using server_dom [OF r] by blast
  obtain str where "reachable Accept Release str (NewAccessController (Configuration.MaxConnections config)) (view st p s)"
    using server_view [OF r s] by blast
  from places_within_limit [OF this m] show "unat (ac_connections (sr_acl st)) = places st"
    using others_places [OF server_finite [OF r] s] by (simp add: view_def)
qed

theorem server_refines_witness:
  "\<exists>listen sv acl nt hb st. main note_env (Inr (Inr twin_config) :: (unit + Configuration) go) = Inr (ListenAndServe listen sv acl nt hb)
     \<and> server_run (\<lambda>n d. n) twin_actions (server_init sv acl nt) = Some (Inr st) \<and> places st = 2 \<and> places st \<le> 3"
proof -
  obtain listen sv acl nt hb where m: "main note_env (Inr (Inr twin_config) :: (unit + Configuration) go) = Inr (ListenAndServe listen sv acl nt hb)"
    "server_init sv acl nt = twin_start" by (rule twin_main)
  obtain st where st: "server_run (\<lambda>n d. n) twin_actions twin_start = Some (Inr st)" "ac_connections (sr_acl st) = 2"
    by (rule twin_run)
  have "server_reachable (\<lambda>n d. n) (server_init sv acl nt) st"
    using server_run_reachable [OF server_start st(1)] m(2) by simp
  from server_refines [OF m(1) this] have "unat (ac_connections (sr_acl st)) = places st" "places st \<le> 3" by simp_all
  with m st show ?thesis by auto
qed

text \<open>
  C4. Connection events of the whole server. With a maximum that fits into 31 bits, the counter of the event
  queue and the changes that wait in its channel add up to the number of clients that are being served
  on all streams together. Two handlers that are registered for the two limit events are called in
  turn, beginning with a hit, and whenever no message waits the last call was a hit exactly if at
  least as many clients are served as the limit says.\<close>

theorem server_events:
  assumes "main env (Inr (Inr config)) = Inr (ListenAndServe listen sv acl nt heartbeat)"
    and "server_reachable rate (server_init sv acl nt) st"
    and "Configuration.MaxConnections config \<noteq> 0" and "int (unat (Configuration.MaxConnections config)) \<le> MaxInt32"
    and "Configuration.FullConnections config \<noteq> 0"
    and "registered hit TypeLimitHit (ns_queue nt)" and "registered miss TypeLimitMiss (ns_queue nt)"
  shows "q_connections (sr_queue st) + sum_list (map change_of (waiting_messages (sr_queue st))) = int (clients st)
     \<and> alternates False (limit_types hit miss (sr_calls st))
     \<and> (waiting_messages (sr_queue st) = [] \<longrightarrow>
          (sint (Configuration.FullConnections config) \<le> int (clients st)
            \<longleftrightarrow> limit_types hit miss (sr_calls st) \<noteq> [] \<and> last (limit_types hit miss (sr_calls st)) = TypeLimitHit))"
proof -
  note q = main_queue [OF assms(1)]
  note r = assms(2) [unfolded main_Serve(3) [OF assms(1)]]
  have ev: "counting (notified st) (sr_queue st)" "handled (ns_queue nt) st"
    using events_reachable [OF r assms(3,4) q(3,4)] by simp_all
  then have count: "q_connections (sr_queue st) + sum_list (map change_of (waiting_messages (sr_queue st))) = int (clients st)"
    using server_clients [OF r] by (simp add: counting_def)
  have lim: "q_limit (ns_queue nt) \<noteq> 0" "\<not> q_limit (ns_queue nt) \<le> 0"
    using q(1,2) assms(5) by (auto dest: sint_zero)
  obtain ms where "handle_all ms (ns_queue nt) = ((sr_queue st)\<lparr>q_notifier := q_notifier (ns_queue nt)\<rparr>, sr_calls st)"
    using ev(2) by (auto simp: handled_def)
  with alternates_handle_all [OF assms(6,7) lim(1), of ms] lim(2) q(3)
  have "alternates False (limit_types hit miss (sr_calls st))"
    "q_limit (ns_queue nt) \<le> q_connections (sr_queue st) \<longleftrightarrow> odd (length (limit_types hit miss (sr_calls st)))"
    by auto
  moreover from this(1) have "odd (length (limit_types hit miss (sr_calls st))) \<longleftrightarrow>
      limit_types hit miss (sr_calls st) \<noteq> [] \<and> last (limit_types hit miss (sr_calls st)) = TypeLimitHit"
    using alternates_last [of False] by (metis even_zero list.size(3))
  ultimately show ?thesis using count q(1) by auto
qed

theorem server_events_witness:
  "\<exists>listen sv acl nt hb st. main note_env (Inr (Inr twin_config) :: (unit + Configuration) go) = Inr (ListenAndServe listen sv acl nt hb)
     \<and> server_run (\<lambda>n d. n) twin_actions (server_init sv acl nt) = Some (Inr st) \<and> clients st = 2
     \<and> limit_types (Some 0) (Some 1) (sr_calls st) = [TypeLimitHit] \<and> alternates False (limit_types (Some 0) (Some 1) (sr_calls st))"
proof -
  obtain listen sv acl nt hb where m: "main note_env (Inr (Inr twin_config) :: (unit + Configuration) go) = Inr (ListenAndServe listen sv acl nt hb)"
    "server_init sv acl nt = twin_start" "registered (Some 0) TypeLimitHit (ns_queue nt)" "registered (Some 1) TypeLimitMiss (ns_queue nt)"
    by (rule twin_main)
  obtain st where st: "server_run (\<lambda>n d. n) twin_actions twin_start = Some (Inr st)" "q_connections (sr_queue st) = 2"
      "waiting_messages (sr_queue st) = []" "limit_types (Some 0) (Some 1) (sr_calls st) = [TypeLimitHit]"
    by (rule twin_run)
  have "server_reachable (\<lambda>n d. n) (server_init sv acl nt) st"
    using server_run_reachable [OF server_start st(1)] m(2) by simp
  from server_events [OF m(1) this _ _ _ m(3,4)] st(2-4)
  have "clients st = 2" "alternates False (limit_types (Some 0) (Some 1) (sr_calls st))"
    by (simp_all add: MaxInt32_def)
  with m(1,2) st(1,4) show ?thesis by auto
qed

end
