(* ===== verification/Server_Statistics.thy ===== *)
theory Server_Statistics
  imports Server_Events
begin

text \<open>
  The statistics of a running server: what the update loop publishes, compared with what the streamers do.
\<close>

section \<open>What a streamer reports\<close>

definition net_connections :: "collector_op list \<Rightarrow> int" where
  "net_connections ops = int (count_list ops OpConnectionAdded) - int (count_list ops OpConnectionRemoved)"

definition has_packets :: "'b system \<Rightarrow> nat set" where
  "has_packets s = {h. sy_sent s h \<noteq> []}"

text \<open>The packets that were put into the queues of the clients of a streamer, all together.\<close>

definition packets_queued :: "'b system \<Rightarrow> nat" where
  "packets_queued s = (\<Sum>h \<in> has_packets s. length (sy_sent s h))"

lemma net_connections_simps [simp]:
  "net_connections [] = 0" "net_connections (xs @ ys) = net_connections xs + net_connections ys"
  by (simp_all add: net_connections_def)

lemma collected_announced: "net_connections (collected a s) = sum_list (announced a)"
  by (cases a) (auto simp: net_connections_def distributed_def split: option.split loop_pc.split list.split)

lemma queued_one:
  assumes "finite (has_packets s)" and "sy_sent s' = (sy_sent s)(c := sy_sent s c @ [packet])"
  shows "finite (has_packets s') \<and> packets_queued s' = packets_queued s + 1"
proof -
  have dom': "has_packets s' = insert c (has_packets s)" using assms(2) by (auto simp: has_packets_def)
  have "(\<Sum>h \<in> has_packets s - {c}. length (sy_sent s' h)) = (\<Sum>h \<in> has_packets s - {c}. length (sy_sent s h))"
    using assms(2) by (intro sum.cong) auto
  moreover have "packets_queued s = length (sy_sent s c) + (\<Sum>h \<in> has_packets s - {c}. length (sy_sent s h))"
    using sum.remove [OF assms(1), of c "\<lambda>h. length (sy_sent s h)"]
    by (cases "c \<in> has_packets s") (auto simp: packets_queued_def has_packets_def)
  ultimately show ?thesis
    using assms by (simp add: packets_queued_def dom' sum.insert_remove)
qed

lemma step_queued:
  assumes "sys_step accept release a s = Some (Inr s')" and "finite (has_packets s)"
  shows "finite (has_packets s') \<and> packets_queued s' = packets_queued s + count_list (collected a s) OpPacketSent"
proof (cases "\<exists>i. a = Distribute i")
  case False
  then have "sy_sent s' = sy_sent s" "count_list (collected a s) OpPacketSent = 0"
    using assms(1) by (cases a; auto elim!: step_Inr simp: added_def)+
  then show ?thesis using assms(2) by (simp add: packets_queued_def has_packets_def)
next
  case True
  then obtain i where a: "a = Distribute i" by blast
  then have "do_Distribute i s = Some (Inr s')" using assms(1) by simp
  then show ?thesis
  proof (cases rule: do_Distribute_Inr)
    case (queued th packet c todo conn)
    then have "has_room (sy_conns s) c" "sy_sent s' = (sy_sent s)(c := sy_sent s c @ [packet])"
      by (simp_all add: has_room_def)
    then show ?thesis using queued_one [OF assms(2)] queued(1,2) a by (simp add: distributed_def)
  next
    case (dropped th packet c todo)
    then show ?thesis using assms(2) a by (simp add: distributed_def packets_queued_def has_packets_def)
  next
    case (finished th packet)
    then show ?thesis using assms(2) a by (simp add: distributed_def packets_queued_def has_packets_def set_thread_def)
  qed
qed

lemma broker_simps [simp]:
  "collected a (s\<lparr>sy_broker := b\<rparr>) = collected a s" "has_packets (s\<lparr>sy_broker := b\<rparr>) = has_packets s"
  "packets_queued (s\<lparr>sy_broker := b\<rparr>) = packets_queued s"
  by (cases a; simp add: distributed_def thread_at_def split: loop_pc.split list.split) (simp_all add: packets_queued_def has_packets_def)

section \<open>The calls behind the counters\<close>

lemma loop_inv_collect_all:
  "loop_inv start0 es lp \<Longrightarrow> loop_inv start0 (es @ map (Collect p) ops) (collect_all p ops lp)"
proof (induction ops arbitrary: es lp)
  case Nil
  then show ?case by (simp add: collect_all_def)
next
  case (Cons op ops)
  from Cons.IH [OF loop_inv_collect [OF Cons.prems, of p op]] show ?case by (simp add: collect_all_def)
qed

lemma collect_all_simps [simp]:
  "st_streams (lp_stats (collect_all p ops lp)) = st_streams (lp_stats lp)"
  "lp_delta (collect_all p ops lp) = lp_delta lp"
proof -
  have "st_streams (fold (collect_at p) ops stats) = st_streams stats" for stats
    by (induction ops arbitrary: stats) simp_all
  then show "st_streams (lp_stats (collect_all p ops lp)) = st_streams (lp_stats lp)" by (simp add: collect_all_def)
  show "lp_delta (collect_all p ops lp) = lp_delta lp" by (simp add: collect_all_def)
qed

lemma ops_of_collect [simp]: "ops_of n (map (Collect p) ops) = (if p = n then ops else [])"
  by (induction ops) simp_all

text \<open>The calls \<open>es\<close> of a stream are those of its streamer.\<close>

definition calls_ok :: "stats_event list \<Rightarrow> string \<Rightarrow> server_sys \<Rightarrow> bool" where
  "calls_ok es p st \<longleftrightarrow>
     (case sr_streams st p of
        None \<Rightarrow> net_connections (ops_of p es) = 0 \<and> count_list (ops_of p es) OpPacketSent = 0
      | Some s \<Rightarrow> finite (has_packets s) \<and> net_connections (ops_of p es) = sum_list (sy_notified s)
          \<and> count_list (ops_of p es) OpPacketSent = packets_queued s)"

definition stats_inv :: "realStatistics \<Rightarrow> stats_event list \<Rightarrow> stats_loop \<Rightarrow> server_sys \<Rightarrow> bool" where
  "stats_inv start0 es lp st \<longleftrightarrow> sr_loop st = Some lp \<and> loop_inv start0 es lp
     \<and> map fst (st_streams (lp_stats lp)) = map fst (st_streams start0) \<and> (\<forall>p. calls_ok es p st)"

lemma stats_inv_stream:
  assumes "stats_inv start0 es lp st" and "stream_step p a st = Some (Inr st')"
  shows "\<exists>es lp. stats_inv start0 es lp st'"
  using assms(2)
proof (cases rule: stream_step_Inr)
  case (1 s s' q)
  let ?es = "es @ map (Collect p) (collected a s)" and ?lp = "collect_all p (collected a s) lp"
  have inv: "loop_inv start0 es lp" "sr_loop st = Some lp" "\<And>n. calls_ok es n st"
      "map fst (st_streams (lp_stats lp)) = map fst (st_streams start0)"
    using assms(1) by (simp_all add: stats_inv_def)
  have p: "calls_ok ?es p st'"
    using inv(3) [of p] step_reports [OF 1(3)] step_queued [OF 1(3)] 1(1,5) collected_announced [of a s]
    by (simp add: calls_ok_def)
  have "calls_ok ?es n st'" for n
    using p inv(3) [of n] 1(5) by (cases "n = p") (auto simp: calls_ok_def split: option.splits)
  then have "stats_inv start0 ?es ?lp st'"
    using inv loop_inv_collect_all [OF inv(1)] 1(5) by (simp add: stats_inv_def)
  then show ?thesis by blast
qed


lemma stats_inv_event:
  assumes "stats_inv start0 es lp st" and "stats_action rate e st = Some (Inr st')" and "e = TickDelta \<or> (\<exists>d. e = TickUpdate d)"
  shows "\<exists>es lp. stats_inv start0 es lp st'"
  using assms(2)
proof (cases rule: stats_action_Inr)
  case (1 l lp')
  have inv: "loop_inv start0 es lp" "l = lp" "\<And>n. calls_ok es n st"
      "map fst (st_streams (lp_stats lp)) = map fst (st_streams start0)"
    using assms(1) 1(1) by (simp_all add: stats_inv_def)
  have "loop_inv start0 (es @ [e]) lp'"
    using loop_inv_step [OF inv(1), of e rate] assms(3) 1(2) inv(2) by auto
  moreover have "map fst (st_streams (lp_stats lp')) = map fst (st_streams (lp_stats lp))"
    using assms(3) 1(2) inv(2) by (auto simp: go_bind_Inr_conv Let_def split_def dest!: update_Inr split: option.splits)
  moreover have "calls_ok (es @ [e]) n st'" for n
    using inv(3) [of n] assms(3) 1(3) by (auto simp: calls_ok_def split: option.splits)
  ultimately have "stats_inv start0 (es @ [e]) lp' st'" using inv(4) 1(3) by (simp add: stats_inv_def)
  then show ?thesis by blast
qed

lemma stats_inv_source:
  assumes "stats_inv start0 es lp st" and "op \<in> {OpSourceConnected, OpPacketReceived, OpSourceDisconnected}"
  shows "stats_inv start0 (es @ [Collect p op]) (collect_all p [op] lp) (st\<lparr>sr_loop := map_option (collect_all p [op]) (sr_loop st)\<rparr>)"
proof -
  have "calls_ok (es @ [Collect p op]) n (st\<lparr>sr_loop := x\<rparr>)" for n x
  proof -
    have "calls_ok es n st" using assms(1) by (simp add: stats_inv_def)
    then show ?thesis using assms(2) by (auto simp: calls_ok_def net_connections_def split: option.splits)
  qed
  then show ?thesis
    using assms(1) loop_inv_collect_all [of start0 es lp p "[op]"] by (simp add: stats_inv_def)
qed

lemma stats_inv_step:
  assumes "stats_inv start0 es lp st" and "server_step rate a st = Some (Inr st')"
  shows "\<exists>es lp. stats_inv start0 es lp st'"
proof (cases a)
  case (AtStream p x)
  then show ?thesis using assms stats_inv_stream by simp
next
  case (AtSource p op)
  from assms(2) [unfolded AtSource] show ?thesis
    by (rule AtSource_Inr) (use stats_inv_source [OF assms(1)] in blast)
next
  case AtQueue
  from assms(2) [unfolded AtQueue] show ?thesis
    by (rule AtQueue_Inr) (use assms(1) in \<open>auto simp: stats_inv_def calls_ok_def\<close>)
next
  case (AtHeartbeat now)
  from assms(2) [unfolded AtHeartbeat] show ?thesis
    by (rule AtHeartbeat_Inr) (use assms(1) in \<open>auto simp: stats_inv_def calls_ok_def\<close>)
qed (use assms stats_inv_event in simp_all)

lemma stats_inv_reachable:
  assumes "server_reachable rate (server_init sv acl nt) st" and "sv_stats sv = RealStatistics start0" and "fresh_stats start0"
  shows "\<exists>es lp. stats_inv start0 es lp st"
  using assms(1)
proof (induction rule: server_reachable.induct)
  case server_start
  have "calls_ok [] p (server_init sv acl nt)" for p
    by (auto simp: calls_ok_def server_init_streams sys_init_def has_packets_def packets_queued_def split: option.split)
  then have "stats_inv start0 [] (loop_init start0) (server_init sv acl nt)"
    using loop_inv_init [OF assms(3)] assms(2) by (simp add: stats_inv_def server_init_def loop_init_def)
  then show ?case by blast
next
  case (server_next st a st')
  then show ?case using stats_inv_step by blast
qed

lemma dummy_no_loop:
  assumes "server_reachable rate (server_init sv acl nt) st" and "sv_stats sv = DummyStatistics"
  shows "sr_loop st = None"
  using assms(1)
proof (induction rule: server_reachable.induct)
  case server_start
  show ?case using assms(2) by (simp add: server_init_def)
next
  case (server_next st a st')
  then show ?case
    by (cases a) (auto simp: go_bind_Inr_conv stats_action_def elim!: stream_step_Inr split: option.splits sum.splits if_splits)
qed

lemma server_paths:
  "server_reachable rate (server_init sv acl nt) st \<Longrightarrow> dom (sr_streams st) \<subseteq> stream_paths sv"
  using server_view map_of_SomeD unfolding stream_paths_def by fastforce

section \<open>The statistics of a started program\<close>

text \<open>Statistics are new, and every stream that is served has been registered.\<close>

definition stats_ready :: "server \<Rightarrow> bool" where
  "stats_ready sv \<longleftrightarrow> (case sv_stats sv of
     DummyStatistics \<Rightarrow> True
   | RealStatistics stats \<Rightarrow> fresh_stats stats \<and> stream_paths sv \<subseteq> fst ` set (st_streams stats))"

lemma fresh_register: "fresh_stats stats \<Longrightarrow> fresh_stats (RegisterStream n stats)"
proof -
  have "snd ` set (AList.update n zeroStatistics xs) \<subseteq> insert zeroStatistics (snd ` set xs)" for xs
    by (induction xs) auto
  then show "fresh_stats stats \<Longrightarrow> ?thesis"
    by (fastforce simp: fresh_stats_def stats_ok_def RegisterStream_def AList.distinct_update AList.dom_update)
qed

lemma register_keys: "fst ` set (st_streams (RegisterStream n stats)) = insert n (fst ` set (st_streams stats))"
  by (simp add: RegisterStream_def AList.dom_update)

lemma setup_resource_stats:
  assumes "setup_resource env config ir sv = Inr sv'"
  shows "sv_stats sv' = sv_stats sv \<and> stream_paths sv' = stream_paths sv
     \<or> (\<exists>n. sv_stats sv' = snd (iface_RegisterStream n (sv_stats sv)) \<and> stream_paths sv' \<subseteq> insert n (stream_paths sv))"
proof (cases "res_Type (snd ir) = ''stream''")
  case True
  then have "setup_stream env config (fst ir) (snd ir) sv = Inr sv'" using assms by (simp add: setup_resource_def split_beta)
  then have "sv_stats sv' = snd (iface_RegisterStream (res_Serve (snd ir)) (sv_stats sv))
      \<and> stream_paths sv' \<subseteq> insert (res_Serve (snd ir)) (stream_paths sv)"
    by (auto simp: setup_stream_def Let_def go_bind_Inr_conv mux_Handle_def stream_paths_def split_beta split: sum.splits if_splits)
  then show ?thesis by blast
next
  case False
  have "sv_stats w = sv_stats sv \<and> stream_paths w = stream_paths sv" if "mux_Handle p rt sv = Inr w" "\<not> is_stream rt" for p rt w
    using that by (cases rt) (auto simp: mux_Handle_def stream_paths_def split: if_splits)
  then show ?thesis
    using False assms
    by (auto simp: setup_resource_def setup_static_def setup_api_def Let_def split_beta split: if_splits sum.splits)
qed

lemma stats_ready_resource:
  assumes "stats_ready sv" and "setup_resource env config ir sv = Inr sv'"
  shows "stats_ready sv'"
  using setup_resource_stats [OF assms(2)] assms(1) fresh_register
  by (cases "sv_stats sv") (auto simp: stats_ready_def register_keys, blast)

lemma main_statistics:
  assumes "main env (Inr (Inr config)) = Inr (ListenAndServe listen sv acl nt heartbeat)"
  shows "stats_ready sv"
proof -
  obtain sv0 where sv0: "go_foreach (setup_resource env config) (enumerate 0 (Resources config)) (new_server config) = Inr sv0"
    and sv: "sv = sv0\<lparr>sv_stats := iface_Start (sv_stats sv0)\<rparr>"
    using assms by (auto simp: main_def elim: start_server_Serve)
  have "stats_ready (new_server config)"
    by (simp add: stats_ready_def new_server_def stream_paths_def fresh_stats_def stats_ok_def NewStatistics_def)
  with stats_ready_resource have "stats_ready sv0"
    by (rule go_foreach_invariant [OF sv0, where I = "\<lambda>todo sv. stats_ready sv", rotated])
  moreover have "stream_paths sv = stream_paths sv0" by (simp add: sv stream_paths_def)
  ultimately show ?thesis
    by (cases "sv_stats sv0") (auto simp: sv stats_ready_def Statistics_Start_def fresh_stats_def stats_ok_def)
qed

section \<open>Properties\<close>

definition clients_of :: "server_sys \<Rightarrow> string \<Rightarrow> nat" where
  "clients_of st p = (case sr_streams st p of None \<Rightarrow> 0 | Some s \<Rightarrow> card (reported_by (sy_pc s)))"

lemma clients_over:
  assumes "dom (sr_streams st) \<subseteq> A" and "finite A"
  shows "clients st = (\<Sum>p \<in> A. clients_of st p)"
proof -
  have "(\<Sum>p \<in> A. clients_of st p) = (\<Sum>p \<in> dom (sr_streams st). clients_of st p)"
    using assms by (intro sum.mono_neutral_right) (auto simp: clients_of_def split: option.splits)
  also have "\<dots> = clients st" unfolding clients_def by (rule sum.cong) (auto simp: clients_of_def)
  finally show ?thesis by simp
qed

lemma counted_connections:
  assumes "stats_inv start0 es lp st" and "server_reachable rate (server_init sv acl nt) st"
  shows "(of_nat (count_list (ops_of p es) OpConnectionAdded) - of_nat (count_list (ops_of p es) OpConnectionRemoved) :: i64)
      = of_nat (clients_of st p)"
proof -
  have ok: "calls_ok es p st" using assms(1) by (simp add: stats_inv_def)
  have "net_connections (ops_of p es) = int (clients_of st p)"
  proof (cases "sr_streams st p")
    case (Some s)
    then obtain str where "reachable Accept Release str acl (view st p s)" using server_view [OF assms(2)] by blast
    from notify_reachable [OF this] show ?thesis
      using ok Some by (simp add: calls_ok_def clients_of_def notify_inv_def view_def)
  qed (use ok in \<open>simp add: calls_ok_def clients_of_def\<close>)
  then have "of_int (net_connections (ops_of p es)) = (of_nat (clients_of st p) :: i64)" by simp
  then show ?thesis by (simp add: net_connections_def)
qed

lemma twin_tick:
  "map_option (map_sum id (\<lambda>st. map_option (\<lambda>lp. Connections (GetGlobalStatistics (lp_stats lp))) (sr_loop st)))
     (server_run (\<lambda>n d. n) (twin_actions @ [AtDelta, AtUpdate 1]) twin_start) = Some (Inr (Some 2))"
  by code_simp

lemma server_run_append:
  "server_run rate (as @ bs) st =
     (case server_run rate as st of None \<Rightarrow> None | Some (Inl p) \<Rightarrow> Some (Inl p) | Some (Inr st') \<Rightarrow> server_run rate bs st')"
  by (induction as arbitrary: st) (simp_all split: option.split sum.split)

lemma server_tick:
  assumes "main env (Inr (Inr config)) = Inr (ListenAndServe listen sv acl nt heartbeat)"
    and "server_reachable rate (server_init sv acl nt) st"
    and "sr_loop st = Some lp" and "lp_delta lp = None"
  shows "\<exists>st' lp'. server_run rate [AtDelta, AtUpdate d] st = Some (Inr st') \<and> sr_loop st' = Some lp'
     \<and> sr_streams st' = sr_streams st
     \<and> (\<forall>p s. sr_streams st p = Some s \<longrightarrow> (\<exists>stats. map_of (st_streams (lp_stats lp')) p = Some stats
          \<and> Connections stats = of_nat (card (reported_by (sy_pc s))) \<and> TotalPacketsSent stats = of_nat (packets_queued s)))
     \<and> Connections (GetGlobalStatistics (lp_stats lp')) = of_nat (clients st)"
proof -
  obtain start0 where start0: "sv_stats sv = RealStatistics start0"
    using dummy_no_loop [OF assms(2)] assms(3) by (cases "sv_stats sv") auto
  then have fresh: "fresh_stats start0" "stream_paths sv \<subseteq> fst ` set (st_streams start0)"
    using main_statistics [OF assms(1)] by (simp_all add: stats_ready_def)
  obtain es where inv: "stats_inv start0 es lp st"
    using stats_inv_reachable [OF assms(2) start0 fresh(1)] assms(3) by (auto simp: stats_inv_def)
  then have loop: "loop_inv start0 es lp" "map fst (st_streams (lp_stats lp)) = map fst (st_streams start0)"
    by (simp_all add: stats_inv_def)
  obtain lp1 lp2 where tick: "stats_step rate TickDelta lp = Inr lp1" "stats_step rate (TickUpdate d) lp1 = Inr lp2"
      "loop_inv start0 (es @ [TickDelta, TickUpdate d]) lp2"
      "map fst (st_streams (lp_stats lp2)) = map fst (st_streams (lp_stats lp))" "counted es lp2"
      "Connections (st_global (lp_stats lp2)) = sum_list (map (Connections \<circ> snd) (st_streams (lp_stats lp2)))"
    using loop(1) assms(4) by (rule tick [where rate = rate and d = d])
  let ?st = "st\<lparr>sr_loop := Some lp2\<rparr>" and ?xs = "st_streams (lp_stats lp2)"
  have dist: "distinct (map fst ?xs)" using tick(3) by (simp add: loop_inv_def stats_ok_def)
  have keys: "dom (sr_streams st) \<subseteq> set (map fst ?xs)"
    using server_paths [OF assms(2)] fresh(2) unfolding tick(4) loop(2) by auto
  have one: "Connections s = of_nat (clients_of st p)" "TotalPacketsSent s = of_nat (count_list (ops_of p es) OpPacketSent)"
    if "map_of ?xs p = Some s" for p s
    using tick(5) that counted_connections [OF inv assms(2), of p] by (simp_all add: counted_def)
  have "map (Connections \<circ> snd) ?xs = map (\<lambda>p. of_nat (clients_of st p)) (map fst ?xs)"
    using one(1) map_of_is_SomeI [OF dist] by auto
  then have "Connections (st_global (lp_stats lp2)) = (\<Sum>p \<in> set (map fst ?xs). of_nat (clients_of st p))"
    unfolding tick(6) by (simp only: sum_list_distinct_conv_sum_set [OF dist])
  then have "Connections (st_global (lp_stats lp2)) = of_nat (clients st)"
    unfolding clients_over [OF keys finite_set] by simp
  moreover have "\<exists>stats. map_of ?xs p = Some stats \<and> Connections stats = of_nat (card (reported_by (sy_pc s)))
      \<and> TotalPacketsSent stats = of_nat (packets_queued s)" if "sr_streams st p = Some s" for p s
  proof -
    have "p \<in> set (map fst ?xs)" using keys that by blast
    then obtain stats where "map_of ?xs p = Some stats" by (metis map_of_eq_None_iff option.exhaust set_map)
    moreover have "calls_ok es p st" using inv by (simp add: stats_inv_def)
    ultimately show ?thesis using one [of p stats] that by (simp add: clients_of_def calls_ok_def)
  qed
  moreover have "server_run rate [AtDelta, AtUpdate d] st = Some (Inr ?st)"
    using tick(1,2) assms(3) by (simp add: stats_action_def)
  ultimately show ?thesis by (intro exI [of _ ?st] exI [of _ lp2]) (simp add: GetGlobalStatistics_def)
qed



end
