(* ===== verification/Server_Safety.thy ===== *)
theory Server_Safety
  imports Server_Statistics
begin

text \<open>
  Calm runs of a server do not panic: the safety of the streamers, the queue and the statistics put together.
\<close>

section \<open>Calm runs of the server\<close>

text \<open>A stream is not inhibited, and is only restarted once the clients of its previous session are gone.\<close>

definition server_calm :: "server_action \<Rightarrow> server_sys \<Rightarrow> bool" where
  "server_calm a st \<longleftrightarrow>
     (case a of
        AtStream p x \<Rightarrow> (case sr_streams st p of None \<Rightarrow> True | Some s \<Rightarrow> calm x s)
      | _ \<Rightarrow> True)"

inductive server_calm_reachable :: "(u64 \<Rightarrow> i64 \<Rightarrow> u64) \<Rightarrow> server_sys \<Rightarrow> server_sys \<Rightarrow> bool" for rate st0 where
  calm_start: "server_calm_reachable rate st0 st0"
| calm_next: "server_calm_reachable rate st0 st \<Longrightarrow> server_calm a st \<Longrightarrow> server_step rate a st = Some (Inr st') \<Longrightarrow>
    server_calm_reachable rate st0 st'"

lemma server_calm_reachable_reachable: "server_calm_reachable rate st0 st \<Longrightarrow> server_reachable rate st0 st"
  by (induction rule: server_calm_reachable.induct) (auto intro: server_reachable.intros)

lemma invariants_view:
  "token_inv (view st p s) = token_inv (s\<lparr>sy_broker := b\<rparr>)" "conn_inv (view st p s) = conn_inv (s\<lparr>sy_broker := b\<rparr>)"
  "safe_inv (s\<lparr>sy_broker := b\<rparr>) = safe_inv s" "calm a (s\<lparr>sy_broker := b\<rparr>) = calm a s"
  by (simp_all add: view_def token_inv_def is_running_def conn_inv_def conn_rel_def live_def safe_inv_def calm_def split: action.split)

definition streams_safe :: "server_sys \<Rightarrow> bool" where
  "streams_safe st \<longleftrightarrow> (\<forall>p s. sr_streams st p = Some s \<longrightarrow> safe_inv s)"

text \<open>All streamers of a program start are idle and have a notifier.\<close>

definition streams_idle :: "server \<Rightarrow> bool" where
  "streams_idle sv \<longleftrightarrow> (\<forall>p str. map_of (sv_routes sv) p = Some (StreamRoute str) \<longrightarrow> str_running str = AtomicFalse \<and> str_events str)"

lemma main_idle:
  "main env (Inr (Inr config)) = Inr (ListenAndServe listen sv acl nt heartbeat) \<Longrightarrow> streams_idle sv"
  using served_streamer(2) main_Serve(1) map_of_SomeD unfolding streams_idle_def by fast

lemma stream_invariants:
  assumes "server_reachable rate (server_init sv acl nt) st" and "streams_idle sv" and "sr_streams st p = Some s"
  shows "token_inv (s\<lparr>sy_broker := b\<rparr>)" "conn_inv (s\<lparr>sy_broker := b\<rparr>)"
proof -
  obtain str where "reachable Accept Release str acl (view st p s)" "str_running str = AtomicFalse"
    using server_view [OF assms(1,3)] assms(2) by (auto simp: streams_idle_def)
  from token_reachable [OF this] conn_reachable [OF this]
  show "token_inv (s\<lparr>sy_broker := b\<rparr>)" "conn_inv (s\<lparr>sy_broker := b\<rparr>)" by (simp_all add: invariants_view(1,2) [of st p s b])
qed

lemma streams_safe_step:
  assumes "streams_safe st" and "server_reachable rate (server_init sv acl nt) st" and "streams_idle sv"
    and "server_calm a st" and "server_step rate a st = Some (Inr st')"
  shows "streams_safe st'"
proof (cases "\<exists>p x. a = AtStream p x")
  case False
  then show ?thesis using other_step [OF assms(5)] assms(1) by (simp add: streams_safe_def)
next
  case True
  then obtain p x where a: "a = AtStream p x" by blast
  with assms(5) have "stream_step p x st = Some (Inr st')" by simp
  then show ?thesis
  proof (cases rule: stream_step_Inr)
    case (1 s s' q)
    have "safe_inv (s\<lparr>sy_broker := sr_acl st\<rparr>)" "calm x (s\<lparr>sy_broker := sr_acl st\<rparr>)"
      using assms(1,4) 1(1) a by (simp_all add: streams_safe_def server_calm_def invariants_view)
    with 1(3) stream_invariants [OF assms(2,3) 1(1)] have "safe_inv s'" by (blast intro: safe_step)
    then show ?thesis using assms(1) 1(5) by (auto simp: streams_safe_def)
  qed
qed

lemma streams_safe_reachable:
  assumes "server_calm_reachable rate (server_init sv acl nt) st" and "streams_idle sv"
  shows "streams_safe st"
  using assms(1)
proof (induction rule: server_calm_reachable.induct)
  case calm_start
  have "safe_inv (sys_init str acl)" if "str_events str" for str
    using that by (simp add: safe_inv_def sys_init_def live_def)
  then show ?case using assms(2) by (auto simp: streams_safe_def streams_idle_def server_init_streams)
next
  case (calm_next st a st')
  then show ?case using streams_safe_step server_calm_reachable_reachable assms(2) by blast
qed

section \<open>The event queue\<close>

text \<open>Every registered handler exists, and the channel is open.\<close>

definition handlers_valid :: "note_handler Queue \<Rightarrow> (nat \<rightharpoonup> UrlHandler) \<Rightarrow> bool" where
  "handlers_valid q store \<longleftrightarrow> (\<forall>t hs h ok. q_handlers q t = Some hs \<longrightarrow> (h, ok) \<in> set hs \<longrightarrow> Option.bind h store \<noteq> None)"

lemma handlers_valid_cong: "q_handlers q' = q_handlers q \<Longrightarrow> handlers_valid q' store = handlers_valid q store"
  by (simp add: handlers_valid_def)

lemma handlers_valid_notifier [simp]: "handlers_valid (q\<lparr>q_notifier := x\<rparr>) store = handlers_valid q store"
  by (rule handlers_valid_cong) simp

definition queue_open :: "server_sys \<Rightarrow> bool" where
  "queue_open st \<longleftrightarrow> handlers_valid (sr_queue st) (sr_store st) \<and> (\<exists>c. q_notifier (sr_queue st) = Some c \<and> \<not> cclosed c)"

lemma calls_of_handle:
  assumes "handlers_valid q store" and "c \<in> set (snd (handle m q))"
  shows "Option.bind (call_handler c) store \<noteq> None"
proof -
  have "Option.bind (call_handler c) store \<noteq> None" if "c \<in> set (notify_handlers t a q)" for t a
    using that assms(1) unfolding handlers_valid_def notify_handlers_def
    by (cases "q_handlers q t") (auto, metis not_None_eq)
  then show ?thesis
    using assms(2) by (auto simp: handle_def handleConnect_def handleHeartbeat_def Let_def split: changeType.splits if_splits)
qed

lemma invoke_all_ok: "\<forall>c \<in> set calls. Option.bind (call_handler c) store \<noteq> None \<Longrightarrow> invoke_all store calls = Inr ()"
  by (induction calls) (auto simp: invoke_all_def invoke_def)

lemma announce_open:
  "q_notifier q = Some c \<Longrightarrow> \<not> cclosed c \<Longrightarrow> announce NotifyConnect ds q \<noteq> Inl x"
proof (induction ds arbitrary: q c)
  case (Cons d ds)
  then show ?case
    by (auto simp: NotifyConnect_def notify_def chan_try_send_def split: option.splits sum.splits if_splits)
qed simp

lemma queue_open_step:
  assumes "queue_open st" and "server_step rate a st = Some (Inr st')"
  shows "queue_open st'"
proof (cases a)
  case (AtStream p x)
  then have "stream_step p x st = Some (Inr st')" using assms(2) by simp
  then show ?thesis
  proof (cases rule: stream_step_Inr)
    case (1 s s' q)
    from 1(4) show ?thesis
      by (cases rule: announce_Inr) (use assms(1) 1(5) in \<open>auto elim!: notify_Inr simp: queue_open_def\<close>)
  qed
next
  case (AtSource p op)
  from assms(2) [unfolded AtSource] show ?thesis
    by (rule AtSource_Inr) (use assms(1) in \<open>simp add: queue_open_def\<close>)
next
  case AtQueue
  from assms(2) [unfolded AtQueue] show ?thesis
  proof (cases rule: AtQueue_Inr)
    case (1 c m ms q' calls)
    then have "handlers_valid q' (sr_store st) = handlers_valid (sr_queue st) (sr_store st)"
      using handle_fields(2) [of m "sr_queue st"] by (intro handlers_valid_cong) simp
    then show ?thesis using assms(1) 1 by (simp add: queue_open_def)
  qed
next
  case (AtHeartbeat now)
  from assms(2) [unfolded AtHeartbeat] show ?thesis
    by (rule AtHeartbeat_Inr) (use assms(1) in \<open>auto elim!: notify_Inr simp: NotifyHeartbeat_def queue_open_def\<close>)
qed (use assms in \<open>auto elim!: stats_action_Inr simp: queue_open_def\<close>)

lemma queue_open_reachable:
  "server_reachable rate st0 st \<Longrightarrow> queue_open st0 \<Longrightarrow> queue_open st"
  by (induction rule: server_reachable.induct) (auto intro: queue_open_step)

section \<open>The queue of a started program\<close>

text \<open>The URLs of the notifications can be parsed.\<close>

definition urls_valid :: "start_env \<Rightarrow> Configuration \<Rightarrow> bool" where
  "urls_valid env config \<longleftrightarrow> (\<forall>nf \<in> set (Notifications config). \<exists>u. en_note_url env (note_Url nf) = Inr u)"

lemma handlers_valid_register:
  assumes "handlers_valid q store" and "store h = Some u"
  shows "handlers_valid (RegisterEventHandler ty (Some h) q) store"
  using assms by (cases "q_handlers q ty") (auto simp: handlers_valid_def RegisterEventHandler_def Let_def split: if_splits, blast)

lemma handlers_valid_store:
  "handlers_valid q store \<Longrightarrow> handlers_valid q (store(i \<mapsto> u))"
  by (fastforce simp: handlers_valid_def bind_eq_None_conv split: if_splits)

lemma notifications_valid:
  assumes "urls_valid env config" and "handlers_valid q Map.empty"
  shows "handlers_valid (ns_queue (setup_notifications env config q)) (ns_store (setup_notifications env config q))"
proof -
  have "handlers_valid (ns_queue (setup_notification env config (i, nf) st)) (ns_store (setup_notification env config (i, nf) st))"
    if "handlers_valid (ns_queue st) (ns_store st)" "en_note_url env (note_Url nf) = Inr u" for i nf st u
    using that by (auto simp: setup_notification_def Let_def NewUrlHandler_def handlers_valid_store handlers_valid_register split: option.splits)
  then have "\<forall>e \<in> set es. \<exists>u. en_note_url env (note_Url (snd e)) = Inr u \<Longrightarrow> handlers_valid (ns_queue st) (ns_store st) \<Longrightarrow>
      handlers_valid (ns_queue (fold (setup_notification env config) es st)) (ns_store (fold (setup_notification env config) es st))" for es st
    by (induction es arbitrary: st) auto
  moreover have "\<forall>e \<in> set (enumerate 0 (Notifications config)). \<exists>u. en_note_url env (note_Url (snd e)) = Inr u"
    using assms(1) by (auto simp: urls_valid_def in_set_enumerate_eq)
  ultimately show ?thesis using assms(2) by (simp add: setup_notifications_def)
qed

lemma main_queue_open:
  assumes "main env (Inr (Inr config)) = Inr (ListenAndServe listen sv acl nt heartbeat)" and "urls_valid env config"
  shows "queue_open (server_init sv acl nt)"
proof -
  obtain q :: "note_handler Queue" and n0 where q: "NewQueue (sint (Configuration.FullConnections config)) = Inr q"
    "n0 = setup_notifications env config q" "nt = n0\<lparr>ns_queue := Start (ns_queue n0)\<rparr>"
    using assms(1) by (auto simp: main_def start_server_def start_queue_def go_bind_Inr_conv Let_def split: if_splits)
  then have w: "waits (sint (Configuration.FullConnections config)) q" and "handlers_valid q Map.empty"
    by (auto simp: NewQueue_def waits_def handlers_valid_def split: if_splits)
  from notifications_valid [OF assms(2) this(2)] have "handlers_valid (ns_queue n0) (ns_store n0)" using q(2) by simp
  moreover have "handlers_valid (Start (ns_queue n0)) = handlers_valid (ns_queue n0)"
    by (rule ext, rule handlers_valid_cong) (simp add: Start_def)
  ultimately show ?thesis
    using waits_notifications [OF w, of env config] q(2,3) by (simp add: queue_open_def server_init_def waits_def Start_def make_chan_def)
qed

section \<open>Properties\<close>

lemma stream_step_safe:
  assumes "streams_safe st" and "queue_open st" and "server_reachable rate (server_init sv acl nt) st" and "streams_idle sv"
    and "server_calm (AtStream p a) st"
  shows "stream_step p a st \<noteq> Some (Inl x)"
proof (cases "sr_streams st p")
  case (Some s)
  then have "sys_step Accept Release a (s\<lparr>sy_broker := sr_acl st\<rparr>) \<noteq> Some (Inl y)" for y
    using assms(1,5) stream_invariants [OF assms(3,4) Some]
    by (intro safe_no_panic) (simp_all add: streams_safe_def server_calm_def invariants_view)
  moreover have "announce NotifyConnect (announced a) (sr_queue st) \<noteq> Inl y" for y
    using assms(2) announce_open by (auto simp: queue_open_def)
  ultimately show ?thesis using Some by (auto simp: stream_step_def split: option.splits sum.splits)
qed (simp add: stream_step_def)

lemma queue_turn_safe:
  assumes "queue_open st"
  shows "server_step rate AtQueue st \<noteq> Some (Inl x)"
proof -
  obtain c where c: "q_notifier (sr_queue st) = Some c" "\<not> cclosed c" "handlers_valid (sr_queue st) (sr_store st)"
    using assms by (auto simp: queue_open_def)
  show ?thesis
  proof (cases "cbuf c")
    case Nil
    then show ?thesis using c by (simp add: run_step_def chan_recv_def)
  next
    case (Cons m ms)
    obtain q' calls where h: "handle m (sr_queue st) = (q', calls)" by (cases "handle m (sr_queue st)")
    then have "invoke_all (sr_store st) calls = Inr ()"
      using calls_of_handle [OF c(3), of _ m] by (intro invoke_all_ok) simp
    then show ?thesis using Cons c(1) h by (simp add: run_step_def chan_recv_def handle_notifier)
  qed
qed


lemma calm_run:
  assumes "server_calm_reachable rate st0 st" and "\<forall>a \<in> set as. \<forall>st. server_calm a st" and "server_run rate as st = Some (Inr st')"
  shows "server_calm_reachable rate st0 st'"
  using assms
proof (induction as arbitrary: st)
  case (Cons a as)
  then obtain st1 where "server_step rate a st = Some (Inr st1)" "server_run rate as st1 = Some (Inr st')"
    by (auto split: option.splits sum.splits)
  then show ?case using Cons.IH [OF calm_next [OF Cons.prems(1)]] Cons.prems(2) by auto
qed simp

definition calm_actions :: "server_action list" where
  "calm_actions = map (AtStream ''/a'') (EatStart 0 # join 0) @ [AtQueue, AtDelta, AtUpdate 1]"

lemma calm_actions_calm: "a \<in> set calm_actions \<Longrightarrow> server_calm a st"
  by (auto simp: calm_actions_def join_def server_calm_def calm_def split: option.split)

lemma calm_value:
  "map_option (map_sum id (\<lambda>st. q_connections (sr_queue st)))
     (server_run (\<lambda>n d. n) (AtStream ''/a'' (StreamCall (input [])) # calm_actions) twin_start) = Some (Inr 1)"
  by code_simp


end
