(* ===== verification/Server_Session.thy ===== *)
theory Server_Session
  imports Server_Safety Stream_Session
begin

text \<open>
  The input of the streams of a running server, as in \<open>Stream_Session\<close>: a history variable collects, for every path,
  the packets that the upstream client of this path puts into the input queues of its streamer.
\<close>

fun server_fed :: "server_action \<Rightarrow> server_sys \<Rightarrow> string \<Rightarrow> bytes list" where
  "server_fed (AtStream q a) st p =
     (if p = q then (case sr_streams st p of None \<Rightarrow> [] | Some s \<Rightarrow> fed_by a s) else [])"
| "server_fed _ st p = []"

inductive server_fed_reachable ::
  "(u64 \<Rightarrow> i64 \<Rightarrow> u64) \<Rightarrow> server_sys \<Rightarrow> server_sys \<Rightarrow> (string \<Rightarrow> bytes list) \<Rightarrow> bool" for rate st0 where
  fed_start: "server_fed_reachable rate st0 st0 (\<lambda>p. [])"
| fed_next: "server_fed_reachable rate st0 st fs \<Longrightarrow> server_step rate a st = Some (Inr st') \<Longrightarrow>
    server_fed_reachable rate st0 st' (\<lambda>p. fs p @ server_fed a st p)"

lemma server_fed_reachable_reachable: "server_fed_reachable rate st0 st fs \<Longrightarrow> server_reachable rate st0 st"
  by (induction rule: server_fed_reachable.induct) (auto intro: server_reachable.intros)

definition inputs_ok :: "server_sys \<Rightarrow> (string \<Rightarrow> bytes list) \<Rightarrow> bool" where
  "inputs_ok st fs \<longleftrightarrow> (\<forall>p s. sr_streams st p = Some s \<longrightarrow> input_inv s (fs p))"

lemma input_inv_broker [simp]:
  "input_inv (s\<lparr>sy_broker := b\<rparr>) ps = input_inv s ps" "fed_by a (s\<lparr>sy_broker := b\<rparr>) = fed_by a s"
  by (simp_all add: input_inv_def waiting_def phases_def) (cases a; simp)

lemma inputs_ok_step:
  assumes "inputs_ok st fs" and "server_reachable rate (server_init sv acl nt) st" and "streams_idle sv"
    and "server_step rate a st = Some (Inr st')"
  shows "inputs_ok st' (\<lambda>p. fs p @ server_fed a st p)"
proof (cases "\<exists>p x. a = AtStream p x")
  case False
  then have "server_fed a st p = []" for p by (cases a) auto
  then show ?thesis using other_step [OF assms(4) False] assms(1) by (simp add: inputs_ok_def)
next
  case True
  then obtain p x where a: "a = AtStream p x" by blast
  with assms(4) have "stream_step p x st = Some (Inr st')" by simp
  then show ?thesis
  proof (cases rule: stream_step_Inr)
    case (1 s s' q)
    have "input_inv (s\<lparr>sy_broker := sr_acl st\<rparr>) (fs p)" using assms(1) 1(1) by (simp add: inputs_ok_def)
    from input_step [OF this stream_invariants(1) [OF assms(2,3) 1(1)] 1(3)]
    have "input_inv s' (fs p @ fed_by x s)" by simp
    then show ?thesis using assms(1) 1(1,5) a by (auto simp: inputs_ok_def)
  qed
qed

lemma inputs_ok_reachable:
  assumes "server_fed_reachable rate (server_init sv acl nt) st fs" and "streams_idle sv"
  shows "inputs_ok st fs"
  using assms(1)
proof (induction rule: server_fed_reachable.induct)
  case fed_start
  show ?case by (auto simp: inputs_ok_def server_init_streams input_inv_def waiting_def phases_def sys_init_def)
next
  case (fed_next st fs a st')
  then show ?case using inputs_ok_step server_fed_reachable_reachable assms(2) by blast
qed

end
