(* ===== verification/Server_Http.thy ===== *)
theory Server_Http
  imports Server_Session
begin

text \<open>
  The HTTP side of a running server: requests that the multiplexer has dispatched to one of the registered handlers.

  The state is that of \<open>Server_System\<close>, the proxies with their caches and the clients, of which the check
  API reads the running flag. The multiplexer is not modelled: a request comes with the pattern it was
  dispatched to. What the environment answers to one request is the record \<open>http_io\<close>: whether the
  body can be written, the name of the handler, what a proxy gets from its upstream and when, the
  answer of the Prometheus library, and the step with which the streamer receives a control request.
\<close>

section \<open>State and steps\<close>

record http_sys =
  hs_server :: server_sys
  hs_routes :: "(string \<times> route) list"
  hs_proxies :: "string \<rightharpoonup> Proxy"
  hs_clients :: "string \<rightharpoonup> bytes list Client"

record http_io =
  io_ok :: bool
  io_handler :: nat
  io_prometheus :: "http_request \<Rightarrow> response \<Rightarrow> response"
  io_reader :: "bytes list io_reader"
  io_now :: int
  io_get :: "(bytes list, io_error) get_result"
  io_done :: int
  io_receive :: action

definition http_init :: "server \<Rightarrow> AccessController \<Rightarrow> note_state \<Rightarrow> http_sys" where
  "http_init sv acl nt =
     \<lparr>hs_server = server_init sv acl nt, hs_routes = sv_routes sv,
      hs_proxies = (\<lambda>p. case map_of (sv_routes sv) p of Some (ProxyRoute proxy) \<Rightarrow> Some proxy | _ \<Rightarrow> None),
      hs_clients = sv_clients sv\<rparr>"

text \<open>All handlers share the statistics with the update loop.\<close>

definition live_statistics :: "server_sys \<Rightarrow> Statistics" where
  "live_statistics st = (case sr_loop st of Some lp \<Rightarrow> RealStatistics (lp_stats lp) | None \<Rightarrow> DummyStatistics)"

text \<open>The response so far of a handler of a stream.\<close>

definition stream_response :: "string \<Rightarrow> nat \<Rightarrow> server_sys \<Rightarrow> response" where
  "stream_response p h st =
     (case Option.bind (sr_streams st p) (\<lambda>s. sy_conns s h) of Some conn \<Rightarrow> conn_writer conn | None \<Rightarrow> new_response)"

definition serve_stream :: "nat \<Rightarrow> string \<Rightarrow> http_request \<Rightarrow> http_sys \<Rightarrow> (response \<times> http_sys) go option" where
  "serve_stream h p request st =
     map_option (map_sum id (\<lambda>s. (stream_response p h s, st\<lparr>hs_server := s\<rparr>)))
       (stream_step p (HttpRequest h request) (hs_server st))"

definition serve_proxy :: "http_io \<Rightarrow> string \<Rightarrow> http_request \<Rightarrow> http_sys \<Rightarrow> (response \<times> http_sys) go option" where
  "serve_proxy io p request st =
     (case hs_proxies st p of
        None \<Rightarrow> None
      | Some proxy \<Rightarrow>
          Some (map_sum id (apsnd (\<lambda>proxy'. st\<lparr>hs_proxies := (hs_proxies st)(p \<mapsto> proxy')\<rparr>))
            (Proxy_ServeHTTP (io_reader io) (io_now io) (io_get io) (io_done io) (io_ok io) request new_response proxy)))"

text \<open>The request of the control API to a streamer is received by its loop or by its command eater.\<close>

fun receives :: "action \<Rightarrow> ConnectionRequest \<Rightarrow> bool" where
  "receives (LoopInhibit i order b) command = (command = SetInhibit b)"
| "receives (EatInhibit b) command = (command = SetInhibit b)"
| "receives _ command = False"

definition serve_control ::
  "action \<Rightarrow> bool \<Rightarrow> string \<Rightarrow> Authenticator \<Rightarrow> http_request \<Rightarrow> http_sys \<Rightarrow> (response \<times> http_sys) go option" where
  "serve_control x ok name auth request st =
     (case streamControl_ServeHTTP ok request new_response (NewStreamControlApi auth) of
        (w, None) \<Rightarrow> Some (Inr (w, st))
      | (w, Some command) \<Rightarrow>
          if receives x command
          then map_option (map_sum id (\<lambda>s. (w, st\<lparr>hs_server := s\<rparr>))) (stream_step name x (hs_server st))
          else None)"

fun serve_route ::
  "http_io \<Rightarrow> string \<Rightarrow> http_request \<Rightarrow> route \<Rightarrow> http_sys \<Rightarrow> (response \<times> http_sys) go option" where
  "serve_route io p request (StreamRoute str) st = serve_stream (io_handler io) p request st"
| "serve_route io p request (ProxyRoute proxy) st = serve_proxy io p request st"
| "serve_route io p request (HealthRoute auth) st =
     Some (Inr (health_ServeHTTP (io_ok io) request new_response (NewHealthApi (live_statistics (hs_server st)) auth), st))"
| "serve_route io p request (StatisticsRoute auth) st =
     Some (Inr (statistics_ServeHTTP (io_ok io) request new_response (NewStatisticsApi (live_statistics (hs_server st)) auth), st))"
| "serve_route io p request (CheckRoute name auth) st =
     map_option (\<lambda>client. Inr (streamState_ServeHTTP (io_ok io) request new_response (NewStreamStateApi client auth), st))
       (hs_clients st name)"
| "serve_route io p request (ControlRoute name auth) st = serve_control (io_receive io) (io_ok io) name auth request st"
| "serve_route io p request (PrometheusRoute auth) st =
     Some (Inr (prometheus_ServeHTTP (io_prometheus io) request new_response (NewPrometheusApi auth), st))"

definition http_request_step ::
  "http_io \<Rightarrow> string \<Rightarrow> http_request \<Rightarrow> http_sys \<Rightarrow> (response \<times> http_sys) go option" where
  "http_request_step io p request st =
     (case map_of (hs_routes st) p of None \<Rightarrow> None | Some rt \<Rightarrow> serve_route io p request rt st)"

text \<open>The running flag of a client is set and cleared by its connection loop.\<close>

definition client_runs :: "string \<Rightarrow> bool \<Rightarrow> http_sys \<Rightarrow> http_sys" where
  "client_runs name b st =
     st\<lparr>hs_clients := (hs_clients st)(name := map_option (\<lambda>c. c\<lparr>cl_running := StoreBool b (cl_running c)\<rparr>) (hs_clients st name))\<rparr>"

inductive http_reachable :: "(u64 \<Rightarrow> i64 \<Rightarrow> u64) \<Rightarrow> http_sys \<Rightarrow> http_sys \<Rightarrow> bool" for rate st0 where
  http_start: "http_reachable rate st0 st0"
| http_server: "http_reachable rate st0 st \<Longrightarrow> server_step rate a (hs_server st) = Some (Inr s) \<Longrightarrow>
    http_reachable rate st0 (st\<lparr>hs_server := s\<rparr>)"
| http_serve: "http_reachable rate st0 st \<Longrightarrow> http_request_step io p request st = Some (Inr (w, st')) \<Longrightarrow>
    http_reachable rate st0 st'"
| http_client: "http_reachable rate st0 st \<Longrightarrow> http_reachable rate st0 (client_runs name b st)"

section \<open>The server below\<close>

lemma serve_stream_Inr:
  assumes "serve_stream h p request st = Some (Inr (w, st'))"
  obtains s where "stream_step p (HttpRequest h request) (hs_server st) = Some (Inr s)"
    "w = stream_response p h s" "st' = st\<lparr>hs_server := s\<rparr>"
  using assms unfolding serve_stream_def
  by (cases "stream_step p (HttpRequest h request) (hs_server st)"; cases "the (stream_step p (HttpRequest h request) (hs_server st))") auto

lemma serve_proxy_Inr:
  assumes "serve_proxy io p request st = Some (Inr (w, st'))"
  obtains proxy proxy' where "hs_proxies st p = Some proxy"
    "Proxy_ServeHTTP (io_reader io) (io_now io) (io_get io) (io_done io) (io_ok io) request new_response proxy = Inr (w, proxy')"
    "st' = st\<lparr>hs_proxies := (hs_proxies st)(p \<mapsto> proxy')\<rparr>"
  using assms unfolding serve_proxy_def
  by (cases "hs_proxies st p"; cases "Proxy_ServeHTTP (io_reader io) (io_now io) (io_get io) (io_done io) (io_ok io) request new_response (the (hs_proxies st p))") auto

lemma serve_control_Inr:
  assumes "serve_control x ok name auth request st = Some (Inr (w, st'))"
  obtains (none) "streamControl_ServeHTTP ok request new_response (NewStreamControlApi auth) = (w, None)" "st' = st"
    | (sent) command s where "streamControl_ServeHTTP ok request new_response (NewStreamControlApi auth) = (w, Some command)"
      "stream_step name x (hs_server st) = Some (Inr s)" "st' = st\<lparr>hs_server := s\<rparr>"
  using assms unfolding serve_control_def
  by (cases "streamControl_ServeHTTP ok request new_response (NewStreamControlApi auth)"; cases "stream_step name x (hs_server st)";
      cases "the (stream_step name x (hs_server st))") (auto split: option.splits if_splits)

text \<open>What a request can do to the state of the server: nothing, or one step of a streamer.\<close>

lemma serve_route_server:
  fixes rate :: "u64 \<Rightarrow> i64 \<Rightarrow> u64"
  assumes "serve_route io p request rt st = Some (Inr (w, st'))"
  shows "(hs_server st' = hs_server st \<or> (\<exists>q x. server_step rate (AtStream q x) (hs_server st) = Some (Inr (hs_server st'))))
     \<and> hs_routes st' = hs_routes st"
proof (cases rt)
  case (StreamRoute str)
  with assms show ?thesis by (auto elim!: serve_stream_Inr)
next
  case (ProxyRoute proxy)
  with assms show ?thesis by (auto elim!: serve_proxy_Inr)
next
  case (ControlRoute name auth)
  with assms show ?thesis by (auto elim!: serve_control_Inr)
qed (use assms in auto)

lemma http_server_reachable:
  assumes "http_reachable rate (http_init sv acl nt) st"
  shows "server_reachable rate (server_init sv acl nt) (hs_server st) \<and> hs_routes st = sv_routes sv"
  using assms
proof (induction rule: http_reachable.induct)
  case http_start
  show ?case by (simp add: http_init_def server_start)
next
  case (http_server st a s)
  then show ?case by (auto intro: server_next)
next
  case (http_serve st io p request w st')
  then obtain rt where "serve_route io p request rt st = Some (Inr (w, st'))"
    by (auto simp: http_request_step_def split: option.splits)
  from serve_route_server [OF this, of rate] http_serve.IH show ?case by (auto intro: server_next simp del: server_step.simps)
next
  case (http_client st name b)
  then show ?case by (simp add: client_runs_def)
qed

section \<open>Authenticators\<close>

fun route_auth :: "route \<Rightarrow> Authenticator" where
  "route_auth (StreamRoute str) = str_auth str"
| "route_auth (ProxyRoute proxy) = px_auth proxy"
| "route_auth (HealthRoute auth) = auth"
| "route_auth (StatisticsRoute auth) = auth"
| "route_auth (CheckRoute name auth) = auth"
| "route_auth (ControlRoute name auth) = auth"
| "route_auth (PrometheusRoute auth) = auth"

text \<open>Every handler has the authenticator of a resource with its path.\<close>

definition auths_ok :: "Configuration \<Rightarrow> server \<Rightarrow> bool" where
  "auths_ok config sv \<longleftrightarrow> (\<forall>p rt. (p, rt) \<in> set (sv_routes sv) \<longrightarrow>
     (\<exists>r \<in> set (Resources config). res_Serve r = p \<and> route_auth rt = NewAuthenticator (res_Authentication r) (UserList config)))"

lemma setup_resource_routes:
  assumes "setup_resource env config ir sv = Inr sv'"
  shows "sv_routes sv' = sv_routes sv
     \<or> (\<exists>rt. sv_routes sv' = sv_routes sv @ [(res_Serve (snd ir), rt)]
          \<and> route_auth rt = NewAuthenticator (res_Authentication (snd ir)) (UserList config))"
proof -
  have m: "sv_routes w = sv_routes v @ [(p, rt)]" if "mux_Handle p rt v = Inr w" for p rt and v w :: server
    using that by (auto simp: mux_Handle_def split: if_splits)
  have px: "px_auth (SetStatistics st proxy) = auth" if "NewProxy parse uri timeout cache auth = Inr proxy" for parse uri timeout cache auth proxy st
    using that by (auto simp: NewProxy_def SetStatistics_def split: sum.splits)
  show ?thesis
    using assms
    by (auto simp: setup_resource_def setup_stream_def setup_static_def setup_api_def Let_def split_beta go_bind_Inr_conv
        setup_streamer_fields px dest!: m split: if_splits sum.splits)
qed

lemma main_auths:
  assumes "main env (Inr (Inr config)) = Inr (ListenAndServe listen sv acl nt heartbeat)"
  shows "auths_ok config sv"
proof -
  obtain sv0 where sv0: "go_foreach (setup_resource env config) (enumerate 0 (Resources config)) (new_server config) = Inr sv0"
    and sv: "sv = sv0\<lparr>sv_stats := iface_Start (sv_stats sv0)\<rparr>"
    using assms by (auto simp: main_def elim: start_server_Serve)
  let ?I = "\<lambda>(todo :: (nat \<times> Resource) list) sv. snd ` set todo \<subseteq> set (Resources config) \<and> auths_ok config sv"
  have "?I [] sv0"
  proof (rule go_foreach_invariant [OF sv0, where I = ?I])
    show "?I (enumerate 0 (Resources config)) (new_server config)"
      by (auto simp: auths_ok_def new_server_def in_set_enumerate_eq)
    show "?I ys v" if "?I (x # ys) u" "setup_resource env config x u = Inr v" for x ys u v
      using that(1) setup_resource_routes [OF that(2)] by (auto simp: auths_ok_def)
  qed
  then show ?thesis by (simp add: sv auths_ok_def)
qed

text \<open>A streamer and a proxy keep their authenticators.\<close>

lemma report_auth [simp]: "str_auth (report op str) = str_auth str"
  by (simp add: report_def)

lemma reachable_auth: "reachable accept release str b s \<Longrightarrow> str_auth (sy_str s) = str_auth str"
proof (induction rule: reachable.induct)
  case init
  show ?case by (simp add: sys_init_def)
next
  case (step s a s')
  have "str_auth (sy_str s') = str_auth (sy_str s)" using step.hyps(2) by (cases a) (auto elim!: step_Inr simp: added_def)
  then show ?case using step.IH by simp
qed

lemma Proxy_ServeHTTP_auth:
  "Proxy_ServeHTTP rd now g done ok request w proxy = Inr (w', proxy') \<Longrightarrow> px_auth proxy' = px_auth proxy"
  by (auto simp: Proxy_ServeHTTP_def go_bind_Inr_conv split: prod.splits bool.splits option.splits if_splits)

definition proxies_ok :: "http_sys \<Rightarrow> bool" where
  "proxies_ok st \<longleftrightarrow> (\<forall>p proxy. hs_proxies st p = Some proxy \<longrightarrow>
     (\<exists>proxy0. map_of (hs_routes st) p = Some (ProxyRoute proxy0) \<and> px_auth proxy = px_auth proxy0))"

lemma serve_route_proxies:
  assumes "serve_route io p request rt st = Some (Inr (w, st'))" and "proxies_ok st"
  shows "proxies_ok st'"
proof (cases rt)
  case (StreamRoute str)
  with assms show ?thesis by (auto elim!: serve_stream_Inr simp: proxies_ok_def)
next
  case (ProxyRoute proxy)
  with assms(1) have "serve_proxy io p request st = Some (Inr (w, st'))" by simp
  then show ?thesis
  proof (cases rule: serve_proxy_Inr)
    case (1 q q')
    then show ?thesis using assms(2) Proxy_ServeHTTP_auth [OF 1(2)] by (auto simp: proxies_ok_def)
  qed
next
  case (ControlRoute name auth)
  with assms show ?thesis by (auto elim!: serve_control_Inr simp: proxies_ok_def)
qed (use assms in auto)

lemma proxies_reachable: "http_reachable rate (http_init sv acl nt) st \<Longrightarrow> proxies_ok st"
proof (induction rule: http_reachable.induct)
  case http_start
  show ?case by (auto simp: proxies_ok_def http_init_def split: option.splits route.splits)
next
  case (http_server st a s)
  then show ?case by (simp add: proxies_ok_def)
next
  case (http_serve st io p request w st')
  then show ?case by (auto simp: http_request_step_def split: option.splits intro: serve_route_proxies)
next
  case (http_client st name b)
  then show ?case by (simp add: proxies_ok_def client_runs_def)
qed

section \<open>Access\<close>

lemma refuse:
  assumes "\<not> authorised auth request" and "rw_sent w = None" and "rw_body w = []"
  shows "\<not> fst (HandleHttpAuthentication auth request w)" "refused (snd (HandleHttpAuthentication auth request w))"
  using auth_refuse [OF assms] by force+

lemma refuse_case:
  assumes "\<not> authorised auth request" and "rw_sent w = None" and "rw_body w = []"
  shows "(case HandleHttpAuthentication auth request w of (False, v) \<Rightarrow> f v | (True, v) \<Rightarrow> g v) = f (snd (HandleHttpAuthentication auth request w))"
  using refuse(1) [OF assms] by (auto split: prod.splits bool.splits)

lemma refuse_api:
  assumes "\<not> authorised auth request"
  shows "refused (health_ServeHTTP ok request new_response (NewHealthApi stats auth))"
    "refused (statistics_ServeHTTP ok request new_response (NewStatisticsApi stats auth))"
    "refused (streamState_ServeHTTP ok request new_response (NewStreamStateApi client auth))"
    "refused (prometheus_ServeHTTP handler request new_response (NewPrometheusApi auth))"
    "snd (streamControl_ServeHTTP ok request new_response (NewStreamControlApi auth)) = None"
    "refused (fst (streamControl_ServeHTTP ok request new_response (NewStreamControlApi auth)))"
  using refuse(2) [OF assms]
  by (simp_all add: health_ServeHTTP_def statistics_ServeHTTP_def streamState_ServeHTTP_def prometheus_ServeHTTP_def
      streamControl_ServeHTTP_def NewHealthApi_def NewStatisticsApi_def NewStreamStateApi_def NewPrometheusApi_def
      NewStreamControlApi_def refuse_case [OF assms])

lemma refuse_proxy:
  assumes "\<not> authorised (px_auth proxy) request"
    and "Proxy_ServeHTTP rd now g done ok request new_response proxy = Inr (w, proxy')"
  shows "refused w \<and> proxy' = proxy"
  using assms(2) refuse(2) [OF assms(1), of new_response] by (auto simp: Proxy_ServeHTTP_def refuse_case [OF assms(1)])

text \<open>The clients, places, reports and loops of all streams are as before.\<close>

definition untouched :: "server_sys \<Rightarrow> server_sys \<Rightarrow> bool" where
  "untouched st st' \<longleftrightarrow> sr_acl st' = sr_acl st \<and> sr_queue st' = sr_queue st \<and> sr_calls st' = sr_calls st \<and> sr_loop st' = sr_loop st
     \<and> places st' = places st \<and> clients st' = clients st
     \<and> (\<forall>q. map_option (\<lambda>s. (sy_str s, sy_threads s, sy_starting s, sy_sent s)) (sr_streams st' q)
          = map_option (\<lambda>s. (sy_str s, sy_threads s, sy_starting s, sy_sent s)) (sr_streams st q))"

lemma untouched_refl: "untouched st st"
  by (simp add: untouched_def)

lemma refuse_stream:
  assumes "stream_step p (HttpRequest h request) st = Some (Inr st')" and "sr_streams st p = Some s"
    and "\<not> authorised (str_auth (sy_str s)) request"
  shows "refused (stream_response p h st') \<and> untouched st st'"
  using assms(1)
proof (cases rule: stream_step_Inr)
  case (1 r s' q)
  let ?w = "snd (HandleHttpAuthentication (str_auth (sy_str s)) request new_response)"
  have r: "r = s" using 1(1) assms(2) by simp
  let ?c = "NewConnection ?w (str_queueSize (sy_str s)) (rq_remote request)"
  have c: "sy_pc s h = None" "conn_writer ?c = ?w" "s' = set_pc h HDone (set_conn h ?c (s\<lparr>sy_broker := sr_acl st\<rparr>))"
    using 1(3) refuse(1) [OF assms(3), of new_response]
    by (auto simp: r do_HttpRequest_def NewConnection_def split: if_splits prod.splits)
  have st': "st' = st\<lparr>sr_streams := (sr_streams st)(p \<mapsto> s')\<rparr>"
    using 1(4,5) c(3) by (cases "sr_loop st") (simp_all add: set_pc_def set_conn_def collect_all_def)
  have h: "held s' = held s" "reported_by (sy_pc s') = reported_by (sy_pc s)"
    using c(1,3) held_none reported_none by (auto simp: set_pc_def set_conn_def)
  have "places st' = places st" "clients st' = clients st"
    unfolding places_def clients_def using assms(2) h by (auto simp: st' intro!: sum.cong)
  moreover have "stream_response p h st' = ?w"
    using c(2,3) by (simp add: stream_response_def st' set_pc_def set_conn_def)
  ultimately show ?thesis
    using refuse(2) [OF assms(3), of new_response] assms(2) c(3)
    by (auto simp: untouched_def st' set_pc_def set_conn_def)
qed

text \<open>
  C6. Access. Whatever the state of the server, a request that none of the authenticators configured for its path
  accepts is refused with status 401 or 403 and an empty body, by streams, static resources and APIs
  alike. It leaves no trace: it takes no place, is not reported, reaches neither a streaming loop nor
  an upstream client, and does not fill a cache.\<close>

theorem http_access:
  assumes "main env (Inr (Inr config)) = Inr (ListenAndServe listen sv acl nt heartbeat)"
    and "http_reachable rate (http_init sv acl nt) st"
    and "http_request_step io p request st = Some (Inr (w, st'))"
    and "\<forall>r \<in> set (Resources config). res_Serve r = p \<longrightarrow>
      \<not> authorised (NewAuthenticator (res_Authentication r) (UserList config)) request"
  shows "refused w \<and> hs_proxies st' = hs_proxies st \<and> hs_clients st' = hs_clients st \<and> untouched (hs_server st) (hs_server st')"
proof -
  note r = http_server_reachable [OF assms(2)]
  obtain rt where rt: "map_of (hs_routes st) p = Some rt" and step: "serve_route io p request rt st = Some (Inr (w, st'))"
    using assms(3) by (auto simp: http_request_step_def split: option.splits)
  then have "(p, rt) \<in> set (sv_routes sv)" using r map_of_SomeD by metis
  then have no: "\<not> authorised (route_auth rt) request"
    using main_auths [OF assms(1)] assms(4) unfolding auths_ok_def by metis
  show ?thesis
  proof (cases rt)
    case (StreamRoute str)
    with step have "serve_stream (io_handler io) p request st = Some (Inr (w, st'))" by simp
    then show ?thesis
    proof (cases rule: serve_stream_Inr)
      case (1 s')
      obtain s where s: "sr_streams (hs_server st) p = Some s" using 1(1) by (auto elim: stream_step_Inr)
      obtain str' where "map_of (sv_routes sv) p = Some (StreamRoute str')" "reachable Accept Release str' acl (view (hs_server st) p s)"
        using server_view [OF conjunct1 [OF r] s] by blast
      then have "str_auth (sy_str s) = str_auth str"
        using reachable_auth [of Accept Release str' acl] rt r StreamRoute by (fastforce simp: view_def)
      with refuse_stream [OF 1(1) s] no StreamRoute 1 show ?thesis by simp
    qed
  next
    case (ProxyRoute proxy)
    with step have "serve_proxy io p request st = Some (Inr (w, st'))" by simp
    then show ?thesis
    proof (cases rule: serve_proxy_Inr)
      case (1 q q')
      have "px_auth q = px_auth proxy"
        using proxies_reachable [OF assms(2)] 1(1) rt ProxyRoute by (force simp: proxies_ok_def)
      with refuse_proxy [OF _ 1(2)] no ProxyRoute 1(1,3) show ?thesis by (auto simp: untouched_refl fun_upd_idem)
    qed
  next
    case (ControlRoute name auth)
    with step have "serve_control (io_receive io) (io_ok io) name auth request st = Some (Inr (w, st'))" by simp
    then show ?thesis
      by (cases rule: serve_control_Inr) (use refuse_api(5,6) [of auth request "io_ok io"] no ControlRoute in \<open>auto simp: untouched_refl\<close>)
  qed (use step no refuse_api in \<open>auto simp: untouched_refl\<close>)
qed

section \<open>What the health API shows\<close>

definition limits_are :: "i64 \<Rightarrow> i64 \<Rightarrow> realStatistics \<Rightarrow> bool" where
  "limits_are maxc full stats \<longleftrightarrow>
     StreamStatistics.MaxConnections (st_global stats) = maxc \<and> StreamStatistics.FullConnections (st_global stats) = full"

lemma limits_collect: "limits_are m f (lp_stats (collect_all p ops lp)) = limits_are m f (lp_stats lp)"
proof -
  have "st_global (fold (collect_at p) ops stats) = st_global stats" for stats
    by (induction ops arbitrary: stats) (simp_all add: collect_at_def)
  then show ?thesis by (simp add: limits_are_def collect_all_def)
qed

lemma limits_update: "update rate d change stats = Inr stats' \<Longrightarrow> limits_are m f stats' = limits_are m f stats"
  by (drule update_Inr) (simp add: limits_are_def Let_def global_sums reset_global_def)

lemma limits_tick:
  assumes "stats_step rate e lp = Inr lp'" and "e = TickDelta \<or> (\<exists>d. e = TickUpdate d)"
  shows "limits_are m f (lp_stats lp') = limits_are m f (lp_stats lp)"
proof (cases "e = TickDelta")
  case True
  then show ?thesis using assms(1) by (cases "lp_delta lp") (auto simp: go_bind_Inr_conv)
next
  case False
  then obtain d where e: "e = TickUpdate d" using assms(2) by blast
  show ?thesis
  proof (cases "lp_delta lp")
    case (Some df)
    then have "update rate d df (lp_stats lp) = Inr (lp_stats lp')" using assms(1) e by (auto simp: go_bind_Inr_conv)
    then show ?thesis by (rule limits_update)
  qed (use assms(1) e in simp)
qed

lemma limits_stats_action:
  assumes "stats_action rate e st = Some (Inr st')" and "e = TickDelta \<or> (\<exists>d. e = TickUpdate d)" and "sr_loop st' = Some lp'"
  shows "\<exists>lp. sr_loop st = Some lp \<and> limits_are m f (lp_stats lp') = limits_are m f (lp_stats lp)"
  using assms(1)
proof (cases rule: stats_action_Inr)
  case (1 lp l)
  then show ?thesis using limits_tick [OF 1(2) assms(2)] assms(3) by simp
qed

lemma limits_step:
  assumes "server_step rate a st = Some (Inr st')" and "sr_loop st' = Some lp'"
  shows "\<exists>lp. sr_loop st = Some lp \<and> limits_are m f (lp_stats lp') = limits_are m f (lp_stats lp)"
proof (cases a)
  case (AtStream p x)
  then have "stream_step p x st = Some (Inr st')" using assms(1) by simp
  then show ?thesis by (rule stream_step_Inr) (use assms(2) in \<open>auto simp: limits_collect\<close>)
next
  case (AtSource p op)
  from assms(1) [unfolded AtSource] show ?thesis by (rule AtSource_Inr) (use assms(2) in \<open>auto simp: limits_collect\<close>)
next
  case AtQueue
  from assms(1) [unfolded AtQueue] show ?thesis by (rule AtQueue_Inr) (use assms(2) in auto)
next
  case (AtHeartbeat now)
  from assms(1) [unfolded AtHeartbeat] show ?thesis by (rule AtHeartbeat_Inr) (use assms(2) in auto)
qed (use assms limits_stats_action in simp_all)

lemma limits_reachable:
  assumes "server_reachable rate (server_init sv acl nt) st" and "sv_stats sv = RealStatistics start0"
  shows "sr_loop st = Some lp \<Longrightarrow> limits_are m f (lp_stats lp) = limits_are m f start0"
  using assms(1)
proof (induction arbitrary: lp rule: server_reachable.induct)
  case server_start
  then show ?case using assms(2) by (auto simp: server_init_def loop_init_def)
next
  case (server_next st a st')
  from limits_step [OF server_next.hyps(2) server_next.prems] server_next.IH show ?case by metis
qed

lemma main_limits:
  assumes "main env (Inr (Inr config)) = Inr (ListenAndServe listen sv acl nt heartbeat)" and "sv_stats sv = RealStatistics start0"
  shows "limits_are (Configuration.MaxConnections config) (Configuration.FullConnections config) start0"
proof -
  let ?ok = "\<lambda>sv. \<forall>stats. sv_stats sv = RealStatistics stats \<longrightarrow>
    limits_are (Configuration.MaxConnections config) (Configuration.FullConnections config) stats"
  obtain sv0 where sv0: "go_foreach (setup_resource env config) (enumerate 0 (Resources config)) (new_server config) = Inr sv0"
    and sv: "sv = sv0\<lparr>sv_stats := iface_Start (sv_stats sv0)\<rparr>"
    using assms(1) by (auto simp: main_def elim: start_server_Serve)
  have "?ok v" if "?ok u" "setup_resource env config x u = Inr v" for u v x
    using that(1) setup_resource_stats [OF that(2)]
    by (cases "sv_stats u") (auto simp: limits_are_def RegisterStream_def)
  moreover have "?ok (new_server config)" by (auto simp: new_server_def limits_are_def NewStatistics_def)
  ultimately have "?ok sv0" by (rule go_foreach_invariant [OF sv0, where I = "\<lambda>todo. ?ok", rotated])
  then show ?thesis using assms(2) sv by (cases "sv_stats sv0") (auto simp: limits_are_def Statistics_Start_def split: if_splits)
qed

lemma sint_of_nat: "int n < 2 ^ 63 \<Longrightarrow> sint (of_nat n :: i64) = int n"
  by (simp add: signed_of_nat signed_take_bit_int_eq_self)

lemma health_reply:
  assumes "authorised auth request"
  obtains js where "status_of (health_ServeHTTP True request new_response (NewHealthApi stats auth)) = Some 200"
    "rw_body (health_ServeHTTP True request new_response (NewHealthApi stats auth)) = bytes_of js"
    "read_object js = Some (health_fields (iface_GetGlobalStatistics stats))"
proof -
  let ?w = "add_header ''Content-Type'' ''application/json'' new_response"
  have "health_ServeHTTP True request new_response (NewHealthApi stats auth)
      = json_reply True (json_Marshal (health_fields (iface_GetGlobalStatistics stats))) ?w"
    using assms by (simp add: health_ServeHTTP_def NewHealthApi_def auth_pass)
  then show ?thesis
    using that json_reply_fields(1,2) [of ?w True] read_json_object [OF plain_health] by simp
qed


section \<open>A server with a protected stream\<close>

definition http_config :: Configuration where
  "http_config = twin_config\<lparr>Resources :=
     [sample_resource_of ''stream'' ''/a'' ''http://a'',
      (sample_resource_of ''stream'' ''/b'' ''http://b'')\<lparr>res_Authentication := no_authentication\<lparr>auth_Type := ''basic'', auth_Realm := ''tv''\<rparr>\<rparr>,
      (sample_resource_of ''api'' ''/h'' [])\<lparr>res_Api := ''health''\<rparr>]\<rparr>"

fun http_started :: "start_result go \<Rightarrow> http_sys option" where
  "http_started (Inr (ListenAndServe l sv acl nt hb)) = Some (http_init sv acl nt)"
| "http_started _ = None"

definition http_start_state :: http_sys where
  "http_start_state = the (http_started (start_server note_env http_config))"

definition example_io :: http_io where
  "example_io = \<lparr>io_ok = True, io_handler = 0, io_prometheus = (\<lambda>request w. w), io_reader = stream_socket_read, io_now = 0,
     io_get = \<lparr>g_reader = None, g_header = Map.empty, g_status = 200, g_length = 0, g_err = None\<rparr>, io_done = 0, io_receive = EatInhibit True\<rparr>"

fun open_health :: "route \<Rightarrow> http_request \<Rightarrow> bool" where
  "open_health (HealthRoute auth) request = authorised auth request"
| "open_health _ request = False"

lemma http_example_started:
  "map_option (\<lambda>st. map_option (\<lambda>rt. open_health rt example_request) (map_of (hs_routes st) ''/h''))
     (http_started (start_server note_env http_config)) = Some (Some True)"
  by code_simp

lemma http_example_main:
  obtains listen sv acl nt hb auth where
    "main note_env (Inr (Inr http_config) :: (unit + Configuration) go) = Inr (ListenAndServe listen sv acl nt hb)"
    and "http_init sv acl nt = http_start_state" and "acl = NewAccessController 3"
    and "map_of (hs_routes http_start_state) ''/h'' = Some (HealthRoute auth)" and "authorised auth example_request"
proof -
  obtain listen sv acl nt hb where r: "start_server note_env http_config = Inr (ListenAndServe listen sv acl nt hb)"
    using http_example_started by (cases "start_server note_env http_config" rule: http_started.cases) auto
  then have st: "http_init sv acl nt = http_start_state" by (simp add: http_start_state_def)
  have m: "main note_env (Inr (Inr http_config) :: (unit + Configuration) go) = Inr (ListenAndServe listen sv acl nt hb)"
    using r by (simp add: main_def)
  have "acl = NewAccessController 3" using main_Serve(3) [OF m] by (simp add: http_config_def)
  moreover obtain rt where rt: "map_of (hs_routes http_start_state) ''/h'' = Some rt" "open_health rt example_request"
    using http_example_started r st by auto
  moreover from rt(2) obtain auth where "rt = HealthRoute auth" "authorised auth example_request" by (cases rt) auto
  ultimately show ?thesis using that m st by blast
qed

lemma http_example_refused:
  "map_option (map_sum id (\<lambda>(w, st). status_of w)) (http_request_step example_io ''/b'' example_request http_start_state) = Some (Inr (Some 401))"
  by code_simp

lemma http_example_protected:
  "\<forall>r \<in> set (Resources http_config). res_Serve r = ''/b'' \<longrightarrow>
     \<not> authorised (NewAuthenticator (res_Authentication r) (UserList http_config)) example_request"
  by code_simp

theorem http_access_witness:
  "\<exists>w st'. http_request_step example_io ''/b'' example_request http_start_state = Some (Inr (w, st'))
     \<and> status_of w = Some 401 \<and> refused w \<and> untouched (hs_server http_start_state) (hs_server st')"
proof -
  obtain listen sv acl nt hb where m: "main note_env (Inr (Inr http_config) :: (unit + Configuration) go) = Inr (ListenAndServe listen sv acl nt hb)"
    "http_init sv acl nt = http_start_state" by (rule http_example_main)
  obtain w st' where w: "http_request_step example_io ''/b'' example_request http_start_state = Some (Inr (w, st'))" "status_of w = Some 401"
    using run_value [OF http_example_refused] by auto
  have "http_reachable (\<lambda>n d. n) (http_init sv acl nt) http_start_state" using http_start m(2) by simp
  from http_access [OF m(1) this w(1) http_example_protected] w show ?thesis by blast
qed

lemma http_server_run:
  "http_reachable rate st0 st \<Longrightarrow> server_run rate as (hs_server st) = Some (Inr s) \<Longrightarrow> http_reachable rate st0 (st\<lparr>hs_server := s\<rparr>)"
proof (induction as arbitrary: st)
  case (Cons a as)
  then obtain s1 where s1: "server_step rate a (hs_server st) = Some (Inr s1)" "server_run rate as s1 = Some (Inr s)"
    by (auto split: option.splits sum.splits)
  from Cons.IH [OF http_server [OF Cons.prems(1) s1(1)]] s1(2) show ?case by simp
qed auto

definition viewer_actions :: "server_action list" where
  "viewer_actions = map (AtStream ''/a'') ([StreamCall (input []), EatStart 0] @ join 0)"

lemma viewer_value:
  "map_option (map_sum id (\<lambda>st. map_option (\<lambda>lp. Option.is_none (lp_delta lp)) (sr_loop st)))
     (server_run (\<lambda>n d. n) viewer_actions (hs_server http_start_state)) = Some (Inr (Some True))"
  by code_simp


end
