(* ===== verification/Server_Upstream.thy ===== *)
theory Server_Upstream
  imports Server_Session
begin

text \<open>
  The upstream clients at work beside the server: the connection loop and \<open>pull\<close> of \<open>streaming/client.go\<close>, step by
  step, with the streamer they feed. A client makes one connection after the other. What a connection does
  (\<open>pull\<close>) is a list of effects, which are carried out one at a time, interleaved with everything else
  that goes on in the server.

  With the first packet of a connection the client makes a queue and starts a goroutine that calls
  \<open>Stream\<close> with it; the call may come much later, even after the connection has ended. It is accepted, and the
  streamer takes the queue over, or it is refused with \<open>ErrAlreadyRunning\<close>, and nobody reads the queue.
  The client does not know, and sends to the queue in any case.
\<close>

section \<open>State\<close>

text \<open>The queue of a connection: not made yet; made, with the call of \<open>Stream\<close> still to come; taken over by
  the streamer; refused.\<close>

datatype feed =
    NoQueue
  | Spawned "bytes chan"
  | Handed
  | Refused "bytes chan"

text \<open>A client with the variables of its connection loop, its connections so far, the effects left of the last one, and the
  queue of each.
  \<open>up_loops\<close> and \<open>up_calls\<close> say which connections the queues of the streamer belong to, those of its
  loops and those of the calls that wait for their start. The history variables \<open>up_taken\<close> (the connections whose call was
  accepted, in this order) and \<open>up_sent\<close> (the packets each connection sent) are not read by a step.\<close>

record 's upstream =
  up_client :: "bytes list Client"
  up_vars :: loop_vars
  up_pulls :: "'s list"
  up_todo :: "pull_effect list"
  up_feeds :: "feed list"
  up_loops :: "nat list"
  up_calls :: "nat list"
  up_taken :: "nat list"
  up_sent :: "bytes list list"

definition new_upstream :: "int \<Rightarrow> bytes list Client \<Rightarrow> 's upstream" where
  "new_upstream now client = \<lparr>up_client = client, up_vars = loop_start now client, up_pulls = [], up_todo = [], up_feeds = [],
     up_loops = [], up_calls = [], up_taken = [], up_sent = []\<rparr>"

record 's up_sys =
  us_server :: server_sys
  us_clients :: "string \<rightharpoonup> 's upstream"

text \<open>The clients are started at the time \<open>now\<close>.\<close>

definition up_init :: "int \<Rightarrow> server \<Rightarrow> AccessController \<Rightarrow> note_state \<Rightarrow> 's up_sys" where
  "up_init now sv acl nt =
     \<lparr>us_server = server_init sv acl nt, us_clients = map_option (new_upstream now) \<circ> sv_clients sv\<rparr>"

text \<open>The network: how sources are read, name resolution and the decoding of queries.\<close>

record 's network =
  nw_reader :: "'s io_reader"
  nw_resolve :: "string \<Rightarrow> io_error + bool"
  nw_unescape :: "string \<Rightarrow> io_error + string"

definition current :: "'s upstream \<Rightarrow> nat" where
  "current u = length (up_pulls u) - 1"

definition set_feed :: "feed \<Rightarrow> 's upstream \<Rightarrow> 's upstream" where
  "set_feed f u = u\<lparr>up_feeds := (up_feeds u)[current u := f]\<rparr>"

definition note_sent :: "bytes list \<Rightarrow> 's upstream \<Rightarrow> 's upstream" where
  "note_sent ps u = u\<lparr>up_sent := (up_sent u)[current u := up_sent u ! current u @ ps]\<rparr>"

fun position :: "'a \<Rightarrow> 'a list \<Rightarrow> nat option" where
  "position x [] = None"
| "position x (y # ys) = (if x = y then Some 0 else map_option Suc (position x ys))"

section \<open>Steps of a client\<close>

text \<open>An operation on the queue of the current connection, \<open>op\<close>. If the streamer has it, this is the step
  \<open>act\<close> of the streamer; a queue that the streamer is done with is closed and empty.\<close>

definition use_queue ::
  "(bytes chan \<Rightarrow> bytes chan option go) \<Rightarrow> (nat \<Rightarrow> action) \<Rightarrow> string \<Rightarrow> server_sys \<Rightarrow> 's upstream
   \<Rightarrow> (server_sys \<times> 's upstream) go option" where
  "use_queue op act p st u =
     (case up_feeds u ! current u of
        NoQueue \<Rightarrow> None
      | Spawned q \<Rightarrow>
          (case op q of
             Inl x \<Rightarrow> Some (Inl x)
           | Inr None \<Rightarrow> None
           | Inr (Some q') \<Rightarrow> Some (Inr (st, set_feed (Spawned q') u)))
      | Refused q \<Rightarrow>
          (case op q of
             Inl x \<Rightarrow> Some (Inl x)
           | Inr None \<Rightarrow> None
           | Inr (Some q') \<Rightarrow> Some (Inr (st, set_feed (Refused q') u)))
      | Handed \<Rightarrow>
          (case (sr_streams st p, position (current u) (up_loops u @ up_calls u)) of
             (Some s, Some i) \<Rightarrow>
               (case Option.bind (input_at i s) (\<lambda>q. case op q of Inl x \<Rightarrow> Some x | Inr r \<Rightarrow> None) of
                  Some x \<Rightarrow> Some (Inl x)
                | None \<Rightarrow> map_option (map_sum id (\<lambda>st'. (st', u))) (stream_step p (act i) st))
           | _ \<Rightarrow> (case op ((make_chan (cl_queueSize (up_client u)))\<lparr>cclosed := True\<rparr>) of Inl x \<Rightarrow> Some (Inl x) | Inr r \<Rightarrow> None)))"

text \<open>The effects of \<open>pull\<close>.\<close>

fun run_effect ::
  "(u64 \<Rightarrow> i64 \<Rightarrow> u64) \<Rightarrow> string \<Rightarrow> pull_effect \<Rightarrow> server_sys \<Rightarrow> 's upstream \<Rightarrow> (server_sys \<times> 's upstream) go option" where
  "run_effect rate p EffSourceConnected st u =
     map_option (map_sum id (\<lambda>st'. (st', u))) (server_step rate (AtSource p OpSourceConnected) st)"
| "run_effect rate p EffStartStream st u = Some (Inr (st, set_feed (Spawned (make_chan (cl_queueSize (up_client u)))) u))"
| "run_effect rate p EffPacketReceived st u =
     map_option (map_sum id (\<lambda>st'. (st', u))) (server_step rate (AtSource p OpPacketReceived) st)"
| "run_effect rate p (EffQueue packet) st u =
     map_option (map_sum id (apsnd (note_sent [packet])))
       (use_queue (chan_try_send packet) (\<lambda>i. InputSend i packet) p st u)"
| "run_effect rate p EffCloseQueue st u =
     use_queue (\<lambda>q. map_sum id Some (chan_close q)) InputClose p st u"
| "run_effect rate p EffSourceDisconnected st u =
     map_option (map_sum id (\<lambda>st'. (st', u))) (server_step rate (AtSource p OpSourceDisconnected) st)"

text \<open>A turn of the connection loop, once the connection before is over: the next URL is tried, and if it can be
  opened, \<open>pull\<close> is called. \<open>open_target\<close> is what opening a target gives at this time.\<close>

definition connect_step ::
  "'s network \<Rightarrow> int \<Rightarrow> int \<Rightarrow> (target \<Rightarrow> io_error + 's \<times> nat option) \<Rightarrow> 's upstream \<Rightarrow> 's upstream go option" where
  "connect_step nw now later open_target u =
     (if up_todo u = []
      then (case loop_turn (up_client u) now later (up_vars u) of
              None \<Rightarrow> None
            | Some (Inl x) \<Rightarrow> Some (Inl x)
            | Some (Inr (sleep, urly, vars)) \<Rightarrow>
                (case start_target (nw_resolve nw) (nw_unescape nw) (cl_interf (up_client u)) urly of
                   Inl err \<Rightarrow> Some (Inr (u\<lparr>up_vars := vars\<rparr>))
                 | Inr target \<Rightarrow>
                     (case open_target target of
                        Inl err \<Rightarrow> Some (Inr (u\<lparr>up_vars := vars\<rparr>))
                      | Inr (src, code) \<Rightarrow>
                          (case pull (nw_reader nw) AtomicTrue src of
                             None \<Rightarrow> None
                           | Some (err, effs, running, src') \<Rightarrow>
                               Some (Inr (u\<lparr>up_vars := vars, up_pulls := up_pulls u @ [src], up_todo := effs,
                                            up_feeds := up_feeds u @ [NoQueue], up_sent := up_sent u @ [[]]\<rparr>))))))
      else None)"

text \<open>The goroutine that was started for connection \<open>k\<close> calls \<open>Stream\<close>.\<close>

definition call_step :: "string \<Rightarrow> nat \<Rightarrow> server_sys \<Rightarrow> 's upstream \<Rightarrow> (server_sys \<times> 's upstream) go option" where
  "call_step p k st u =
     (case sr_streams st p of
        None \<Rightarrow> None
      | Some s \<Rightarrow>
          if k < length (up_feeds u)
          then (case up_feeds u ! k of
                  Spawned q \<Rightarrow>
                    map_option (map_sum id (\<lambda>st'. (st',
                        if fst (CompareAndSwapBool False True (str_running (sy_str s)))
                        then u\<lparr>up_feeds := (up_feeds u)[k := Handed], up_calls := up_calls u @ [k], up_taken := up_taken u @ [k]\<rparr>
                        else u\<lparr>up_feeds := (up_feeds u)[k := Refused q]\<rparr>)))
                      (stream_step p (StreamCall q) st)
                | _ \<Rightarrow> None)
          else None)"

text \<open>Which connection a queue belongs to, when a step of the streamer starts or ends a loop.\<close>

definition started_call :: "nat \<Rightarrow> 's upstream \<Rightarrow> 's upstream" where
  "started_call j u = u\<lparr>up_loops := up_loops u @ [up_calls u ! j], up_calls := remove_nth j (up_calls u)\<rparr>"

fun track :: "action \<Rightarrow> 'b system \<Rightarrow> 's upstream \<Rightarrow> 's upstream" where
  "track (EatStart j) s u = started_call j u"
| "track (LoopStart i j) s u = started_call j u"
| "track (Cleanup i) s u =
     (if map_option th_pc (thread_at i s) = Some (CleaningUp []) then u\<lparr>up_loops := remove_nth i (up_loops u)\<rparr> else u)"
| "track _ s u = u"

section \<open>Steps of the server with its clients\<close>

datatype 's up_action =
    Connect string int int "target \<Rightarrow> io_error + 's \<times> nat option"
  | ClientStep string
  | CallStream string nat
  | Elsewhere server_action

text \<open>The steps of the server that are steps of a client.\<close>

fun client_action :: "server_action \<Rightarrow> bool" where
  "client_action (AtStream p (StreamCall q)) = True"
| "client_action (AtStream p (InputSend i packet)) = True"
| "client_action (AtStream p (InputClose i)) = True"
| "client_action (AtSource p op) = True"
| "client_action _ = False"

fun tracked :: "server_action \<Rightarrow> 's up_sys \<Rightarrow> string \<rightharpoonup> 's upstream" where
  "tracked (AtStream p a) sys =
     (case (sr_streams (us_server sys) p, us_clients sys p) of
        (Some s, Some u) \<Rightarrow> (us_clients sys)(p \<mapsto> track a s u)
      | _ \<Rightarrow> us_clients sys)"
| "tracked _ sys = us_clients sys"

definition with_client ::
  "string \<Rightarrow> 's up_sys \<Rightarrow> ('s upstream \<Rightarrow> (server_sys \<times> 's upstream) go option) \<Rightarrow> 's up_sys go option" where
  "with_client p sys f =
     Option.bind (us_clients sys p) (\<lambda>u. map_option (map_sum id
       (\<lambda>(st', u'). \<lparr>us_server = st', us_clients = (us_clients sys)(p \<mapsto> u')\<rparr>)) (f u))"

fun up_step :: "(u64 \<Rightarrow> i64 \<Rightarrow> u64) \<Rightarrow> 's network \<Rightarrow> 's up_action \<Rightarrow> 's up_sys \<Rightarrow> 's up_sys go option" where
  "up_step rate nw (Connect p now later open_target) sys =
     with_client p sys (\<lambda>u. map_option (map_sum id (Pair (us_server sys))) (connect_step nw now later open_target u))"
| "up_step rate nw (ClientStep p) sys =
     with_client p sys (\<lambda>u.
       case up_todo u of
         [] \<Rightarrow> None
       | e # todo \<Rightarrow> map_option (map_sum id (apsnd (up_todo_update (\<lambda>_. todo)))) (run_effect rate p e (us_server sys) u))"
| "up_step rate nw (CallStream p k) sys = with_client p sys (call_step p k (us_server sys))"
| "up_step rate nw (Elsewhere a) sys =
     (if client_action a then None
      else map_option (map_sum id (\<lambda>st'. \<lparr>us_server = st', us_clients = tracked a sys\<rparr>)) (server_step rate a (us_server sys)))"

inductive up_reachable :: "(u64 \<Rightarrow> i64 \<Rightarrow> u64) \<Rightarrow> 's network \<Rightarrow> 's up_sys \<Rightarrow> 's up_sys \<Rightarrow> bool" for rate nw sys0 where
  up_start: "up_reachable rate nw sys0 sys0"
| up_next: "up_reachable rate nw sys0 sys \<Longrightarrow> up_step rate nw a sys = Some (Inr sys') \<Longrightarrow> up_reachable rate nw sys0 sys'"

fun up_run :: "(u64 \<Rightarrow> i64 \<Rightarrow> u64) \<Rightarrow> 's network \<Rightarrow> 's up_action list \<Rightarrow> 's up_sys \<Rightarrow> 's up_sys go option" where
  "up_run rate nw [] sys = Some (Inr sys)"
| "up_run rate nw (a # as) sys =
     (case up_step rate nw a sys of
        None \<Rightarrow> None
      | Some (Inl x) \<Rightarrow> Some (Inl x)
      | Some (Inr sys') \<Rightarrow> up_run rate nw as sys')"

lemma map_go_Inr: "map_option (map_sum id f) r = Some (Inr y) \<longleftrightarrow> (\<exists>x. r = Some (Inr x) \<and> y = f x)"
  by (cases r; cases "the r") auto

lemma map_go_Inl: "map_option (map_sum id f) r = Some (Inl x) \<longleftrightarrow> r = Some (Inl x)"
  by (cases r; cases "the r") auto

section \<open>The effects of a connection\<close>

text \<open>What is left of the effects while the queue is open.\<close>

fun feeding :: "pull_effect list \<Rightarrow> bool" where
  "feeding (EffPacketReceived # effs) = feeding effs"
| "feeding (EffQueue packet # effs) = feeding effs"
| "feeding (EffCloseQueue # effs) \<longleftrightarrow> effs = [EffSourceDisconnected]"
| "feeding _ = False"

definition queued_in :: "pull_effect list \<Rightarrow> bytes list" where
  "queued_in effs = [p. EffQueue p \<leftarrow> effs]"

lemma queued_in_simps [simp]:
  "queued_in [] = []" "queued_in (EffQueue p # effs) = p # queued_in effs"
  "queued_in (EffSourceConnected # effs) = queued_in effs" "queued_in (EffStartStream # effs) = queued_in effs"
  "queued_in (EffPacketReceived # effs) = queued_in effs" "queued_in (EffCloseQueue # effs) = queued_in effs"
  "queued_in (EffSourceDisconnected # effs) = queued_in effs"
  by (simp_all add: queued_in_def)

lemma forwarded_one:
  "forwarded on (p # ps) =
     (if on then [] else [EffSourceConnected, EffStartStream]) @ [EffPacketReceived, EffQueue p] @ forwarded True ps"
  by (simp add: forwarded_def)

text \<open>A \<open>pull\<close> that returns has forwarded some packets, whatever the reader does.\<close>

definition forwards :: "bool \<Rightarrow> pull_effect list \<Rightarrow> io_error \<times> bool \<times> pull_effect list \<times> 's \<Rightarrow> bool" where
  "forwards on effs r \<longleftrightarrow>
     (\<exists>ps. fst (snd (snd r)) = effs @ forwarded on ps \<and> fst (snd r) = (on \<or> ps \<noteq> []))"

lemma forwards_here: "forwards on effs (err, on, effs, s')"
  unfolding forwards_def by (rule exI [of _ "[]"]) (simp add: forwarded_def)

lemma forwards_packet:
  assumes "forwards True (effs @ (if on then [] else [EffSourceConnected, EffStartStream]) @ [EffPacketReceived, EffQueue p]) r"
  shows "forwards on effs r"
proof -
  from assms obtain ps where "fst (snd (snd r)) = effs @ forwarded on (p # ps) \<and> fst (snd r)"
    by (auto simp: forwards_def forwarded_one)
  then show ?thesis unfolding forwards_def by (intro exI [of _ "p # ps"]) simp
qed

lemma pull_loop_forwards:
  assumes "pull_loop rd on effs s = Some r"
  shows "forwards on effs r"
proof (rule pull_loop.raw_induct [where P = "\<lambda>rd on effs s r. forwards on effs r", OF _ assms], goal_cases)
  case (1 pull_loop rd on effs s r)
  show ?case
  proof (cases "\<exists>p s'. ReadMpegTsPacket rd s = Some (Inr (Some p), s')")
    case True
    then obtain p s' where "ReadMpegTsPacket rd s = Some (Inr (Some p), s')" by blast
    with 1(2) show ?thesis by (intro forwards_packet [OF 1(1)]) simp
  next
    case False
    with 1 show ?thesis by (auto split: option.splits prod.splits sum.splits intro: forwards_here)
  qed
qed

text \<open>The effects of a whole connection: nothing, or a report, the start of the stream, and the packets up to
  the end.\<close>

lemma feeding_forwarded: "feeding (forwarded True ps @ [EffCloseQueue, EffSourceDisconnected])"
  by (induction ps) (simp_all add: forwarded_def)

lemma pull_effects:
  assumes "pull rd AtomicTrue s = Some (err, effs, running, s')"
  shows "effs = [] \<or> (\<exists>r. feeding r \<and> effs = EffSourceConnected # EffStartStream # r)"
proof -
  obtain e on effs0 where "pull_loop rd False [] s = Some (e, on, effs0, s')"
    and effs: "effs = effs0 @ (if on then [EffCloseQueue, EffSourceDisconnected] else [])"
    using assms by (auto simp: pull_def split: option.splits)
  from pull_loop_forwards [OF this(1)] obtain ps where ps: "effs0 = forwarded False ps" "on = (ps \<noteq> [])"
    by (auto simp: forwards_def)
  show ?thesis
  proof (cases ps)
    case Nil
    then show ?thesis using ps effs by (simp add: forwarded_def)
  next
    case (Cons p qs)
    then show ?thesis using ps effs feeding_forwarded [of qs] by (simp add: forwarded_one)
  qed
qed

lemma queued_effects: "pull rd AtomicTrue s = Some (err, effs, running, s') \<Longrightarrow> queued rd s = queued_in effs"
  by (simp add: queued_def queued_in_def)

end
