(* ===== verification/Upstream_Feeding.thy ===== *)
theory Upstream_Feeding
  imports Server_Upstream
begin

text \<open>
  The server with its upstream clients refines the server whose streams are fed from outside: what a stream is fed
  with are the packets of the connections whose call of \<open>Stream\<close> it accepted, one connection after the other. The
  invariant has a part for the client, a part that ties its queues to the streamer, and a lemma for each
  kind of step.
\<close>

section \<open>The connections and their queues\<close>

text \<open>The invariant of a client, without the streamer: the packets a connection has sent and those it
  still has to send are the packets that \<open>pull\<close> queues; a queue that was not handed over holds what was sent;
  the effects fit the queue.\<close>

fun feed_ok :: "feed \<Rightarrow> bytes list \<Rightarrow> bool" where
  "feed_ok NoQueue ps \<longleftrightarrow> ps = []"
| "feed_ok (Spawned q) ps \<longleftrightarrow> cbuf q = ps"
| "feed_ok _ ps \<longleftrightarrow> True"

fun open_feed :: "feed \<Rightarrow> bool" where
  "open_feed (Spawned q) \<longleftrightarrow> \<not> cclosed q"
| "open_feed (Refused q) \<longleftrightarrow> \<not> cclosed q"
| "open_feed Handed \<longleftrightarrow> True"
| "open_feed NoQueue \<longleftrightarrow> False"

definition todo_ok :: "feed \<Rightarrow> pull_effect list \<Rightarrow> bool" where
  "todo_ok f todo \<longleftrightarrow> todo = [] \<or> todo = [EffSourceDisconnected]
     \<or> f = NoQueue \<and> (\<exists>r. feeding r \<and> (todo = EffSourceConnected # EffStartStream # r \<or> todo = EffStartStream # r))
     \<or> feeding todo \<and> open_feed f"

definition sent_ok :: "'s io_reader \<Rightarrow> 's upstream \<Rightarrow> bool" where
  "sent_ok rd u \<longleftrightarrow> (\<forall>k < length (up_pulls u).
     up_sent u ! k @ (if k = current u then queued_in (up_todo u) else []) = queued rd (up_pulls u ! k)
     \<and> feed_ok (up_feeds u ! k) (up_sent u ! k))"

definition taken_ok :: "'s upstream \<Rightarrow> bool" where
  "taken_ok u \<longleftrightarrow> distinct (up_taken u)
     \<and> (\<forall>k \<in> set (up_taken u). k < length (up_pulls u) \<and> up_feeds u ! k = Handed)
     \<and> (feeding (up_todo u) \<and> up_feeds u ! current u = Handed \<longrightarrow> up_taken u \<noteq> [] \<and> last (up_taken u) = current u)"

definition client_inv :: "'s io_reader \<Rightarrow> 's upstream \<Rightarrow> bool" where
  "client_inv rd u \<longleftrightarrow> length (up_feeds u) = length (up_pulls u) \<and> length (up_sent u) = length (up_pulls u)
     \<and> sent_ok rd u \<and> taken_ok u
     \<and> (if up_pulls u = [] then up_todo u = [] else todo_ok (up_feeds u ! current u) (up_todo u))"

text \<open>The invariant that ties it to the streamer: the queues of the streamer are those of accepted connections, and the
  queue of a connection that still sends is there and open.\<close>

definition queues :: "'b system \<Rightarrow> 's upstream \<Rightarrow> (nat \<times> bytes chan) set" where
  "queues s u = set (zip (up_loops u) (map th_queue (sy_threads s))) \<union> set (zip (up_calls u) (sy_starting s))"

definition link_inv :: "'b system \<Rightarrow> 's upstream \<Rightarrow> bool" where
  "link_inv s u \<longleftrightarrow> length (up_loops u) = length (sy_threads s) \<and> length (up_calls u) = length (sy_starting s)
     \<and> distinct (up_loops u @ up_calls u) \<and> set (up_loops u @ up_calls u) \<subseteq> set (up_taken u)
     \<and> (feeding (up_todo u) \<and> up_feeds u ! current u = Handed \<longrightarrow> (\<exists>q. (current u, q) \<in> queues s u \<and> \<not> cclosed q))"

text \<open>The packets that the streamer got from its client.\<close>

definition handed_over :: "'s upstream \<Rightarrow> bytes list" where
  "handed_over u = concat (map ((!) (up_sent u)) (up_taken u))"

lemma link_inv_broker [simp]: "link_inv (s\<lparr>sy_broker := b\<rparr>) u = link_inv s u"
  by (simp add: link_inv_def queues_def)

lemma input_at_broker [simp]: "input_at i (s\<lparr>sy_broker := b\<rparr>) = input_at i s"
  by (simp add: input_at_def thread_at_def Let_def)

lemma position_Some: "x \<in> set xs \<Longrightarrow> \<exists>i. position x xs = Some i \<and> i < length xs \<and> xs ! i = x"
  by (induction xs) auto

lemma zip_position:
  assumes "distinct xs" and "length xs = length ys" and "(x, y) \<in> set (zip xs ys)"
  shows "\<exists>i. position x xs = Some i \<and> i < length xs \<and> ys ! i = y"
proof -
  obtain i where i: "i < length xs" "xs ! i = x" "ys ! i = y" using assms(2,3) by (auto simp: set_zip)
  obtain j where j: "position x xs = Some j" "j < length xs" "xs ! j = x"
    using position_Some [of x xs] i by auto
  then have "i = j" using i assms(1) by (metis nth_eq_iff_index_eq)
  then show ?thesis using i j by auto
qed

lemma input_at_nth:
  assumes "i < length (sy_threads s) + length (sy_starting s)"
  shows "\<exists>q. input_at i s = Some q \<and> cclosed q = cclosed ((map th_queue (sy_threads s) @ sy_starting s) ! i)"
proof (cases "i < length (sy_threads s)")
  case True
  then show ?thesis by (simp add: input_at_def thread_at_def nth_append)
next
  case False
  then have "i - length (sy_threads s) < length (sy_starting s)" using assms by linarith
  then show ?thesis using False by (simp add: input_at_def thread_at_def nth_append)
qed

lemma queue_position:
  assumes "link_inv s u" and "(k, q) \<in> queues s u"
  shows "\<exists>i q'. position k (up_loops u @ up_calls u) = Some i \<and> input_at i s = Some q' \<and> cclosed q' = cclosed q"
proof -
  let ?ids = "up_loops u @ up_calls u" and ?qs = "map th_queue (sy_threads s) @ sy_starting s"
  have l: "length (up_loops u) = length (sy_threads s)" "length (up_calls u) = length (sy_starting s)" "distinct ?ids"
    using assms(1) by (simp_all add: link_inv_def)
  then have "(k, q) \<in> set (zip ?ids ?qs)" using assms(2) by (simp add: queues_def)
  from zip_position [OF l(3) _ this] obtain i where i: "position k ?ids = Some i" "i < length ?ids" "?qs ! i = q"
    using l(1,2) by auto
  then have "\<exists>q'. input_at i s = Some q' \<and> cclosed q' = cclosed q" using input_at_nth [of i s] l(1,2) by simp
  then show ?thesis using i(1) by blast
qed

text \<open>An update of the clients' data that no part of the invariant looks at.\<close>

lemma link_inv_same:
  "link_inv s u \<Longrightarrow> map th_queue (sy_threads s') = map th_queue (sy_threads s) \<Longrightarrow> sy_starting s' = sy_starting s \<Longrightarrow> link_inv s' u"
  using map_eq_imp_length_eq [of th_queue "sy_threads s'" th_queue "sy_threads s"] by (simp add: link_inv_def queues_def)

section \<open>Steps of the streamer\<close>

lemma phases_queues: "phases s' = phases s \<Longrightarrow> map th_queue (sy_threads s') = map th_queue (sy_threads s)"
proof -
  assume "phases s' = phases s"
  then have "map fst (phases s') = map fst (phases s)" by simp
  then show ?thesis by (simp add: phases_def phase_def comp_def)
qed

text \<open>With an input queue open, its loop reads it.\<close>

lemma open_loop:
  assumes "input_inv s ps" and "token_inv s" and "thread_at i s = Some th" and "\<not> looping th"
  shows "cclosed (th_queue th)"
  using assms one_thread(2) [OF assms(2,3)] by (simp add: input_inv_def phase_def)

lemma link_start:
  assumes "link_inv s u" and "sy_threads s = []" and "sy_starting s = [q]"
    and "sy_threads s' = [new_thread q]" and "sy_starting s' = []"
  shows "link_inv s' (started_call 0 u)"
proof -
  obtain k where "up_loops u = []" "up_calls u = [k]"
    using assms(1-3) by (auto simp: link_inv_def length_Suc_conv)
  then show ?thesis using assms
    by (auto simp: link_inv_def started_call_def remove_nth_def queues_def new_thread_def current_def)
qed

lemma link_track:
  assumes link: "link_inv s u" and inp: "input_inv s ps" and tok: "token_inv s"
    and step: "sys_step accept release a s = Some (Inr s')" and own: "\<not> client_action (AtStream p a)"
  shows "link_inv s' (track a s u)"
proof (cases "inner_step a")
  case True
  then have "track a s u = u" by (cases a) auto
  then show ?thesis
    using link_inv_same [OF link phases_queues] inner_step_inputs [OF step True] by simp
next
  case False
  then consider j where "a = EatStart j" | i j where "a = LoopStart i j" | i order where "a = LoopPacket i order"
    | i order where "a = LoopClosed i order" | i where "a = Cleanup i"
    using own by (cases a) auto
  then show ?thesis
  proof cases
    case (1 j)
    with step have st: "do_EatStart j s = Some (Inr s')" by simp
    then show ?thesis
    proof (cases rule: do_EatStart_Inr)
      case e: 1
      obtain q where q: "j = 0" "sy_starting s = [q]" using one_starting [OF tok e(2) refl] by blast
      note none = token_eater(1) [OF tok e(1)]
      have "link_inv s' (started_call 0 u)"
        by (rule link_start [OF link none q(2)]) (simp_all add: e(3) q none remove_nth_def)
      then show ?thesis using 1 q(1) by simp
    qed
  next
    case (2 i j)
    then obtain th where "thread_at i s = Some th" "th_pc th = InLoop" "j < length (sy_starting s)"
      using step by (auto elim: do_LoopStart_Inr)
    then show ?thesis using one_thread(3) [OF tok] by (simp add: looping_def)
  next
    case (3 i order)
    with step have "do_LoopPacket i order s = Some (Inr s')" by simp
    then show ?thesis
    proof (cases rule: do_LoopPacket_Inr)
      case l: (1 th packet q)
      note one = one_thread [OF tok l(1)]
      have "cclosed q = cclosed (th_queue th)" using l(5) by (auto simp: chan_recv_def split: list.splits if_splits)
      then show ?thesis using link 3 l(6) one by (auto simp: link_inv_def queues_def length_Suc_conv)
    qed
  next
    case (4 i order)
    with step obtain th q where l: "thread_at i s = Some th" "th_pc th = InLoop" "chan_recv (th_queue th) = Some (None, q)"
      "sy_threads s' = (sy_threads s)[i := th\<lparr>th_queue := q, th_pc := CleaningUp order\<rparr>]" "sy_starting s' = sy_starting s"
      by (auto simp: do_LoopClosed_def split: option.splits if_splits)
    note one = one_thread [OF tok l(1)]
    have "cclosed q = cclosed (th_queue th)" using l(3) by (auto simp: chan_recv_def split: list.splits if_splits)
    then show ?thesis using link 4 l one by (auto simp: link_inv_def queues_def length_Suc_conv)
  next
    case (5 i)
    with step have "do_Cleanup i s = Some (Inr s')" by simp
    then show ?thesis
    proof (cases rule: do_Cleanup_Inr)
      case (close th c todo conn)
      note one = one_thread [OF tok close(1)]
      from link_inv_same [OF link, of s'] show ?thesis using close one 5 by simp
    next
      case (finished th)
      note one = one_thread [OF tok finished(1)]
      have "cclosed (th_queue th)" using open_loop [OF inp tok finished(1)] finished(2) by (simp add: looping_def)
      then show ?thesis using link 5 finished one by (auto simp: link_inv_def queues_def length_Suc_conv remove_nth_def current_def)
    qed
  qed
qed

section \<open>Steps of a client\<close>

lemma update_ids [simp]:
  "up_feeds u ! current u = f \<Longrightarrow> set_feed f u = u" "note_sent [] u = u"
  by (auto simp: set_feed_def note_sent_def)

text \<open>One effect: it may change the queue of the current connection and send packets.\<close>

lemma client_update:
  assumes inv: "client_inv rd u" and todo: "up_todo u = e # todo" and q: "queued_in (e # todo) = ps @ queued_in todo"
    and f: "feed_ok f (up_sent u ! current u @ ps)" "f = Handed \<longleftrightarrow> up_feeds u ! current u = Handed" "todo_ok f todo"
    and feeding: "f = Handed \<Longrightarrow> ps \<noteq> [] \<or> feeding todo \<Longrightarrow> feeding (e # todo)"
  shows "client_inv rd ((note_sent ps (set_feed f u))\<lparr>up_todo := todo\<rparr>)"
    and "handed_over ((note_sent ps (set_feed f u))\<lparr>up_todo := todo\<rparr>) = handed_over u @ (if f = Handed then ps else [])"
proof -
  let ?u = "(note_sent ps (set_feed f u))\<lparr>up_todo := todo\<rparr>" and ?c = "current u"
  have len: "length (up_feeds u) = length (up_pulls u)" "length (up_sent u) = length (up_pulls u)"
    and sent: "sent_ok rd u" and taken: "taken_ok u" and c: "?c < length (up_pulls u)"
    using inv todo by (auto simp: client_inv_def current_def split: if_splits)
  have eqs: "up_pulls ?u = up_pulls u" "up_taken ?u = up_taken u" "up_todo ?u = todo" "current ?u = ?c"
    "up_feeds ?u = (up_feeds u)[?c := f]" "up_sent ?u = (up_sent u)[?c := up_sent u ! ?c @ ps]"
    by (simp_all add: note_sent_def set_feed_def current_def)
  have "sent_ok rd ?u"
    using sent c len q todo f(1) unfolding sent_ok_def eqs by (auto simp: nth_list_update)
  moreover have last: "up_taken u \<noteq> [] \<and> last (up_taken u) = ?c" if "f = Handed" "ps \<noteq> [] \<or> feeding todo"
    using taken feeding [OF that] that(1) f(2) todo by (simp add: taken_ok_def)
  moreover have "up_feeds u ! k = Handed \<Longrightarrow> k < length (up_pulls u) \<Longrightarrow> (up_feeds u)[?c := f] ! k = Handed" for k
    using f(2) len(1) by (cases "k = ?c") auto
  then have "taken_ok ?u" using taken last c len(1) unfolding taken_ok_def eqs by auto
  ultimately show "client_inv rd ?u" using f(3) c len unfolding client_inv_def eqs by auto
  show "handed_over ?u = handed_over u @ (if f = Handed then ps else [])"
  proof (cases "f = Handed \<and> ps \<noteq> []")
    case True
    then obtain ks where ks: "up_taken u = ks @ [?c]" using last by (metis append_butlast_last_id)
    moreover have "?c \<notin> set ks" using taken ks by (simp add: taken_ok_def)
    then have "map ((!) ((up_sent u)[?c := up_sent u ! ?c @ ps])) ks = map ((!) (up_sent u)) ks"
      by (intro map_cong) (auto intro!: nth_list_update_neq)
    ultimately have "concat (map ((!) ((up_sent u)[?c := up_sent u ! ?c @ ps])) ks) = concat (map ((!) (up_sent u)) ks)" by metis
    then show ?thesis using ks True c len(2) unfolding handed_over_def eqs by simp
  next
    case False
    then have "map ((!) ((up_sent u)[?c := up_sent u ! ?c @ ps])) (up_taken u) = map ((!) (up_sent u)) (up_taken u)"
      using taken f(2) c len(2) by (cases "ps = []") (auto simp: taken_ok_def nth_list_update)
    then show ?thesis using False unfolding handed_over_def eqs by (auto simp del: map_eq_conv)
  qed
qed

text \<open>A client without a stream to feed, or whose next effect does not concern the queue of the streamer.\<close>

lemma link_update:
  assumes "link_inv s u" and "f = Handed \<Longrightarrow> feeding todo \<Longrightarrow> up_feeds u ! current u = Handed \<and> feeding (up_todo u)"
    and "client_inv rd u" and "up_todo u \<noteq> []"
  shows "link_inv s ((note_sent ps (set_feed f u))\<lparr>up_todo := todo\<rparr>)"
proof -
  have "current u < length (up_feeds u)" using assms(3,4) by (auto simp: client_inv_def current_def split: if_splits)
  then show ?thesis using assms(1,2) by (auto simp: link_inv_def queues_def note_sent_def set_feed_def current_def)
qed

lemma position_nth: "position x xs = Some i \<Longrightarrow> i < length xs \<and> xs ! i = x"
  by (induction xs arbitrary: i) (auto split: if_splits)

lemma link_input:
  assumes "link_inv s u" and "position k (up_loops u @ up_calls u) = Some i" and "input_at i s = Some q"
  shows "(k, q') \<in> queues (set_input i q' s) u"
    and "length (sy_threads (set_input i q' s)) = length (sy_threads s)" "length (sy_starting (set_input i q' s)) = length (sy_starting s)"
proof -
  have l: "length (up_loops u) = length (sy_threads s)" "length (up_calls u) = length (sy_starting s)"
    using assms(1) by (simp_all add: link_inv_def)
  note i = position_nth [OF assms(2)]
  from assms(3) have "(k, q') \<in> queues (set_input i q' s) u \<and> length (sy_threads (set_input i q' s)) = length (sy_threads s)
      \<and> length (sy_starting (set_input i q' s)) = length (sy_starting s)"
  proof (cases rule: input_at_cases)
    case (loop th)
    then have "i < length (sy_threads s)" by (simp add: thread_at_def split: if_splits)
    then have "(k, q') \<in> set (zip (up_loops u) (map th_queue ((sy_threads s)[i := th\<lparr>th_queue := q'\<rparr>])))"
      using i l(1) by (auto simp: set_zip nth_append intro!: exI [of _ i])
    then show ?thesis by (simp add: loop(3) queues_def)
  next
    case (call j)
    then have "(k, q') \<in> set (zip (up_calls u) ((sy_starting s)[j := q']))"
      using i l by (auto simp: set_zip nth_append intro!: exI [of _ j])
    then show ?thesis by (simp add: call(5) queues_def)
  qed
  then show "(k, q') \<in> queues (set_input i q' s) u" "length (sy_threads (set_input i q' s)) = length (sy_threads s)"
    "length (sy_starting (set_input i q' s)) = length (sy_starting s)" by simp_all
qed

text \<open>What a step of the client of path \<open>p\<close> does: a step of its own, or a step of the server that feeds the
  stream at \<open>p\<close> with what the client notes as handed over.\<close>

inductive client_moves ::
  "(u64 \<Rightarrow> i64 \<Rightarrow> u64) \<Rightarrow> string \<Rightarrow> server_sys \<Rightarrow> 's upstream \<Rightarrow> server_sys \<Rightarrow> 's upstream \<Rightarrow> bool" for rate p st u where
  alone: "handed_over u' = handed_over u \<Longrightarrow> (\<And>s :: AccessController system. link_inv s u \<Longrightarrow> link_inv s u') \<Longrightarrow> client_moves rate p st u st u'"
| with_server: "server_step rate a st = Some (Inr st') \<Longrightarrow> (\<And>q. q \<noteq> p \<Longrightarrow> sr_streams st' q = sr_streams st q) \<Longrightarrow>
    handed_over u' = handed_over u @ server_fed a st p \<Longrightarrow> (\<And>q. q \<noteq> p \<Longrightarrow> server_fed a st q = []) \<Longrightarrow>
    (\<And>s'. sr_streams st' p = Some s' \<Longrightarrow> link_inv s' u') \<Longrightarrow> client_moves rate p st u st' u'"

lemma vars_simps [simp]:
  "client_inv rd (u\<lparr>up_vars := v\<rparr>) = client_inv rd u" "handed_over (u\<lparr>up_vars := v\<rparr>) = handed_over u"
  "link_inv s (u\<lparr>up_vars := v\<rparr>) = link_inv s u"
  by (simp_all add: client_inv_def sent_ok_def taken_ok_def current_def handed_over_def link_inv_def queues_def)

lemma connect_step_Inr:
  assumes "connect_step nw now later open_target u = Some (Inr u')"
  obtains (failed) v where "u' = u\<lparr>up_vars := v\<rparr>"
    | (pulled) v src err effs running src' where "pull (nw_reader nw) AtomicTrue src = Some (err, effs, running, src')" "up_todo u = []"
      "u' = u\<lparr>up_vars := v, up_pulls := up_pulls u @ [src], up_todo := effs, up_feeds := up_feeds u @ [NoQueue], up_sent := up_sent u @ [[]]\<rparr>"
  using assms by (auto simp: connect_step_def split: if_splits option.splits sum.splits)

lemma connect_moves:
  assumes inv: "client_inv (nw_reader nw) u" and step: "connect_step nw now later open_target u = Some (Inr u')"
  shows "client_inv (nw_reader nw) u' \<and> client_moves rate p st u st u'"
  using step
proof (cases rule: connect_step_Inr)
  case (failed v)
  then show ?thesis using inv by (auto intro: alone)
next
  case (pulled v src err effs running src')
  note pull = pulled(1) and todo = pulled(2) and u' = pulled(3)
  have effs: "todo_ok NoQueue effs" "\<not> feeding effs" using pull_effects [OF pull] by (auto simp: todo_ok_def)
  have len: "length (up_feeds u) = length (up_pulls u)" "length (up_sent u) = length (up_pulls u)"
    and sent: "sent_ok (nw_reader nw) u" and taken: "taken_ok u" using inv by (simp_all add: client_inv_def)
  have c: "current u' = length (up_pulls u)" by (simp add: u' current_def)
  have old: "up_sent u ! k = queued (nw_reader nw) (up_pulls u ! k)" "feed_ok (up_feeds u ! k) (up_sent u ! k)" if "k < length (up_pulls u)" for k
    using sent that todo unfolding sent_ok_def by (auto dest!: spec [of _ k] split: if_splits)
  have "sent_ok (nw_reader nw) u'"
    unfolding sent_ok_def c using old(1) old(2) [unfolded old(1)] len queued_effects [OF pull] by (auto simp: u' nth_append less_Suc_eq)
  moreover have "taken_ok u'" using taken effs(2) len(1) unfolding taken_ok_def by (auto simp: u' nth_append)
  ultimately have "client_inv (nw_reader nw) u'" using len effs(1) unfolding client_inv_def c by (simp add: u' nth_append)
  moreover have "map ((!) (up_sent u')) (up_taken u) = map ((!) (up_sent u)) (up_taken u)"
    using taken len(2) by (auto simp: taken_ok_def u' nth_append)
  then have "handed_over u' = handed_over u" by (simp add: handed_over_def u' del: map_eq_conv)
  moreover have "link_inv s u'" if "link_inv s u" for s
    using that effs(2) by (simp add: link_inv_def queues_def u')
  ultimately show ?thesis by (blast intro: alone)
qed

text \<open>The reports to the collector.\<close>

lemma feeding_tail: "feeding (e # todo) \<Longrightarrow> feeding todo \<or> todo = [EffSourceDisconnected]"
  by (cases e) simp_all

lemma todo_ok_report:
  assumes "todo_ok f (e # todo)" and "e \<in> {EffSourceConnected, EffPacketReceived, EffSourceDisconnected}"
  shows "todo_ok f todo" and "feeding todo \<Longrightarrow> feeding (e # todo)"
  using assms by (auto simp: todo_ok_def)

definition linked :: "string \<Rightarrow> server_sys \<Rightarrow> 's upstream \<Rightarrow> bool" where
  "linked p st u \<longleftrightarrow> (\<forall>s. sr_streams st p = Some s \<longrightarrow> link_inv s u)"

lemma source_moves:
  assumes inv: "client_inv rd u" and link: "linked p st u" and todo: "up_todo u = e # todo"
    and e: "e \<in> {EffSourceConnected, EffPacketReceived, EffSourceDisconnected}"
    and step: "server_step rate (AtSource p op) st = Some (Inr st')"
  shows "client_inv rd (u\<lparr>up_todo := todo\<rparr>) \<and> client_moves rate p st u st' (u\<lparr>up_todo := todo\<rparr>)"
proof -
  let ?f = "up_feeds u ! current u"
  have c: "current u < length (up_pulls u)" "todo_ok ?f (e # todo)" and fo: "feed_ok ?f (up_sent u ! current u)"
    using inv todo by (auto simp: client_inv_def current_def sent_ok_def split: if_splits)
  note ok = todo_ok_report [OF c(2) e]
  have q: "queued_in (e # todo) = [] @ queued_in todo" using e by auto
  have "feed_ok ?f (up_sent u ! current u @ [])" using fo by simp
  from client_update [OF inv todo q this refl ok(1)] ok(2)
  have "client_inv rd (u\<lparr>up_todo := todo\<rparr>)" "handed_over (u\<lparr>up_todo := todo\<rparr>) = handed_over u" by simp_all
  moreover have "link_inv s (u\<lparr>up_todo := todo\<rparr>)" if "link_inv s u" for s :: "AccessController system"
    using link_update [OF that _ inv, of ?f todo "[]"] ok(2) todo by simp
  moreover have "sr_streams st' = sr_streams st" using other_step [OF step] by simp
  ultimately show ?thesis using link step
    by (auto simp: linked_def simp del: server_step.simps intro!: with_server [where a = "AtSource p op"])
qed

text \<open>The operations on the queue.\<close>

lemma use_queue_moves:
  assumes inv: "client_inv rd u" and link: "linked p st u" and todo: "up_todo u = e # todo" "feeding (e # todo)"
    and q: "queued_in (e # todo) = ps @ queued_in todo"
    and op: "\<And>q q'. op q = Inr (Some q') \<Longrightarrow> cbuf q' = cbuf q @ ps \<and> (feeding todo \<longrightarrow> \<not> cclosed q')"
    and act: "\<And>i s s'. sys_step Accept Release (act i) s = Some (Inr s') \<Longrightarrow>
      \<exists>q q'. input_at i s = Some q \<and> op q = Inr (Some q') \<and> s' = set_input i q' s"
    and fed: "\<And>i s. fed_by (act i) (s :: AccessController system) = ps"
    and use: "use_queue op act p st u = Some (Inr (st', u'))"
  shows "client_inv rd ((note_sent ps u')\<lparr>up_todo := todo\<rparr>) \<and> client_moves rate p st u st' ((note_sent ps u')\<lparr>up_todo := todo\<rparr>)"
proof -
  let ?f = "up_feeds u ! current u"
  have c: "todo_ok ?f (e # todo)" and fo: "feed_ok ?f (up_sent u ! current u)"
    using inv todo by (auto simp: client_inv_def current_def sent_ok_def split: if_splits)
  have ok: "todo_ok f todo" if "feeding todo \<Longrightarrow> open_feed f" for f
    using that feeding_tail [OF todo(2)] by (auto simp: todo_ok_def)
  have own: ?thesis if "st' = st" "u' = set_feed f u" "f \<noteq> Handed" "?f \<noteq> Handed" "feed_ok f (up_sent u ! current u @ ps)"
      "feeding todo \<Longrightarrow> open_feed f" for f
  proof -
    have "f = Handed \<longleftrightarrow> ?f = Handed" using that(3,4) by simp
    note upd = client_update [OF inv todo(1) q that(5) this ok [OF that(6)] todo(2)]
    have "link_inv s ((note_sent ps (set_feed f u))\<lparr>up_todo := todo\<rparr>)" if "link_inv s u" for s :: "AccessController system"
      using \<open>f \<noteq> Handed\<close> todo(1) by (intro link_update [OF that _ inv]) simp_all
    then show ?thesis using upd that(1-3) by (auto intro: alone)
  qed
  show ?thesis
  proof (cases ?f)
    case NoQueue
    then show ?thesis using use by (simp add: use_queue_def)
  next
    case (Spawned q)
    then obtain q' where q': "op q = Inr (Some q')" "st' = st" "u' = set_feed (Spawned q') u"
      using use by (auto simp: use_queue_def split: sum.splits option.splits)
    then show ?thesis using own [of "Spawned q'"] op [OF q'(1)] fo Spawned by simp
  next
    case (Refused q)
    then obtain q' where q': "op q = Inr (Some q')" "st' = st" "u' = set_feed (Refused q') u"
      using use by (auto simp: use_queue_def split: sum.splits option.splits)
    then show ?thesis using own [of "Refused q'"] op [OF q'(1)] Refused by simp
  next
    case Handed
    then obtain s i where s: "sr_streams st p = Some s" and i: "position (current u) (up_loops u @ up_calls u) = Some i"
      and step: "stream_step p (act i) st = Some (Inr st')" and u': "u' = u"
      using use by (auto simp: use_queue_def map_go_Inr simp del: map_option_eq_Some split: sum.splits option.splits)
    have ls: "link_inv s u" using link s by (simp add: linked_def)
    note upd = client_update [OF inv todo(1) q, of Handed, OF _ _ ok todo(2), simplified Handed, simplified update_ids(1) [OF Handed], simplified]
    from step show ?thesis
    proof (cases rule: stream_step_Inr)
      case (1 s1 s' queue)
      from act [OF 1(3)] obtain qq q' where q': "input_at i (s\<lparr>sy_broker := sr_acl st\<rparr>) = Some qq" "op qq = Inr (Some q')"
        "s' = set_input i q' (s\<lparr>sy_broker := sr_acl st\<rparr>)" using s 1(1) by auto
      note in' = link_input [OF _ i q'(1), of q']
      have "link_inv s' ((note_sent ps u)\<lparr>up_todo := todo\<rparr>)"
        using in' ls op [OF q'(2)] q'(3) by (auto simp: link_inv_def queues_def note_sent_def current_def)
      then show ?thesis
        using upd step 1(1,5) s u' fed by (auto intro!: with_server [where a = "AtStream p (act i)"])
    qed
  qed
qed

lemma effect_moves:
  assumes inv: "client_inv rd u" and link: "linked p st u" and todo: "up_todo u = e # todo"
    and run: "run_effect rate p e st u = Some (Inr (st', u'))"
  shows "client_inv rd (u'\<lparr>up_todo := todo\<rparr>) \<and> client_moves rate p st u st' (u'\<lparr>up_todo := todo\<rparr>)"
proof -
  have ok: "todo_ok (up_feeds u ! current u) (e # todo)" and c: "current u < length (up_pulls u)"
    and fo: "feed_ok (up_feeds u ! current u) (up_sent u ! current u)"
    using inv todo by (auto simp: client_inv_def current_def sent_ok_def split: if_splits)
  note report = source_moves [OF inv link todo, where rate = rate and st' = st']
  show ?thesis
  proof (cases e)
    case EffSourceConnected
    then show ?thesis using report run by (auto simp: map_go_Inr simp del: map_option_eq_Some server_step.simps)
  next
    case EffPacketReceived
    then show ?thesis using report run by (auto simp: map_go_Inr simp del: map_option_eq_Some server_step.simps)
  next
    case EffSourceDisconnected
    then show ?thesis using report run by (auto simp: map_go_Inr simp del: map_option_eq_Some server_step.simps)
  next
    case EffStartStream
    let ?f = "Spawned (make_chan (cl_queueSize (up_client u)))"
    have o: "up_feeds u ! current u = NoQueue" "feeding todo" using ok EffStartStream by (auto simp: todo_ok_def)
    have "feed_ok ?f (up_sent u ! current u @ [])" "todo_ok ?f todo" using fo o by (simp_all add: make_chan_def todo_ok_def)
    from client_update [OF inv todo _ this(1) _ this(2)] o EffStartStream
    have "client_inv rd ((set_feed ?f u)\<lparr>up_todo := todo\<rparr>)" "handed_over ((set_feed ?f u)\<lparr>up_todo := todo\<rparr>) = handed_over u" by simp_all
    moreover have "link_inv s ((set_feed ?f u)\<lparr>up_todo := todo\<rparr>)" if "link_inv s u" for s :: "AccessController system"
      using link_update [OF that _ inv, of ?f todo "[]"] todo by simp
    ultimately show ?thesis using run EffStartStream by (auto intro: alone)
  next
    case (EffQueue packet)
    then obtain u1 where u1: "use_queue (chan_try_send packet) (\<lambda>i. InputSend i packet) p st u = Some (Inr (st', u1))" "u' = note_sent [packet] u1"
      using run by (auto simp: map_go_Inr simp del: map_option_eq_Some)
    have "feeding (e # todo)" using ok EffQueue by (auto simp: todo_ok_def)
    then show ?thesis unfolding u1(2)
      by (rule use_queue_moves [OF inv link todo _ _ _ _ _ u1(1)])
         (use EffQueue in \<open>auto simp: do_InputSend_def chan_try_send_def split: option.splits sum.splits if_splits\<close>)
  next
    case EffCloseQueue
    have f: "feeding (e # todo)" using ok EffCloseQueue by (auto simp: todo_ok_def)
    have "use_queue (\<lambda>q. map_sum id Some (chan_close q)) InputClose p st u = Some (Inr (st', u'))" using run EffCloseQueue by simp
    from use_queue_moves [OF inv link todo f _ _ _ _ this, where ps = "[]" and rate = rate, simplified update_ids] show ?thesis
      by (rule) (use EffCloseQueue f in \<open>auto simp: do_InputClose_def chan_close_def split: option.splits sum.splits if_splits\<close>)
  qed
qed

text \<open>The call of \<open>Stream\<close>: it is refused as long as a queue is open.\<close>

lemma open_running:
  assumes "input_inv s ps" and "token_inv s" and "(k, q) \<in> queues s u" and "\<not> cclosed q"
  shows "LoadBool (str_running (sy_str s))"
proof (rule ccontr)
  assume "\<not> LoadBool (str_running (sy_str s))"
  then have none: "sy_starting s = []" "\<forall>th \<in> set (sy_threads s). \<not> looping th"
    using assms(2) by (auto simp: token_inv_def is_running_def filter_empty_conv)
  then have "q \<in> set (map th_queue (sy_threads s))" using assms(3) by (auto simp: queues_def dest: set_zip_rightD)
  then show False using assms(1,4) none(2) by (auto simp: input_inv_def phases_def phase_def list_all_iff)
qed

lemma cas_running: "atomic_ok r \<Longrightarrow> fst (CompareAndSwapBool False True r) \<longleftrightarrow> \<not> LoadBool r"
  using CompareAndSwapBool_bool [of r False True] by auto

lemma todo_ok_called: "todo_ok (Spawned q) todo \<Longrightarrow> todo_ok Handed todo \<and> todo_ok (Refused q) todo"
  by (auto simp: todo_ok_def)

text \<open>The feed of connection \<open>k\<close> changes from \<open>Spawned q\<close> to \<open>f\<close>.\<close>

lemma call_update:
  assumes inv: "client_inv rd u" and k: "k < length (up_feeds u)" "up_feeds u ! k = Spawned q"
    and f: "f = Handed \<and> ks = [k] \<or> f = Refused q \<and> ks = []"
    and last: "f = Handed \<Longrightarrow> feeding (up_todo u) \<Longrightarrow> up_feeds u ! current u \<noteq> Handed"
    and u': "up_pulls u' = up_pulls u" "up_todo u' = up_todo u" "up_sent u' = up_sent u" "up_feeds u' = (up_feeds u)[k := f]"
      "up_taken u' = up_taken u @ ks"
  shows "client_inv rd u'" and "handed_over u' = handed_over u @ (if f = Handed then cbuf q else [])"
proof -
  have len: "length (up_feeds u) = length (up_pulls u)" "length (up_sent u) = length (up_pulls u)"
    and sent: "sent_ok rd u" and taken: "taken_ok u" using inv by (simp_all add: client_inv_def)
  have c: "current u' = current u" by (simp add: current_def u')
  have "sent_ok rd u'" using sent f len(1) k(1) unfolding sent_ok_def u' c by (auto simp: nth_list_update)
  moreover have "k \<notin> set (up_taken u)" using taken k(2) by (auto simp: taken_ok_def)
  then have "taken_ok u'" using taken f last k len(1) unfolding taken_ok_def u' c by (auto simp: nth_list_update)
  moreover have "todo_ok (up_feeds u' ! current u) (up_todo u)" if "up_pulls u \<noteq> []"
    using inv that f k todo_ok_called [of q "up_todo u"] by (auto simp: client_inv_def u' nth_list_update)
  ultimately show "client_inv rd u'" using inv unfolding client_inv_def u' c by simp
  have "cbuf q = up_sent u ! k" using sent k len(1) unfolding sent_ok_def by (auto dest!: spec [of _ k])
  then show "handed_over u' = handed_over u @ (if f = Handed then cbuf q else [])" using f by (auto simp: handed_over_def u')
qed

lemma call_moves:
  assumes inv: "client_inv rd u" and link: "linked p st u"
    and streams: "\<And>s. sr_streams st p = Some s \<Longrightarrow> token_inv s \<and> input_inv s ps"
    and call: "call_step p k st u = Some (Inr (st', u'))"
  shows "client_inv rd u' \<and> client_moves rate p st u st' u'"
proof -
  obtain s q where s: "sr_streams st p = Some s" and k: "k < length (up_feeds u)" "up_feeds u ! k = Spawned q"
    and step: "stream_step p (StreamCall q) st = Some (Inr st')"
    and u': "u' = (if fst (CompareAndSwapBool False True (str_running (sy_str s)))
       then u\<lparr>up_feeds := (up_feeds u)[k := Handed], up_calls := up_calls u @ [k], up_taken := up_taken u @ [k]\<rparr>
       else u\<lparr>up_feeds := (up_feeds u)[k := Refused q]\<rparr>)"
    using call by (auto simp: call_step_def map_go_Inr simp del: map_option_eq_Some split: option.splits if_splits feed.splits)
  have tok: "token_inv s" "input_inv s ps" and ls: "link_inv s u" using streams link s by (simp_all add: linked_def)
  have cas: "fst (CompareAndSwapBool False True (str_running (sy_str s))) \<longleftrightarrow> \<not> LoadBool (str_running (sy_str s))"
    using cas_running tok(1) by (simp add: token_inv_def)
  have c: "current u' = current u" by (simp add: u' current_def)
  have first: "\<not> (feeding (up_todo u) \<and> up_feeds u ! current u = Handed)" if "\<not> LoadBool (str_running (sy_str s))"
    using ls that open_running [OF tok(2,1)] unfolding link_inv_def by blast
  have open_q: "\<not> cclosed q" if "feeding (up_todo u)" "current u = k"
    using inv that k by (auto simp: client_inv_def todo_ok_def split: if_splits)
  from step show ?thesis
  proof (cases rule: stream_step_Inr)
    case (1 s1 s' queue)
    then have s1: "s1 = s" "do_StreamCall q (s\<lparr>sy_broker := sr_acl st\<rparr>) = Some (Inr s')" using s by simp_all
    show ?thesis
    proof (cases "LoadBool (str_running (sy_str s))")
      case True
      then have refused: "s' = s\<lparr>sy_broker := sr_acl st\<rparr>" "u' = u\<lparr>up_feeds := (up_feeds u)[k := Refused q]\<rparr>"
        using s1(2) cas u' by (auto simp: do_StreamCall_def split: prod.splits bool.splits)
      note upd = call_update [OF inv k, of "Refused q" "[]" u', simplified refused(2), simplified]
      have "link_inv s' u'" using ls refused k(1) by (auto simp: link_inv_def queues_def current_def nth_list_update split: if_splits)
      then show ?thesis using upd refused(2) step 1(1,5) s True
        by (auto intro!: with_server [where a = "AtStream p (StreamCall q)"])
    next
      case False
      then have taken: "map th_queue (sy_threads s') = map th_queue (sy_threads s)" "sy_starting s' = sy_starting s @ [q]"
          "u' = u\<lparr>up_feeds := (up_feeds u)[k := Handed], up_calls := up_calls u @ [k], up_taken := up_taken u @ [k]\<rparr>"
        using s1(2) cas u' by (auto simp: do_StreamCall_def split: prod.splits bool.splits)
      note upd = call_update [OF inv k, of Handed "[k]" u', simplified taken(3), simplified]
      have notin: "k \<notin> set (up_taken u)" using inv k(2) by (auto simp: client_inv_def taken_ok_def)
      have "link_inv s' u'" using ls taken k(1) notin first [OF False] open_q map_eq_imp_length_eq [OF taken(1)]
        by (auto simp: link_inv_def queues_def current_def nth_list_update split: if_splits)
      then show ?thesis using upd taken(3) step 1(1,5) s False first [OF False]
        by (auto intro!: with_server [where a = "AtStream p (StreamCall q)"])
    qed
  qed
qed

section \<open>The server with its clients refines the server\<close>

text \<open>A run of the server with its clients is a run of the server whose streams are fed with what the clients
  handed over.\<close>

definition handed :: "'s up_sys \<Rightarrow> string \<Rightarrow> bytes list" where
  "handed sys p = (case us_clients sys p of None \<Rightarrow> [] | Some u \<Rightarrow> handed_over u)"

definition clients_ok :: "'s io_reader \<Rightarrow> 's up_sys \<Rightarrow> bool" where
  "clients_ok rd sys \<longleftrightarrow> (\<forall>p u. us_clients sys p = Some u \<longrightarrow> client_inv rd u \<and> linked p (us_server sys) u)"

definition up_inv :: "(u64 \<Rightarrow> i64 \<Rightarrow> u64) \<Rightarrow> 's io_reader \<Rightarrow> server_sys \<Rightarrow> 's up_sys \<Rightarrow> bool" where
  "up_inv rate rd st0 sys \<longleftrightarrow> server_fed_reachable rate st0 (us_server sys) (handed sys) \<and> clients_ok rd sys"

lemma client_moves_inv:
  assumes inv: "up_inv rate rd st0 sys" and u: "us_clients sys p = Some u"
    and u': "client_inv rd u' \<and> client_moves rate p (us_server sys) u st' u'"
  shows "up_inv rate rd st0 \<lparr>us_server = st', us_clients = (us_clients sys)(p \<mapsto> u')\<rparr>"
proof -
  let ?sys = "\<lparr>us_server = st', us_clients = (us_clients sys)(p \<mapsto> u')\<rparr>"
  have ok: "clients_ok rd sys" and fed: "server_fed_reachable rate st0 (us_server sys) (handed sys)"
    using inv by (simp_all add: up_inv_def)
  from u' have "client_moves rate p (us_server sys) u st' u'" by simp
  then show ?thesis
  proof cases
    case alone
    then have "handed ?sys = handed sys" using u by (auto simp: handed_def)
    moreover have "clients_ok rd ?sys" using ok u u' alone by (auto simp: clients_ok_def linked_def)
    ultimately show ?thesis using fed alone by (simp add: up_inv_def)
  next
    case (with_server a)
    have "handed ?sys = (\<lambda>q. handed sys q @ server_fed a (us_server sys) q)"
      using u with_server(3,4) by (auto simp: handed_def split: option.split)
    moreover have "clients_ok rd ?sys" using ok u' with_server(2,5) by (auto simp: clients_ok_def linked_def)
    ultimately show ?thesis using fed_next [OF fed with_server(1)] by (simp add: up_inv_def)
  qed
qed

text \<open>The steps of everything else.\<close>

lemma track_simps [simp]:
  "up_pulls (track a s u) = up_pulls u" "up_todo (track a s u) = up_todo u" "up_sent (track a s u) = up_sent u"
  "up_feeds (track a s u) = up_feeds u" "up_taken (track a s u) = up_taken u"
  by (cases a; simp add: started_call_def)+

lemma track_inv [simp]: "client_inv rd (track a s u) = client_inv rd u" "handed_over (track a s u) = handed_over u"
  by (simp_all add: client_inv_def sent_ok_def taken_ok_def current_def handed_over_def)

lemma track_broker [simp]: "track a (s\<lparr>sy_broker := b\<rparr>) u = track a s u"
  by (cases a) (simp_all add: thread_at_def)

lemma elsewhere_inv:
  assumes inv: "up_inv rate rd (server_init sv acl nt) sys" and idle: "streams_idle sv"
    and own: "\<not> client_action a" and step: "server_step rate a (us_server sys) = Some (Inr st')"
  shows "up_inv rate rd (server_init sv acl nt) \<lparr>us_server = st', us_clients = tracked a sys\<rparr>"
proof -
  let ?sys = "\<lparr>us_server = st', us_clients = tracked a sys\<rparr>" and ?st = "us_server sys"
  have ok: "clients_ok rd sys" and fed: "server_fed_reachable rate (server_init sv acl nt) ?st (handed sys)"
    using inv by (simp_all add: up_inv_def)
  have "server_fed a ?st p = []" for p
    using own by (cases a rule: client_action.cases) (auto split: option.split)
  moreover have "handed ?sys = handed sys"
    by (cases a) (auto simp: handed_def fun_eq_iff split: option.split)
  ultimately have "server_fed_reachable rate (server_init sv acl nt) st' (handed ?sys)" using fed_next [OF fed step] by simp
  moreover have "clients_ok rd ?sys"
  proof (cases "\<exists>p x. a = AtStream p x")
    case False
    then have "tracked a sys = us_clients sys" by (cases a) auto
    then show ?thesis using other_step [OF step False] ok by (simp add: clients_ok_def linked_def)
  next
    case True
    then obtain p x where a: "a = AtStream p x" by blast
    with step have "stream_step p x ?st = Some (Inr st')" by simp
    then show ?thesis
    proof (cases rule: stream_step_Inr)
      case (1 s s' q)
      let ?s = "s\<lparr>sy_broker := sr_acl ?st\<rparr>"
      have "token_inv ?s" "input_inv ?s (handed sys p)"
        using stream_invariants(1) [OF server_fed_reachable_reachable [OF fed] idle 1(1)]
          inputs_ok_reachable [OF fed idle] 1(1) by (simp_all add: inputs_ok_def)
      from link_track [OF _ this(2,1) 1(3), where p = p] own a have "link_inv s' (track x s u)" if "link_inv s u" for u :: "'s upstream"
        using that by simp
      then show ?thesis using ok a 1(1,5) by (auto simp: clients_ok_def linked_def split: option.splits if_splits)
    qed
  qed
  ultimately show ?thesis by (simp add: up_inv_def)
qed

lemma with_client_Inr:
  assumes "with_client p sys f = Some (Inr sys')"
  obtains u st' u' where "us_clients sys p = Some u" "f u = Some (Inr (st', u'))"
    "sys' = \<lparr>us_server = st', us_clients = (us_clients sys)(p \<mapsto> u')\<rparr>"
  using assms by (auto simp: with_client_def bind_eq_Some_conv map_go_Inr simp del: map_option_eq_Some)

lemma up_inv_step:
  assumes inv: "up_inv rate (nw_reader nw) (server_init sv acl nt) sys" and idle: "streams_idle sv"
    and step: "up_step rate nw a sys = Some (Inr sys')"
  shows "up_inv rate (nw_reader nw) (server_init sv acl nt) sys'"
proof -
  have ok: "client_inv (nw_reader nw) u" "linked p (us_server sys) u" if "us_clients sys p = Some u" for p u
    using inv that by (simp_all add: up_inv_def clients_ok_def)
  have wc: ?thesis if w: "with_client p sys f = Some (Inr sys')"
      and m: "\<And>u st' u'. us_clients sys p = Some u \<Longrightarrow> f u = Some (Inr (st', u')) \<Longrightarrow>
        client_inv (nw_reader nw) u' \<and> client_moves rate p (us_server sys) u st' u'" for p f
    using w
  proof (cases rule: with_client_Inr)
    case (1 u st' u')
    show ?thesis unfolding 1(3) by (rule client_moves_inv [OF inv 1(1) m [OF 1(1,2)]])
  qed
  show ?thesis
  proof (cases a)
    case (Connect p now later open_target)
    have "client_inv (nw_reader nw) u' \<and> client_moves rate p (us_server sys) u st' u'"
      if u: "us_clients sys p = Some u" and e: "map_option (map_sum id (Pair (us_server sys))) (connect_step nw now later open_target u)
          = Some (Inr (st', u'))" for u st' u'
      using e connect_moves [OF ok(1) [OF u]] unfolding map_go_Inr by auto
    with step Connect show ?thesis by (auto intro!: wc)
  next
    case (ClientStep p)
    have "client_inv (nw_reader nw) u' \<and> client_moves rate p (us_server sys) u st' u'"
      if u: "us_clients sys p = Some u" and e: "(case up_todo u of [] \<Rightarrow> None
        | e # todo \<Rightarrow> map_option (map_sum id (apsnd (up_todo_update (\<lambda>_. todo)))) (run_effect rate p e (us_server sys) u))
          = Some (Inr (st', u'))" for u st' u'
    proof -
      obtain e todo v where "up_todo u = e # todo" "run_effect rate p e (us_server sys) u = Some (Inr (st', v))" "u' = v\<lparr>up_todo := todo\<rparr>"
        using e by (auto simp: map_go_Inr simp del: map_option_eq_Some split: list.splits)
      then show ?thesis using effect_moves [OF ok [OF u]] by blast
    qed
    with step ClientStep show ?thesis by (auto intro!: wc)
  next
    case (CallStream p k)
    have fed: "server_fed_reachable rate (server_init sv acl nt) (us_server sys) (handed sys)" using inv by (simp add: up_inv_def)
    have streams: "token_inv s \<and> input_inv s (handed sys p)" if "sr_streams (us_server sys) p = Some s" for s
      using stream_invariants(1) [OF server_fed_reachable_reachable [OF fed] idle that, of "sy_broker s"]
        inputs_ok_reachable [OF fed idle] that by (simp add: inputs_ok_def)
    show ?thesis using step CallStream call_moves [OF ok streams] by (auto intro!: wc)
  next
    case (Elsewhere x)
    with step obtain st' where "\<not> client_action x" "server_step rate x (us_server sys) = Some (Inr st')"
      "sys' = \<lparr>us_server = st', us_clients = tracked x sys\<rparr>"
      by (auto simp: map_go_Inr simp del: map_option_eq_Some server_step.simps split: if_splits)
    then show ?thesis using elsewhere_inv [OF inv idle] by blast
  qed
qed

lemma up_inv_reachable:
  assumes "up_reachable rate nw (up_init now sv acl nt) sys" and "streams_idle sv"
  shows "up_inv rate (nw_reader nw) (server_init sv acl nt) sys"
  using assms(1)
proof (induction rule: up_reachable.induct)
  case up_start
  have "handed (up_init now sv acl nt :: 'a up_sys) = (\<lambda>p. [])"
    by (auto simp: handed_def up_init_def new_upstream_def handed_over_def split: option.split)
  then have "server_fed_reachable rate (server_init sv acl nt) (us_server (up_init now sv acl nt :: 'a up_sys)) (handed (up_init now sv acl nt :: 'a up_sys))"
    using fed_start by (simp add: up_init_def)
  moreover have "clients_ok (nw_reader nw) (up_init now sv acl nt)"
    by (auto simp: clients_ok_def up_init_def new_upstream_def client_inv_def sent_ok_def taken_ok_def linked_def link_inv_def
        server_init_streams sys_init_def)
  ultimately show ?case by (simp add: up_inv_def)
next
  case (up_next sys a sys')
  then show ?case using up_inv_step assms(2) by blast
qed

text \<open>What the streamer got from its client are packets of the bytes of the accepted connections.\<close>

lemma subseq_concat: "(\<And>k. k \<in> set ks \<Longrightarrow> subseq (f k) (g k)) \<Longrightarrow> subseq (concat (map f ks)) (concat (map g ks))"
  by (induction ks) (auto intro: list_emb_append_mono)

lemma handed_over_packets:
  assumes "client_inv rd u" and "byte_source rd bytes_left invar" and "\<forall>src \<in> set (up_pulls u). invar src"
  shows "subseq (handed_over u) (concat (map (\<lambda>k. packets_of (bytes_left (up_pulls u ! k))) (up_taken u)))"
  unfolding handed_over_def
proof (rule subseq_concat)
  fix k assume "k \<in> set (up_taken u)"
  then have k: "k < length (up_pulls u)" using assms(1) by (simp add: client_inv_def taken_ok_def)
  then have "prefix (up_sent u ! k) (queued rd (up_pulls u ! k))" using assms(1) by (auto simp: client_inv_def sent_ok_def intro: prefixI [OF sym])
  moreover have "queued rd (up_pulls u ! k) = packets_of (bytes_left (up_pulls u ! k))"
    using queued_packets [OF assms(2)] assms(3) k by simp
  ultimately show "subseq (up_sent u ! k) (packets_of (bytes_left (up_pulls u ! k)))" by (simp add: prefix_imp_subseq)
qed

end
