(* ===== verification/Upstream_Progress.thy ===== *)
theory Upstream_Progress
  imports Upstream_Feeding
begin

text \<open>
  What becomes of an upstream client of a running server: it never panics and is only held up by a full queue; a
  connection whose call of \<open>Stream\<close> was refused fills its queue and hangs.
\<close>

section \<open>Clients and streams\<close>

lemma with_client_dom: "with_client p sys f = Some (Inr sys') \<Longrightarrow> dom (us_clients sys') = dom (us_clients sys)"
  by (erule with_client_Inr) auto

lemma up_clients_dom:
  "up_reachable rate nw (up_init now sv acl nt) sys \<Longrightarrow> dom (us_clients sys) = dom (sv_clients sv)"
proof (induction rule: up_reachable.induct)
  case up_start
  show ?case by (auto simp: up_init_def)
next
  case (up_next sys a sys')
  have "dom (us_clients sys') = dom (us_clients sys)"
  proof (cases a)
    case (Elsewhere x)
    have "dom (tracked x sys) = dom (us_clients sys)" by (cases x) (auto split: option.split)
    moreover have "us_clients sys' = tracked x sys" using up_next.hyps(2) Elsewhere
      by (auto simp: map_go_Inr simp del: map_option_eq_Some server_step.simps split: if_splits)
    ultimately show ?thesis by simp
  qed (use up_next.hyps(2) with_client_dom in \<open>simp_all, blast+\<close>)
  then show ?case using up_next.IH by simp
qed

lemma client_stream:
  assumes "main env (Inr (Inr config)) = Inr (ListenAndServe listen sv acl nt heartbeat)"
    and "up_reachable rate nw (up_init now sv acl nt) sys" and "us_clients sys p = Some u"
  obtains s where "sr_streams (us_server sys) p = Some s" "token_inv s" "input_inv s (handed sys p)" "client_inv (nw_reader nw) u" "link_inv s u"
proof -
  note idle = main_idle [OF assms(1)] and w = main_Serve(1) [OF assms(1)]
  have inv: "up_inv rate (nw_reader nw) (server_init sv acl nt) sys" using up_inv_reachable [OF assms(2) idle] .
  then have fed: "server_fed_reachable rate (server_init sv acl nt) (us_server sys) (handed sys)" by (simp add: up_inv_def)
  note r = server_fed_reachable_reachable [OF fed]
  have "p \<in> dom (sv_clients sv)" using up_clients_dom [OF assms(2)] assms(3) by blast
  then obtain str where "(p, StreamRoute str) \<in> set (sv_routes sv)" using w by (auto simp: wired_def stream_paths_def)
  then have "map_of (sv_routes sv) p = Some (StreamRoute str)" using w by (simp add: wired_def)
  then obtain s where s: "sr_streams (us_server sys) p = Some s" using server_dom [OF r] by blast
  show ?thesis
  proof (rule that [OF s])
    show "token_inv s" using stream_invariants(1) [OF r idle s, of "sy_broker s"] by simp
    show "input_inv s (handed sys p)" using inputs_ok_reachable [OF fed idle] s by (simp add: inputs_ok_def)
    show "client_inv (nw_reader nw) u" "link_inv s u" using inv assms(3) s by (auto simp: up_inv_def clients_ok_def linked_def)
  qed
qed

section \<open>Connecting\<close>

text \<open>A connection attempt has the effects of \<open>start\<close> on the URL whose turn it is.\<close>

lemma pull_running:
  "pull rd (StoreBool True r) s =
     map_option (\<lambda>(err, effs, running, s'). (err, effs, StoreBool False (StoreBool True r), s')) (pull rd AtomicTrue s)"
  by (simp add: pull_def split: option.split)

lemma connect_start:
  assumes "connect_step nw now later open_target u = Some (Inr u')" and "cl_input client = None" and "cl_interf client = cl_interf (up_client u)"
  obtains sleep urly err client' where "loop_turn (up_client u) now later (up_vars u) = Some (Inr (sleep, urly, up_vars u'))"
    and "start (nw_reader nw) open_target (nw_resolve nw) (nw_unescape nw) urly client = Some (err, up_todo u', client')"
proof -
  obtain sleep urly v where turn: "loop_turn (up_client u) now later (up_vars u) = Some (Inr (sleep, urly, v))" "up_vars u' = v"
    and todo: "up_todo u = []"
    using assms(1) by (auto simp: connect_step_def split: if_splits option.splits sum.splits)
  have "\<exists>err client'. start (nw_reader nw) open_target (nw_resolve nw) (nw_unescape nw) urly client = Some (err, up_todo u', client')"
    using assms turn(1) todo by (auto simp: connect_step_def start_def Let_def pull_running split: option.splits sum.splits)
  then show ?thesis using that turn by blast
qed

text \<open>The URLs of the clients that a program start builds, when all remotes can be parsed. Random draws are in range.\<close>

definition remotes_valid :: "start_env \<Rightarrow> Configuration \<Rightarrow> bool" where
  "remotes_valid env config \<longleftrightarrow> (\<forall>(i, r) \<in> set (enumerate 0 (Resources config)).
     valid_draws (length (res_Remotes r)) (en_draws env i) \<and> (\<forall>uri \<in> set (res_Remotes r). \<exists>u. en_url env uri = Inr u))"

definition urls_ok :: "server \<Rightarrow> bool" where
  "urls_ok sv \<longleftrightarrow> (\<forall>p client. sv_clients sv p = Some client \<longrightarrow> cl_urls client \<noteq> [] \<and> None \<notin> set (cl_urls client))"

lemma parsed_all: "\<forall>uri \<in> set uris. \<exists>u. parse uri = Inr u \<Longrightarrow> length (parsed parse uris) = length uris"
  by (induction uris) (auto simp: parsed_def)

lemma setup_client_urls:
  assumes "setup_client env config i r = Inr client" and "valid_draws (length (res_Remotes r)) (en_draws env i)"
    and "\<forall>uri \<in> set (res_Remotes r). \<exists>u. en_url env uri = Inr u"
  shows "cl_urls client \<noteq> [] \<and> None \<notin> set (cl_urls client)"
proof -
  have "set (ShuffleStrings (en_draws env i) (res_Remotes r)) = set (res_Remotes r)"
    using shuffle_loop_mset [OF assms(2)] unfolding ShuffleStrings_def by (metis set_mset_mset)
  then have "length (parsed (en_url env) (ShuffleStrings (en_draws env i) (res_Remotes r))) = length (ShuffleStrings (en_draws env i) (res_Remotes r))"
    using assms(3) by (intro parsed_all) simp
  with NewClient_urls(1,2) [OF assms(1) [unfolded setup_client_def]] show ?thesis by auto
qed

lemma setup_resource_clients:
  assumes "setup_resource env config ir sv = Inr sv'"
  shows "sv_clients sv' = sv_clients sv
     \<or> (\<exists>client reg. setup_client env config (fst ir) (snd ir) = Inr client
          \<and> sv_clients sv' = (sv_clients sv)(res_Serve (snd ir) \<mapsto> Client_SetCollector reg client))"
proof -
  have m: "sv_clients w = sv_clients v" if "mux_Handle p rt v = Inr w" for p rt and v w :: server
    using that by (auto simp: mux_Handle_def split: if_splits)
  show ?thesis
    using assms
    by (auto simp: setup_resource_def setup_stream_def setup_static_def setup_api_def Let_def split_beta go_bind_Inr_conv
        dest!: m split: if_splits sum.splits)
qed

lemma main_urls:
  assumes "main env (Inr (Inr config)) = Inr (ListenAndServe listen sv acl nt heartbeat)" and "remotes_valid env config"
  shows "urls_ok sv"
proof -
  obtain sv0 where sv0: "go_foreach (setup_resource env config) (enumerate 0 (Resources config)) (new_server config) = Inr sv0"
    and sv: "sv = sv0\<lparr>sv_stats := iface_Start (sv_stats sv0)\<rparr>"
    using assms(1) by (auto simp: main_def elim: start_server_Serve)
  let ?I = "\<lambda>(todo :: (nat \<times> Resource) list) sv. set todo \<subseteq> set (enumerate 0 (Resources config)) \<and> urls_ok sv"
  have "?I [] sv0"
  proof (rule go_foreach_invariant [OF sv0, where I = ?I])
    show "?I (enumerate 0 (Resources config)) (new_server config)" by (auto simp: urls_ok_def new_server_def)
    fix x ys u v assume I: "?I (x # ys) u" and step: "setup_resource env config x u = Inr v"
    from I have "x \<in> set (enumerate 0 (Resources config))" by simp
    then have valid: "valid_draws (length (res_Remotes (snd x))) (en_draws env (fst x))" "\<forall>uri \<in> set (res_Remotes (snd x)). \<exists>u. en_url env uri = Inr u"
      using assms(2) by (auto simp: remotes_valid_def)
    show "?I ys v" using I setup_resource_clients [OF step] setup_client_urls [OF _ valid]
      by (auto simp: urls_ok_def Client_SetCollector_def split: if_splits)
  qed
  then show ?thesis by (simp add: sv urls_ok_def)
qed

text \<open>The connection loop stays within the list of its URLs.\<close>

definition turn_ok :: "server \<Rightarrow> string \<Rightarrow> 's upstream \<Rightarrow> bool" where
  "turn_ok sv p u \<longleftrightarrow> sv_clients sv p = Some (up_client u)
     \<and> (cl_urls (up_client u) \<noteq> [] \<longrightarrow> lo_next (up_vars u) < length (cl_urls (up_client u)))"

lemma set_simps [simp]:
  "up_client (set_feed f u) = up_client u" "up_vars (set_feed f u) = up_vars u"
  "up_client (note_sent ps u) = up_client u" "up_vars (note_sent ps u) = up_vars u"
  by (simp_all add: set_feed_def note_sent_def)

lemma use_queue_fields:
  "use_queue op act p st u = Some (Inr (st', u')) \<Longrightarrow> up_client u' = up_client u \<and> up_vars u' = up_vars u"
  by (auto simp: use_queue_def map_go_Inr simp del: map_option_eq_Some split: feed.splits sum.splits option.splits)

lemma client_fields:
  "up_client (track a s u) = up_client u" "up_vars (track a s u) = up_vars u"
  "call_step p k st u = Some (Inr (st', u')) \<Longrightarrow> up_client u' = up_client u \<and> up_vars u' = up_vars u"
  "run_effect rate p e st u = Some (Inr (st', u')) \<Longrightarrow> up_client u' = up_client u \<and> up_vars u' = up_vars u"
proof -
  show "up_client (track a s u) = up_client u" "up_vars (track a s u) = up_vars u"
    by (cases a; simp add: started_call_def)+
  show "call_step p k st u = Some (Inr (st', u')) \<Longrightarrow> up_client u' = up_client u \<and> up_vars u' = up_vars u"
    by (auto simp: call_step_def map_go_Inr simp del: map_option_eq_Some split: option.splits if_splits feed.splits)
  show "run_effect rate p e st u = Some (Inr (st', u')) \<Longrightarrow> up_client u' = up_client u \<and> up_vars u' = up_vars u"
    by (cases e) (auto simp: map_go_Inr simp del: map_option_eq_Some dest!: use_queue_fields)
qed

lemma connect_turn:
  assumes "turn_ok sv p u" and "connect_step nw now later open_target u = Some (Inr u')"
  shows "turn_ok sv p u'"
proof -
  have "up_client u' = up_client u" using assms(2)
    by (auto simp: connect_step_def split: if_splits option.splits sum.splits)
  moreover obtain sleep urly where "loop_turn (up_client u) now later (up_vars u) = Some (Inr (sleep, urly, up_vars u'))"
    using assms(2) by (auto simp: connect_step_def split: if_splits option.splits sum.splits)
  then have "cl_urls (up_client u) \<noteq> [] \<Longrightarrow> lo_next (up_vars u') < length (cl_urls (up_client u))"
    by (auto simp: loop_turn_def Let_def dest!: sym [of _ "up_vars u'"] split: if_splits option.splits)
  ultimately show ?thesis using assms(1) by (simp add: turn_ok_def)
qed

lemma connect_no_panic:
  assumes "turn_ok sv p u" and "urls_ok sv"
  shows "connect_step nw now later open_target u \<noteq> Some (Inl x)"
proof -
  have "cl_urls (up_client u) \<noteq> []" "None \<notin> set (cl_urls (up_client u))" using assms by (auto simp: turn_ok_def urls_ok_def)
  moreover from this(1) have lt: "lo_next (up_vars u) < length (cl_urls (up_client u))" using assms(1) by (simp add: turn_ok_def)
  ultimately have "cl_urls (up_client u) ! lo_next (up_vars u) \<noteq> None" by (metis nth_mem)
  then have "loop_turn (up_client u) now later (up_vars u) \<noteq> Some (Inl x)" using lt by (auto simp: loop_turn_def Let_def)
  then show ?thesis by (auto simp: connect_step_def split: option.split sum.split)
qed

lemma turn_reachable:
  assumes "up_reachable rate nw (up_init now sv acl nt) sys" and "us_clients sys p = Some u"
  shows "turn_ok sv p u"
  using assms
proof (induction arbitrary: u rule: up_reachable.induct)
  case up_start
  then show ?case by (auto simp: up_init_def new_upstream_def turn_ok_def loop_start_def)
next
  case (up_next sys a sys')
  have wc: "turn_ok sv p u" if w: "with_client p' sys f = Some (Inr sys')"
      and f: "\<And>v st' v'. turn_ok sv p' v \<Longrightarrow> f v = Some (Inr (st', v')) \<Longrightarrow> turn_ok sv p' v'" for p' f
    using w
  proof (cases rule: with_client_Inr)
    case (1 v st' v')
    show ?thesis using up_next.IH 1 f up_next.prems by (cases "p = p'") auto
  qed
  show ?case
  proof (cases a)
    case (Connect p' now' later open_target)
    have "turn_ok sv p' v'" if "turn_ok sv p' v" and e: "map_option (map_sum id (Pair (us_server sys))) (connect_step nw now' later open_target v) = Some (Inr (st', v'))"
      for v st' v' using e connect_turn [OF that(1)] unfolding map_go_Inr by auto
    then show ?thesis using up_next.hyps(2) Connect by (auto intro!: wc)
  next
    case (ClientStep p')
    have "turn_ok sv p' v'" if "turn_ok sv p' v" and e: "(case up_todo v of [] \<Rightarrow> None
        | e # todo \<Rightarrow> map_option (map_sum id (apsnd (up_todo_update (\<lambda>_. todo)))) (run_effect rate p' e (us_server sys) v))
          = Some (Inr (st', v'))" for v st' v'
      using that(1) e by (auto simp: map_go_Inr turn_ok_def simp del: map_option_eq_Some split: list.splits dest!: client_fields(4))
    then show ?thesis using up_next.hyps(2) ClientStep by (auto intro!: wc)
  next
    case (CallStream p' k)
    have "turn_ok sv p' v'" if "turn_ok sv p' v" and "call_step p' k (us_server sys) v = Some (Inr (st', v'))" for v st' v'
      using that by (auto simp: turn_ok_def dest!: client_fields(3))
    then show ?thesis using up_next.hyps(2) CallStream by (auto intro!: wc)
  next
    case (Elsewhere x)
    then have "us_clients sys' = tracked x sys" using up_next.hyps(2)
      by (auto simp: map_go_Inr simp del: map_option_eq_Some server_step.simps split: if_splits)
    moreover have "\<exists>v. us_clients sys p = Some v \<and> up_client u = up_client v \<and> up_vars u = up_vars v" if "tracked x sys p = Some u"
      using that by (cases x) (auto simp: client_fields split: option.splits if_splits)
    ultimately show ?thesis using up_next.IH up_next.prems by (auto simp: turn_ok_def)
  qed
qed

section \<open>Progress\<close>

text \<open>The queue of the current connection.\<close>

definition client_queue :: "string \<Rightarrow> server_sys \<Rightarrow> 's upstream \<Rightarrow> bytes chan option" where
  "client_queue p st u =
     (case up_feeds u ! current u of
        NoQueue \<Rightarrow> None
      | Spawned q \<Rightarrow> Some q
      | Refused q \<Rightarrow> Some q
      | Handed \<Rightarrow> Option.bind (sr_streams st p) (\<lambda>s.
          Option.bind (position (current u) (up_loops u @ up_calls u)) (\<lambda>i. input_at i s)))"

lemma client_queue_open:
  assumes "sr_streams st p = Some s" and "client_inv rd u" and "link_inv s u" and "feeding (up_todo u)"
  obtains q where "client_queue p st u = Some q" "\<not> cclosed q"
    and "up_feeds u ! current u = Handed \<Longrightarrow> \<exists>i. position (current u) (up_loops u @ up_calls u) = Some i \<and> input_at i s = Some q"
proof -
  have "open_feed (up_feeds u ! current u)"
    using assms(2,4) by (auto simp: client_inv_def todo_ok_def split: if_splits)
  moreover have "\<exists>i q. position (current u) (up_loops u @ up_calls u) = Some i \<and> input_at i s = Some q \<and> \<not> cclosed q"
    if "up_feeds u ! current u = Handed"
    using assms(3,4) that queue_position [OF assms(3)] unfolding link_inv_def by metis
  ultimately show ?thesis using that assms(1)
    by (cases "up_feeds u ! current u") (auto simp: client_queue_def)
qed

lemma stream_step_input:
  assumes "sr_streams st p = Some s" and "input_at i s = Some q" and "\<not> cclosed q"
  shows "stream_step p (InputSend i packet) st = None \<longleftrightarrow> \<not> chan_room q"
    and "stream_step p (InputSend i packet) st \<noteq> Some (Inl x)"
    and "\<exists>st'. stream_step p (InputClose i) st = Some (Inr st')"
proof -
  show "stream_step p (InputSend i packet) st = None \<longleftrightarrow> \<not> chan_room q" "stream_step p (InputSend i packet) st \<noteq> Some (Inl x)"
      "\<exists>st'. stream_step p (InputClose i) st = Some (Inr st')"
    using assms by (auto simp: stream_step_def do_InputSend_def do_InputClose_def chan_try_send_def chan_close_def)
qed

lemma use_queue_progress:
  assumes "sr_streams st p = Some s" and "client_inv rd u" and "link_inv s u" and "feeding (up_todo u)"
    and "client_queue p st u = Some q"
  shows "use_queue (chan_try_send packet) (\<lambda>i. InputSend i packet) p st u = None \<longleftrightarrow> \<not> chan_room q"
    and "use_queue (chan_try_send packet) (\<lambda>i. InputSend i packet) p st u \<noteq> Some (Inl x)"
    and "\<exists>r. use_queue (\<lambda>q. map_sum id Some (chan_close q)) InputClose p st u = Some (Inr r)"
proof -
  obtain q1 where "client_queue p st u = Some q1" and open1: "\<not> cclosed q1"
    and i: "up_feeds u ! current u = Handed \<Longrightarrow> \<exists>i. position (current u) (up_loops u @ up_calls u) = Some i \<and> input_at i s = Some q1"
    using client_queue_open [OF assms(1-4)] by metis
  with assms(5) have q: "q1 = q" by simp
  have "(use_queue (chan_try_send packet) (\<lambda>i. InputSend i packet) p st u = None \<longleftrightarrow> \<not> chan_room q)
    \<and> use_queue (chan_try_send packet) (\<lambda>i. InputSend i packet) p st u \<noteq> Some (Inl x)
    \<and> (\<exists>r. use_queue (\<lambda>q. map_sum id Some (chan_close q)) InputClose p st u = Some (Inr r))"
  proof (cases "up_feeds u ! current u")
    case Handed
    then obtain i where i: "position (current u) (up_loops u @ up_calls u) = Some i" "input_at i s = Some q" using i q by blast
    have "\<not> cclosed q" using open1 q by simp
    note st = stream_step_input [OF assms(1) i(2) this]
    have "chan_try_send packet q = Inr (if chan_room q then Some (q\<lparr>cbuf := cbuf q @ [packet]\<rparr>) else None)"
      "chan_close q = Inr (q\<lparr>cclosed := True\<rparr>)" using open1 q by (simp_all add: chan_try_send_def chan_close_def)
    then show ?thesis using Handed assms(1) i st
      by (auto simp: use_queue_def map_go_Inl simp del: map_option_eq_Some)
  qed (use assms(5) open1 q in \<open>auto simp: client_queue_def use_queue_def chan_try_send_def chan_close_def\<close>)
  then show "use_queue (chan_try_send packet) (\<lambda>i. InputSend i packet) p st u = None \<longleftrightarrow> \<not> chan_room q"
    "use_queue (chan_try_send packet) (\<lambda>i. InputSend i packet) p st u \<noteq> Some (Inl x)"
    "\<exists>r. use_queue (\<lambda>q. map_sum id Some (chan_close q)) InputClose p st u = Some (Inr r)" by blast+
qed

lemma run_effect_progress:
  assumes "sr_streams st p = Some s" and "client_inv rd u" and "link_inv s u" and todo: "up_todo u = e # todo"
  shows "run_effect rate p e st u \<noteq> Some (Inl x)"
    and "run_effect rate p e st u = None \<longleftrightarrow>
      (\<exists>packet q. e = EffQueue packet \<and> client_queue p st u = Some q \<and> \<not> chan_room q)"
proof -
  have ok: "todo_ok (up_feeds u ! current u) (e # todo)" using assms(2) todo by (auto simp: client_inv_def split: if_splits)
  have q: "run_effect rate p e st u \<noteq> Some (Inl x) \<and> (run_effect rate p e st u = None \<longleftrightarrow>
      (\<exists>packet q. e = EffQueue packet \<and> client_queue p st u = Some q \<and> \<not> chan_room q))"
    if feed: "feeding (up_todo u)" and e: "e = EffCloseQueue \<or> (\<exists>packet. e = EffQueue packet)"
  proof -
    obtain q where q: "client_queue p st u = Some q" using client_queue_open [OF assms(1-3) feed] by metis
    note pr = use_queue_progress [OF assms(1-3) feed q]
    show ?thesis using e pr(3) q by (auto simp: pr(1,2) map_go_Inl simp del: map_option_eq_Some)
  qed
  show "run_effect rate p e st u \<noteq> Some (Inl x)" "run_effect rate p e st u = None \<longleftrightarrow>
      (\<exists>packet q. e = EffQueue packet \<and> client_queue p st u = Some q \<and> \<not> chan_room q)"
    using q ok todo by (cases e; auto simp: todo_ok_def)+
qed


section \<open>A refused connection\<close>

text \<open>A client that waits for room in a queue that was refused.\<close>

definition hanging :: "bytes chan \<Rightarrow> 's upstream \<Rightarrow> bool" where
  "hanging q u \<longleftrightarrow> (\<exists>packet todo. up_todo u = EffQueue packet # todo) \<and> current u < length (up_feeds u)
     \<and> up_feeds u ! current u = Refused q \<and> \<not> cclosed q \<and> \<not> chan_room q"

definition same_connection :: "'s upstream \<Rightarrow> 's upstream \<Rightarrow> bool" where
  "same_connection u u' \<longleftrightarrow> up_pulls u' = up_pulls u \<and> up_todo u' = up_todo u \<and> up_sent u' = up_sent u"

lemma hanging_blocked:
  assumes "us_clients sys p = Some u" and "hanging q u"
  shows "up_step rate nw (ClientStep p) sys = None" and "up_step rate nw (Connect p now later open_target) sys = None"
  using assms by (auto simp: hanging_def with_client_def connect_step_def use_queue_def chan_try_send_def)

lemma same_connection_refl: "same_connection u u"
  by (simp add: same_connection_def)

lemma hanging_step:
  assumes u: "us_clients sys p = Some u" and hang: "hanging q u" and step: "up_step rate nw a sys = Some (Inr sys')"
  shows "\<exists>u'. us_clients sys' p = Some u' \<and> hanging q u' \<and> same_connection u u'"
proof -
  have other: ?thesis if "with_client p' sys f = Some (Inr sys')" "p' \<noteq> p" for p' f
    using that u hang same_connection_refl by (auto elim!: with_client_Inr)
  show ?thesis
  proof (cases a)
    case (Connect p' now later open_target)
    then show ?thesis using step other [of p'] hanging_blocked(2) [OF u hang, of rate nw now later open_target] by (cases "p' = p") auto
  next
    case (ClientStep p')
    then show ?thesis using step other [of p'] hanging_blocked(1) [OF u hang, of rate nw] by (cases "p' = p") auto
  next
    case (CallStream p' k)
    show ?thesis
    proof (cases "p' = p")
      case False
      then show ?thesis using step CallStream other [of p'] by simp
    next
      case True
      then have "with_client p sys (call_step p k (us_server sys)) = Some (Inr sys')" using step CallStream by simp
      then show ?thesis
      proof (cases rule: with_client_Inr)
        case (1 v st' v')
        then have "v = u" using u by simp
        with 1(2) obtain f r where "up_feeds u ! k = Spawned r" "up_feeds v' = (up_feeds u)[k := f]" "same_connection u v'"
          by (auto simp: call_step_def map_go_Inr same_connection_def simp del: map_option_eq_Some split: option.splits if_splits feed.splits)
        moreover from this have "k \<noteq> current u" using hang by (auto simp: hanging_def)
        moreover have "current v' = current u" using \<open>same_connection u v'\<close> by (simp add: same_connection_def current_def)
        ultimately show ?thesis using hang 1(3) by (auto simp: hanging_def same_connection_def)
      qed
    qed
  next
    case (Elsewhere x)
    then have "us_clients sys' = tracked x sys" using step
      by (auto simp: map_go_Inr simp del: map_option_eq_Some server_step.simps split: if_splits)
    moreover have "\<exists>u'. tracked x sys p = Some u' \<and> up_feeds u' = up_feeds u \<and> same_connection u u'"
      using u by (cases x) (auto simp: same_connection_def split: option.split)
    ultimately show ?thesis using hang by (auto simp: hanging_def same_connection_def current_def)
  qed
qed

lemma hanging_reachable:
  assumes "us_clients sys p = Some u" and "hanging q u" and "up_reachable rate nw sys sys'"
  shows "\<exists>u'. us_clients sys' p = Some u' \<and> hanging q u' \<and> same_connection u u'"
  using assms(3)
proof (induction rule: up_reachable.induct)
  case up_start
  then show ?case using assms(1,2) same_connection_refl by blast
next
  case (up_next sys1 a sys2)
  then obtain v where v: "us_clients sys1 p = Some v" "hanging q v" "same_connection u v" by blast
  from hanging_step [OF v(1,2) up_next.hyps(2)] v(3) show ?case by (auto simp: same_connection_def)
qed

text \<open>
  C9. A refused connection hangs for ever. If \<open>Stream\<close> has refused the queue of a connection, because the loop
  of the connection before it was still running, and this queue is full, then in all states the server
  can get into afterwards the client still waits for room in it: it sends nothing more, it does not notice that the
  connection is gone, and it never connects again.\<close>

theorem refused_client_hangs:
  assumes "us_clients sys p = Some u" and "hanging q u" and "up_reachable rate nw sys sys'"
  shows "up_step rate nw (ClientStep p) sys' = None \<and> up_step rate nw (Connect p now later open_target) sys' = None
     \<and> (\<exists>u'. us_clients sys' p = Some u' \<and> same_connection u u')"
proof -
  from hanging_reachable [OF assms] obtain u' where u': "us_clients sys' p = Some u'" "hanging q u'" "same_connection u u'" by blast
  then show ?thesis using hanging_blocked [OF u'(1,2)] by simp
qed

section \<open>A refused connection of a server\<close>

lemma up_run_reachable:
  "up_reachable rate nw sys0 sys \<Longrightarrow> up_run rate nw as sys = Some (Inr sys') \<Longrightarrow> up_reachable rate nw sys0 sys'"
  by (induction as arbitrary: sys) (auto split: option.splits sum.splits intro: up_next)

lemma up_run_append:
  "up_run rate nw (as @ bs) sys =
     (case up_run rate nw as sys of None \<Rightarrow> None | Some (Inl x) \<Rightarrow> Some (Inl x) | Some (Inr sys') \<Rightarrow> up_run rate nw bs sys')"
  by (induction as arbitrary: sys) (auto split: option.split sum.split)

fun up_started :: "start_result go \<Rightarrow> bytes list up_sys option" where
  "up_started (Inr (ListenAndServe l sv acl nt hb)) = Some (up_init 0 sv acl nt)"
| "up_started _ = None"

text \<open>The server with two streams and an input buffer of one packet.\<close>

definition feed_config :: Configuration where
  "feed_config = twin_config\<lparr>InputBuffer := 1\<rparr>"

definition feed_start :: "bytes list up_sys" where
  "feed_start = the (up_started (start_server note_env feed_config))"

lemma feed_started: "map_option (\<lambda>sys. map_option (cl_queueSize \<circ> up_client) (us_clients sys ''/a'')) (up_started (start_server note_env feed_config)) = Some (Some 1)"
  by code_simp

lemma feed_main:
  obtains listen sv acl nt hb where
    "main note_env (Inr (Inr feed_config) :: (unit + Configuration) go) = Inr (ListenAndServe listen sv acl nt hb)"
    and "up_init 0 sv acl nt = feed_start"
proof -
  obtain listen sv acl nt hb where r: "start_server note_env feed_config = Inr (ListenAndServe listen sv acl nt hb)"
    using feed_started by (cases "start_server note_env feed_config" rule: up_started.cases) auto
  then have "up_init 0 sv acl nt = feed_start" by (simp add: feed_start_def)
  with r that show ?thesis by (simp add: main_def)
qed

declare read_loop.simps [code] pull_loop.simps [code]

definition socket_net :: "bytes list network" where
  "socket_net = \<lparr>nw_reader = stream_socket_read, nw_resolve = (\<lambda>_. Inr False), nw_unescape = Inr\<rparr>"

definition connects :: "bytes list \<Rightarrow> bytes list up_action" where
  "connects src = Connect ''/a'' 0 0 (\<lambda>_. Inr (src, Some 200))"

text \<open>The first connection has one packet. While the loop has not yet noticed its end, the second one starts.\<close>

definition client_steps :: "nat \<Rightarrow> bytes list up_action list" where
  "client_steps n = replicate n (ClientStep ''/a'')"

definition hang_actions :: "bytes list up_action list" where
  "hang_actions = connects [ts_packet 1] # client_steps 2 @ [CallStream ''/a'' 0, Elsewhere (AtStream ''/a'' (EatStart 0))]
     @ client_steps 4 @ connects [ts_packet 2, ts_packet 3] # client_steps 2 @ CallStream ''/a'' 1 # client_steps 3"

definition end_actions :: "bytes list up_action list" where
  "end_actions = map (Elsewhere \<circ> AtStream ''/a'') [LoopPacket 0 [], Distribute 0, LoopClosed 0 [], Cleanup 0]"

definition full_queue :: "bytes chan" where
  "full_queue = (make_chan 1)\<lparr>cbuf := [ts_packet 2]\<rparr>"

lemma hang_value:
  "map_option (map_sum id (\<lambda>sys. map_option (\<lambda>u. (up_todo u, up_feeds u, length (up_pulls u))) (us_clients sys ''/a'')))
     (up_run (\<lambda>n d. n) socket_net hang_actions feed_start) =
   Some (Inr (Some ([EffQueue (ts_packet 3), EffCloseQueue, EffSourceDisconnected], [Handed, Refused full_queue], 2)))"
  by code_simp

lemma end_value:
  "map_option (map_sum id (\<lambda>sys. map_option is_running (sr_streams (us_server sys) ''/a'')))
     (up_run (\<lambda>n d. n) socket_net (hang_actions @ end_actions) feed_start) = Some (Inr (Some False))"
  by code_simp

lemma hang_run:
  obtains sys u where "up_run (\<lambda>n d. n) socket_net hang_actions feed_start = Some (Inr sys)"
    and "us_clients sys ''/a'' = Some u" and "hanging full_queue u"
proof -
  obtain sys u where "up_run (\<lambda>n d. n) socket_net hang_actions feed_start = Some (Inr sys)" "us_clients sys ''/a'' = Some u"
      "up_todo u = [EffQueue (ts_packet 3), EffCloseQueue, EffSourceDisconnected]" "up_feeds u = [Handed, Refused full_queue]" "length (up_pulls u) = 2"
    using run_value [OF hang_value] by auto
  then show ?thesis using that by (simp add: hanging_def current_def full_queue_def make_chan_def chan_room_def)
qed


theorem refused_client_hangs_witness:
  "\<exists>sys sys' s. up_run (\<lambda>n d. n) socket_net hang_actions feed_start = Some (Inr sys)
     \<and> up_run (\<lambda>n d. n) socket_net end_actions sys = Some (Inr sys')
     \<and> sr_streams (us_server sys') ''/a'' = Some s \<and> \<not> is_running s
     \<and> up_step (\<lambda>n d. n) socket_net (ClientStep ''/a'') sys' = None
     \<and> up_step (\<lambda>n d. n) socket_net (connects []) sys' = None"
proof -
  obtain sys u where sys: "up_run (\<lambda>n d. n) socket_net hang_actions feed_start = Some (Inr sys)"
    "us_clients sys ''/a'' = Some u" "hanging full_queue u" by (rule hang_run)
  obtain sys' s where sys': "up_run (\<lambda>n d. n) socket_net end_actions sys = Some (Inr sys')"
    "sr_streams (us_server sys') ''/a'' = Some s" "\<not> is_running s"
    using run_value [OF end_value] sys(1) by (auto simp: up_run_append)
  from refused_client_hangs [OF sys(2,3) up_run_reachable [OF up_start sys'(1)], of 0 0 "\<lambda>_. Inr ([], Some 200)"] show ?thesis
    using sys(1) sys' unfolding connects_def by blast
qed

end
