(* ===== verification/Read_Timer.thy ===== *)
theory Read_Timer
  imports Upstream_Client
begin

text \<open>
  \<open>streaming/client.go\<close>: the read timer of \<open>pull\<close>. Before each read a timer is armed whose function
  closes the input of the client, in a goroutine of its own. This theory has the interleaving of the
  connection goroutine, reduced to what concerns the input, with the timer and its functions; what is
  read and done with it is in \<open>Upstream_Client\<close>.

  Connections are numbered. A read of a connection that has been closed gives an error, as the
  documentation of \<open>io.Closer\<close> implementations such as \<open>net.Conn\<close> says; all other reads may return data
  or an error at any time, or not return.
\<close>

section \<open>State and steps\<close>

text \<open>Where the goroutine is: between two connections, at the head of the loop of \<open>pull\<close>, in
  \<open>ReadMpegTsPacket\<close>, after it (with whether there was an error), and in the cleanup of \<open>start\<close>.\<close>

datatype pull_pc = Idle | LoopHead | Reading | ReadDone bool | CleanUp

text \<open>\<open>ts_fired\<close> are the timer functions that have been started but have not run yet, each with the
  connection the timer was armed for.\<close>

record timer_state =
  ts_pc :: pull_pc
  ts_running :: AtomicBool
  ts_input :: "nat option"
  ts_opened :: nat
  ts_closed :: "nat set"
  ts_timer :: "nat option"
  ts_fired :: "nat list"

definition timer_init :: timer_state where
  "timer_init = \<lparr>ts_pc = Idle, ts_running = AtomicFalse, ts_input = None, ts_opened = 0, ts_closed = {},
     ts_timer = None, ts_fired = []\<rparr>"

datatype timer_action = Open | Arm | Leave | Fire | RunFired nat | Read bool | Stop | Clean

text \<open>The function of a timer: it closes the input that the client has when it runs.\<close>

definition timeout_function :: "timer_state \<Rightarrow> timer_state go" where
  "timeout_function s =
     (case ts_input s of
        None \<Rightarrow> Inl NilDereference
      | Some c \<Rightarrow> Inr (s\<lparr>ts_closed := insert c (ts_closed s)\<rparr>))"

text \<open>The steps; \<open>timeout\<close> is \<open>client.ReadTimeout\<close>.\<close>

inductive timer_step :: "int \<Rightarrow> timer_action \<Rightarrow> timer_state \<Rightarrow> timer_state go \<Rightarrow> bool" for timeout where
  opens: "ts_pc s = Idle \<Longrightarrow> ts_input s = None \<Longrightarrow>
    timer_step timeout Open s (Inr (s\<lparr>ts_pc := LoopHead, ts_running := StoreBool True (ts_running s),
      ts_input := Some (ts_opened s), ts_opened := ts_opened s + 1\<rparr>))"
| arm: "ts_pc s = LoopHead \<Longrightarrow> LoadBool (ts_running s) \<Longrightarrow>
    timer_step timeout Arm s (Inr (s\<lparr>ts_pc := Reading, ts_timer := if 0 < timeout then ts_input s else None\<rparr>))"
| leave: "ts_pc s = LoopHead \<Longrightarrow> \<not> LoadBool (ts_running s) \<Longrightarrow> timer_step timeout Leave s (Inr (s\<lparr>ts_pc := CleanUp\<rparr>))"
| fire: "ts_timer s = Some c \<Longrightarrow> timer_step timeout Fire s (Inr (s\<lparr>ts_timer := None, ts_fired := ts_fired s @ [c]\<rparr>))"
| fired: "i < length (ts_fired s) \<Longrightarrow>
    timer_step timeout (RunFired i) s (timeout_function (s\<lparr>ts_fired := remove_nth i (ts_fired s)\<rparr>))"
| read: "ts_pc s = Reading \<Longrightarrow> ts_input s = Some c \<Longrightarrow> c \<in> ts_closed s \<longrightarrow> err \<Longrightarrow>
    timer_step timeout (Read err) s (Inr (s\<lparr>ts_pc := ReadDone err\<rparr>))"
| stop: "ts_pc s = ReadDone err \<Longrightarrow>
    timer_step timeout Stop s (Inr (s\<lparr>ts_pc := LoopHead, ts_timer := None,
      ts_running := if err then StoreBool False (ts_running s) else ts_running s\<rparr>))"
| clean: "ts_pc s = CleanUp \<Longrightarrow> ts_input s = Some c \<Longrightarrow>
    timer_step timeout Clean s (Inr (s\<lparr>ts_pc := Idle, ts_closed := insert c (ts_closed s), ts_input := None\<rparr>))"

inductive timer_reachable :: "int \<Rightarrow> timer_state \<Rightarrow> bool" for timeout where
  init: "timer_reachable timeout timer_init"
| step: "timer_reachable timeout s \<Longrightarrow> timer_step timeout a s (Inr s') \<Longrightarrow> timer_reachable timeout s'"

section \<open>Invariant\<close>

text \<open>The input is there exactly during a connection; the timer is armed only while reading, for this
  input; a reader that waits with a time limit has the timer armed, or a timer function under way, or
  its input closed.\<close>

definition timer_inv :: "int \<Rightarrow> timer_state \<Rightarrow> bool" where
  "timer_inv timeout s \<longleftrightarrow>
     (ts_input s = None \<longleftrightarrow> ts_pc s = Idle)
     \<and> (\<forall>c. ts_timer s = Some c \<longrightarrow> ts_input s = Some c \<and> 0 < timeout \<and> (ts_pc s = Reading \<or> (\<exists>e. ts_pc s = ReadDone e)))
     \<and> (\<forall>c. ts_input s = Some c \<and> ts_pc s = Reading \<and> 0 < timeout \<longrightarrow>
          ts_timer s \<noteq> None \<or> ts_fired s \<noteq> [] \<or> c \<in> ts_closed s)
     \<and> (timeout \<le> 0 \<longrightarrow> ts_fired s = [])"

lemma timeout_function_Inr:
  "Inr s' = timeout_function s \<longleftrightarrow> (\<exists>c. ts_input s = Some c \<and> s' = s\<lparr>ts_closed := insert c (ts_closed s)\<rparr>)"
  by (auto simp: timeout_function_def split: option.splits)

lemma timer_inv_step:
  assumes "timer_step timeout a s (Inr s')" and "timer_inv timeout s"
  shows "timer_inv timeout s'"
  using assms(1)
proof (cases rule: timer_step.cases)
  case (fired i)
  then obtain c where "ts_input s = Some c"
    "s' = s\<lparr>ts_fired := remove_nth i (ts_fired s), ts_closed := insert c (ts_closed s)\<rparr>"
    by (auto simp: timeout_function_Inr)
  then show ?thesis using assms(2) fired by (auto simp: timer_inv_def remove_nth_def)
qed (use assms(2) in \<open>auto simp: timer_inv_def\<close>)

lemma timer_inv_reachable: "timer_reachable timeout s \<Longrightarrow> timer_inv timeout s"
proof (induction rule: timer_reachable.induct)
  case init
  show ?case by (simp add: timer_inv_def timer_init_def)
qed (rule timer_inv_step)

section \<open>A silent upstream\<close>

text \<open>The steps that need no data: all but the start of a connection and reads that succeed.\<close>

fun silent :: "timer_action \<Rightarrow> bool" where
  "silent Open = False"
| "silent (Read err) = err"
| "silent _ = True"

inductive silent_run :: "int \<Rightarrow> timer_state \<Rightarrow> nat \<Rightarrow> timer_state \<Rightarrow> bool" for timeout where
  none: "silent_run timeout s 0 s"
| more: "silent a \<Longrightarrow> timer_step timeout a s (Inr s1) \<Longrightarrow> silent_run timeout s1 n s' \<Longrightarrow> silent_run timeout s (Suc n) s'"

fun rank :: "bool \<Rightarrow> pull_pc \<Rightarrow> nat" where
  "rank running Idle = 0"
| "rank running CleanUp = 1"
| "rank running LoopHead = (if running then 5 else 2)"
| "rank running (ReadDone err) = (if err then 3 else 6)"
| "rank running Reading = 4"

definition silent_budget :: "timer_state \<Rightarrow> nat" where
  "silent_budget s = 4 * rank (LoadBool (ts_running s)) (ts_pc s) + (if ts_timer s = None then 0 else 2) + length (ts_fired s)"

lemma silent_decreases:
  assumes "silent a" and "timer_step timeout a s (Inr s')" and "timer_inv timeout s"
  shows "silent_budget s' < silent_budget s"
  using assms(2)
proof (cases rule: timer_step.cases)
  case (fired i)
  then show ?thesis by (auto simp: timeout_function_Inr silent_budget_def remove_nth_def)
qed (use assms(1,3) in \<open>auto simp: silent_budget_def timer_inv_def split: if_splits\<close>)

lemma silent_run_bound:
  "silent_run timeout s n s' \<Longrightarrow> timer_inv timeout s \<Longrightarrow> n + silent_budget s' \<le> silent_budget s \<and> timer_inv timeout s'"
proof (induction rule: silent_run.induct)
  case (more a s s1 n s')
  then show ?case using silent_decreases [OF more.hyps(1,2)] timer_inv_step [OF more.hyps(2)] by fastforce
qed simp

lemma silent_progress:
  assumes "timer_inv timeout s" and "0 < timeout" and "ts_pc s \<noteq> Idle"
  shows "\<exists>a s'. silent a \<and> timer_step timeout a s (Inr s')"
proof (cases "ts_pc s")
  case Reading
  obtain c where c: "ts_input s = Some c" using assms(1,3) by (auto simp: timer_inv_def)
  consider "ts_timer s \<noteq> None" | "ts_fired s \<noteq> []" | "c \<in> ts_closed s"
    using assms(1,2) Reading c unfolding timer_inv_def by blast
  then show ?thesis
  proof cases
    case 1
    then show ?thesis using timer_step.fire [of s _ timeout] by (auto intro!: exI [of _ Fire])
  next
    case 2
    then show ?thesis using timer_step.fired [of 0 s timeout] c
      by (intro exI [of _ "RunFired 0"]) (auto simp: timeout_function_def)
  next
    case 3
    then show ?thesis using timer_step.read [OF Reading c, of True timeout] by (auto intro!: exI [of _ "Read True"])
  qed
next
  case LoopHead
  then show ?thesis using timer_step.arm [OF LoopHead, of timeout] timer_step.leave [OF LoopHead, of timeout]
    by (cases "LoadBool (ts_running s)") (force intro: exI [of _ Arm], force intro: exI [of _ Leave])
next
  case (ReadDone err)
  then show ?thesis using timer_step.stop [OF ReadDone, of timeout] by (auto intro!: exI [of _ Stop])
next
  case CleanUp
  then obtain c where "ts_input s = Some c" using assms(1) by (auto simp: timer_inv_def)
  then show ?thesis using timer_step.clean [OF CleanUp, of c timeout] by (auto intro!: exI [of _ Clean])
qed (use assms(3) in simp)


text \<open>An executable form of the relation, for examples.\<close>

fun timer_next :: "int \<Rightarrow> timer_action \<Rightarrow> timer_state \<Rightarrow> timer_state go option" where
  "timer_next timeout Open s =
     (if ts_pc s = Idle \<and> ts_input s = None
      then Some (Inr (s\<lparr>ts_pc := LoopHead, ts_running := StoreBool True (ts_running s),
                      ts_input := Some (ts_opened s), ts_opened := ts_opened s + 1\<rparr>)) else None)"
| "timer_next timeout Arm s =
     (if ts_pc s = LoopHead \<and> LoadBool (ts_running s)
      then Some (Inr (s\<lparr>ts_pc := Reading, ts_timer := if 0 < timeout then ts_input s else None\<rparr>)) else None)"
| "timer_next timeout Leave s =
     (if ts_pc s = LoopHead \<and> \<not> LoadBool (ts_running s) then Some (Inr (s\<lparr>ts_pc := CleanUp\<rparr>)) else None)"
| "timer_next timeout Fire s =
     (case ts_timer s of Some c \<Rightarrow> Some (Inr (s\<lparr>ts_timer := None, ts_fired := ts_fired s @ [c]\<rparr>)) | None \<Rightarrow> None)"
| "timer_next timeout (RunFired i) s =
     (if i < length (ts_fired s) then Some (timeout_function (s\<lparr>ts_fired := remove_nth i (ts_fired s)\<rparr>)) else None)"
| "timer_next timeout (Read err) s =
     (case ts_input s of
        Some c \<Rightarrow> if ts_pc s = Reading \<and> (c \<in> ts_closed s \<longrightarrow> err) then Some (Inr (s\<lparr>ts_pc := ReadDone err\<rparr>)) else None
      | None \<Rightarrow> None)"
| "timer_next timeout Stop s =
     (case ts_pc s of
        ReadDone err \<Rightarrow> Some (Inr (s\<lparr>ts_pc := LoopHead, ts_timer := None,
          ts_running := if err then StoreBool False (ts_running s) else ts_running s\<rparr>))
      | _ \<Rightarrow> None)"
| "timer_next timeout Clean s =
     (case ts_input s of
        Some c \<Rightarrow> if ts_pc s = CleanUp
                  then Some (Inr (s\<lparr>ts_pc := Idle, ts_closed := insert c (ts_closed s), ts_input := None\<rparr>)) else None
      | None \<Rightarrow> None)"

lemma timer_next_step: "timer_next timeout a s = Some r \<Longrightarrow> timer_step timeout a s r"
  by (cases a) (auto simp: timer_step.simps split: if_splits option.splits pull_pc.splits)

lemma timer_step_next: "timer_step timeout a s r \<Longrightarrow> timer_next timeout a s = Some r"
  by (induction rule: timer_step.induct) auto

fun timer_run :: "int \<Rightarrow> timer_action list \<Rightarrow> timer_state \<Rightarrow> timer_state go option" where
  "timer_run timeout [] s = Some (Inr s)"
| "timer_run timeout (a # as) s =
     (case timer_next timeout a s of Some (Inr s') \<Rightarrow> timer_run timeout as s' | r \<Rightarrow> r)"

lemma timer_run_reachable:
  "timer_reachable timeout s \<Longrightarrow> timer_run timeout as s = Some (Inr s') \<Longrightarrow> timer_reachable timeout s'"
  by (induction as arbitrary: s) (auto split: option.splits sum.splits dest: timer_next_step intro: timer_reachable.step)

lemma timer_run_silent:
  "list_all silent as \<Longrightarrow> timer_run timeout as s = Some (Inr s') \<Longrightarrow> silent_run timeout s (length as) s'"
  by (induction as arbitrary: s) (auto split: option.splits sum.splits dest: timer_next_step intro: silent_run.intros)


section \<open>Late timer functions\<close>

text \<open>If every timer function that has been started runs before the connection is cleaned up, it closes
  the connection its timer was armed for and nothing panics.\<close>

inductive prompt_reachable :: "int \<Rightarrow> timer_state \<Rightarrow> bool" for timeout where
  prompt_init: "prompt_reachable timeout timer_init"
| prompt_step: "prompt_reachable timeout s \<Longrightarrow> timer_step timeout a s (Inr s') \<Longrightarrow> a = Clean \<longrightarrow> ts_fired s = [] \<Longrightarrow>
    prompt_reachable timeout s'"

lemma prompt_reachable_reachable: "prompt_reachable timeout s \<Longrightarrow> timer_reachable timeout s"
  by (induction rule: prompt_reachable.induct) (auto intro: timer_reachable.intros)

lemma prompt_own_connection:
  assumes "prompt_reachable timeout s"
  shows "\<forall>c \<in> set (ts_fired s). ts_input s = Some c"
  using assms
proof induction
  case prompt_init
  show ?case by (simp add: timer_init_def)
next
  case (prompt_step s a s')
  note inv = timer_inv_reachable [OF prompt_reachable_reachable [OF prompt_step.hyps(1)]]
  from prompt_step.hyps(2) show ?case
  proof (cases rule: timer_step.cases)
    case (fired i)
    then show ?thesis using prompt_step.IH
      by (fastforce simp: timeout_function_Inr remove_nth_def dest: in_set_takeD in_set_dropD)
  qed (use prompt_step inv in \<open>auto simp: timer_inv_def\<close>)
qed

lemma prompt_never_panics:
  assumes "prompt_reachable timeout s"
  shows "\<not> timer_step timeout a s (Inl p)"
proof
  assume "timer_step timeout a s (Inl p)"
  then obtain i where i: "i < length (ts_fired s)" "Inl p = timeout_function (s\<lparr>ts_fired := remove_nth i (ts_fired s)\<rparr>)"
    by (cases rule: timer_step.cases) auto
  moreover have "ts_input s \<noteq> None" using prompt_own_connection [OF assms] i(1) by (cases "ts_fired s") auto
  ultimately show False by (auto simp: timeout_function_def)
qed


end
