(* ===== verification/Fork_Reader.thy ===== *)
theory Fork_Reader
  imports Packet_Reader
begin

text \<open>
  \<open>protocol/fork.go\<close>: a reader for the output of a child process. The operating system's answers are
  arguments: the two pipes, the start of the process, and its end. Log lines are values. The goroutine
  that logs the error output is modelled over the bytes that come on this pipe and the error
  that ends them.
\<close>

section \<open>The reader\<close>

datatype fork_event =
    ForkStarted
  | ForkChildMessage bytes
  | ForkStderrRead
  | ForkExit int

record 's ForkReader =
  fk_command :: string
  fk_arguments :: "string list"
  fk_dataInput :: 's
  fk_errorInput :: 's

definition ForkReader_Read :: "'s io_reader \<Rightarrow> 's ForkReader io_reader" where
  "ForkReader_Read rd n f = (case rd n (fk_dataInput f) of (data, err, s) \<Rightarrow> (data, err, f\<lparr>fk_dataInput := s\<rparr>))"

text \<open>\<open>kill\<close> is what \<open>Process.Kill\<close> returns.\<close>

definition ForkReader_Close :: "'e option \<Rightarrow> 's ForkReader \<Rightarrow> 'e option" where
  "ForkReader_Close kill f = kill"

definition NewForkReader ::
  "'e + 's \<Rightarrow> 'e + 's \<Rightarrow> 'e option \<Rightarrow> string \<Rightarrow> string list \<Rightarrow> ('e + 's ForkReader) \<times> fork_event list" where
  "NewForkReader stdout_pipe stderr_pipe start command arguments =
     (case stdout_pipe of
        Inl err \<Rightarrow> (Inl err, [])
      | Inr stdout \<Rightarrow>
          (case stderr_pipe of
             Inl err \<Rightarrow> (Inl err, [])
           | Inr stderr \<Rightarrow>
               (case start of
                  Some err \<Rightarrow> (Inl err, [])
                | None \<Rightarrow> (Inr \<lparr>fk_command = command, fk_arguments = arguments, fk_dataInput = stdout, fk_errorInput = stderr\<rparr>,
                           [ForkStarted]))))"

section \<open>The goroutines\<close>

text \<open>\<open>bufio.Reader.ReadString\<close> on a stream of bytes that ends with an error: the bytes up to and
  including the delimiter, or all bytes and the error.\<close>

definition ReadString :: "u8 \<Rightarrow> io_error \<Rightarrow> bytes \<Rightarrow> bytes \<times> io_error option \<times> bytes" where
  "ReadString delim end_err bs =
     (if delim \<in> set bs
      then (takeWhile (\<lambda>b. b \<noteq> delim) bs @ [delim], None, tl (dropWhile (\<lambda>b. b \<noteq> delim) bs))
      else (bs, Some end_err, []))"

definition newline :: u8 where "newline = 10"

lemma ReadString_shorter:
  assumes "ReadString delim e bs = (line, None, rest)"
  shows "length rest < length bs"
proof -
  have "delim \<in> set bs" and rest: "rest = tl (dropWhile (\<lambda>b. b \<noteq> delim) bs)"
    using assms by (auto simp: ReadString_def split: if_splits)
  then have "dropWhile (\<lambda>b. b \<noteq> delim) bs \<noteq> []" by (auto simp: dropWhile_eq_Nil_conv)
  then show ?thesis using rest length_dropWhile_le [of "\<lambda>b. b \<noteq> delim" bs]
    by (cases "dropWhile (\<lambda>b. b \<noteq> delim) bs") auto
qed

function stderr_loop :: "io_error \<Rightarrow> bytes \<Rightarrow> fork_event list" where
  "stderr_loop end_err bs =
     (case ReadString newline end_err bs of
        (line, err, rest) \<Rightarrow>
          (if err \<noteq> None \<and> err \<noteq> Some EOF then [ForkStderrRead] else [])
          @ ForkChildMessage line # (if err = None then stderr_loop end_err rest else []))"
  by pat_completeness auto
termination
  by (relation "measure (length \<circ> snd)") (auto dest: ReadString_shorter [OF sym])

declare stderr_loop.simps [simp del]

text \<open>The end of the process, with its exit code.\<close>

definition wait_log :: "'e option \<Rightarrow> int \<Rightarrow> fork_event list" where
  "wait_log err code = (if err \<noteq> None then [ForkExit code] else [])"

section \<open>Properties\<close>

context byte_source
begin

lemma fork_byte_source:
  "byte_source (ForkReader_Read rd) (bytes_left \<circ> fk_dataInput) (invar \<circ> fk_dataInput)"
proof
  fix f :: "'s ForkReader" and n :: nat
  assume f: "(invar \<circ> fk_dataInput) f" "0 < n"
  show "(bytes_left \<circ> fk_dataInput) f \<noteq> [] \<Longrightarrow> \<exists>d f'. ForkReader_Read rd n f = (d, None, f') \<and> d \<noteq> [] \<and> length d \<le> n
      \<and> (bytes_left \<circ> fk_dataInput) f = d @ (bytes_left \<circ> fk_dataInput) f' \<and> (invar \<circ> fk_dataInput) f'"
    using read_data [of "fk_dataInput f" n] f by (auto simp: ForkReader_Read_def)
  show "(bytes_left \<circ> fk_dataInput) f = [] \<Longrightarrow> \<exists>e f'. ForkReader_Read rd n f = ([], Some e, f')
      \<and> (bytes_left \<circ> fk_dataInput) f' = [] \<and> (invar \<circ> fk_dataInput) f'"
    using read_end [of "fk_dataInput f" n] f by (auto simp: ForkReader_Read_def)
qed

end

text \<open>The output of a child process that is read from a pipe.\<close>

interpretation fork_reader: byte_source "ForkReader_Read stream_socket_read" "concat \<circ> fk_dataInput"
  "(\<lambda>cs. [] \<notin> set cs) \<circ> fk_dataInput"
  by (rule stream_socket.fork_byte_source)

definition messages :: "fork_event list \<Rightarrow> bytes list" where
  "messages evs = [line. ForkChildMessage line \<leftarrow> evs]"

definition is_line :: "bytes \<Rightarrow> bool" where
  "is_line l \<longleftrightarrow> l \<noteq> [] \<and> last l = newline \<and> newline \<notin> set (butlast l)"

lemma messages_simps [simp]:
  "messages (ForkChildMessage l # evs) = l # messages evs"
  "messages (ForkStderrRead # evs) = messages evs"
  "messages [] = []"
  by (simp_all add: messages_def)

text \<open>
  C39. The error output of a child process is logged completely: the messages put together are the bytes
  of the pipe; all but the last are lines that end with their only line break, the last one has none
  (and may be empty); a read error other than the end of file is reported exactly once.\<close>

theorem stderr_logged:
  "concat (messages (stderr_loop end_err bs)) = bs
   \<and> (\<exists>lns rest. messages (stderr_loop end_err bs) = lns @ [rest] \<and> list_all is_line lns \<and> newline \<notin> set rest)
   \<and> length (filter (\<lambda>ev. ev = ForkStderrRead) (stderr_loop end_err bs)) = (if end_err = EOF then 0 else 1)"
proof (induction end_err bs rule: stderr_loop.induct)
  case (1 end_err bs)
  show ?case
  proof (cases "newline \<in> set bs")
    case False
    then have "stderr_loop end_err bs = (if end_err = EOF then [] else [ForkStderrRead]) @ [ForkChildMessage bs]"
      by (simp add: stderr_loop.simps [of _ bs] ReadString_def)
    then show ?thesis using False by (auto intro: exI [of _ "[]"])
  next
    case True
    then obtain w rest where bs: "bs = w @ newline # rest" and w: "newline \<notin> set w"
      by (meson split_list_first)
    then have rs: "ReadString newline end_err bs = (w @ [newline], None, rest)"
      using span_first [OF w, of rest] by (simp add: ReadString_def)
    then have loop: "stderr_loop end_err bs = ForkChildMessage (w @ [newline]) # stderr_loop end_err rest"
      by (simp add: stderr_loop.simps [of _ bs])
    from 1 rs have IH: "concat (messages (stderr_loop end_err rest)) = rest"
      "length (filter (\<lambda>ev. ev = ForkStderrRead) (stderr_loop end_err rest)) = (if end_err = EOF then 0 else 1)"
      "\<exists>lns r. messages (stderr_loop end_err rest) = lns @ [r] \<and> list_all is_line lns \<and> newline \<notin> set r" by auto
    from IH(3) obtain lns r where "messages (stderr_loop end_err rest) = lns @ [r]" "list_all is_line lns" "newline \<notin> set r" by blast
    then have "messages (stderr_loop end_err bs) = ((w @ [newline]) # lns) @ [r] \<and> list_all is_line ((w @ [newline]) # lns) \<and> newline \<notin> set r"
      using loop w by (simp add: is_line_def)
    then show ?thesis using IH(1,2) loop bs by (intro conjI exI) auto
  qed
qed

end
