(* ===== verification/State_Manager.thy ===== *)
theory State_Manager
  imports Util_Basic
begin

text \<open>
  \<open>streaming/manager.go\<close>: a list of channels that are told about a state change once. Channels are
  shared objects; they are numbered and a store has their contents. The order in which the keys of a Go
  map are visited is not specified, so it is an argument of \<open>Notify\<close>.
\<close>

record StateManager =
  notifiables :: "nat \<rightharpoonup> bool"

definition NewStateManager :: StateManager where
  "NewStateManager = \<lparr>notifiables = Map.empty\<rparr>"

definition Register :: "nat \<Rightarrow> StateManager \<Rightarrow> StateManager" where
  "Register channel manager = manager\<lparr>notifiables := (notifiables manager)(channel \<mapsto> True)\<rparr>"

definition Unregister :: "nat \<Rightarrow> StateManager \<Rightarrow> StateManager" where
  "Unregister channel manager = manager\<lparr>notifiables := (notifiables manager)(channel := None)\<rparr>"

text \<open>The loop of \<open>Notify\<close>; \<open>Inr None\<close> while a send is blocked.\<close>

fun notify_loop :: "nat list \<Rightarrow> (nat \<Rightarrow> bool chan) \<Rightarrow> (nat \<Rightarrow> bool chan) option go" where
  "notify_loop [] chans = Inr (Some chans)"
| "notify_loop (c # cs) chans =
     (case chan_try_send True (chans c) of
        Inl p \<Rightarrow> Inl p
      | Inr None \<Rightarrow> Inr None
      | Inr (Some q) \<Rightarrow> notify_loop cs (chans(c := q)))"

definition Notify :: "nat list \<Rightarrow> (nat \<Rightarrow> bool chan) \<Rightarrow> StateManager \<Rightarrow> ((nat \<Rightarrow> bool chan) \<times> StateManager) option go" where
  "Notify order chans manager =
     map_sum id (map_option (\<lambda>chans'. (chans', manager\<lparr>notifiables := Map.empty\<rparr>))) (notify_loop order chans)"

section \<open>Properties\<close>

definition registered :: "nat \<Rightarrow> StateManager \<Rightarrow> bool" where
  "registered channel manager \<longleftrightarrow> notifiables manager channel \<noteq> None"

text \<open>Registration keeps a set of channels.\<close>

interpretation notified_channels: finite_set_adt NewStateManager Register Unregister registered
  by unfold_locales (auto simp: NewStateManager_def Register_def Unregister_def registered_def)

text \<open>The order in which the map is visited: every key once.\<close>

definition visits :: "nat list \<Rightarrow> StateManager \<Rightarrow> bool" where
  "visits order manager \<longleftrightarrow> distinct order \<and> set order = {c. registered c manager}"

lemma notify_loop_sends:
  assumes "distinct cs" and "\<forall>c \<in> set cs. \<not> cclosed (chans c) \<and> chan_room (chans c)"
  shows "notify_loop cs chans = Inr (Some (\<lambda>c. if c \<in> set cs then chans c\<lparr>cbuf := cbuf (chans c) @ [True]\<rparr> else chans c))"
  using assms
proof (induction cs arbitrary: chans)
  case (Cons c cs)
  let ?q = "chans c\<lparr>cbuf := cbuf (chans c) @ [True]\<rparr>"
  have "chan_try_send True (chans c) = Inr (Some ?q)" using Cons.prems by (simp add: chan_try_send_def)
  moreover have "notify_loop cs (chans(c := ?q)) = Inr (Some (\<lambda>d. if d \<in> set cs
      then (chans(c := ?q)) d\<lparr>cbuf := cbuf ((chans(c := ?q)) d) @ [True]\<rparr> else (chans(c := ?q)) d))"
    using Cons.prems by (intro Cons.IH) auto
  ultimately show ?case using Cons.prems by (auto simp: fun_eq_iff)
qed simp

text \<open>
  A notification is sent exactly once to every channel that is registered, in whatever order they are
  visited, and to no other; afterwards none is registered, so that a further notification has no effect.
  The channels have to be open and to have room.\<close>

theorem Notify_once:
  assumes "manager = fold Unregister gone (fold Register came NewStateManager)" and "visits order manager"
    and "\<forall>c \<in> set came - set gone. \<not> cclosed (chans c) \<and> chan_room (chans c)"
  shows "\<exists>chans'. Notify order chans manager = Inr (Some (chans', NewStateManager))
    \<and> (\<forall>c. chans' c = (if c \<in> set came - set gone then chans c\<lparr>cbuf := cbuf (chans c) @ [True]\<rparr> else chans c))
    \<and> (\<forall>order'. visits order' NewStateManager \<longrightarrow> Notify order' chans' NewStateManager = Inr (Some (chans', NewStateManager)))"
proof -
  have reg: "{c. registered c manager} = set came - set gone"
    using notified_channels.contains_build assms(1) by auto
  then have "set order = set came - set gone" "distinct order" using assms(2) by (auto simp: visits_def)
  moreover have "order' = []" if "visits order' NewStateManager" for order'
    using that notified_channels.contains_empty by (simp add: visits_def)
  moreover have "Notify [] chs NewStateManager = Inr (Some (chs, NewStateManager))" for chs
    by (simp add: Notify_def NewStateManager_def)
  moreover have "manager\<lparr>notifiables := Map.empty\<rparr> = NewStateManager" by (simp add: NewStateManager_def)
  ultimately show ?thesis
    using assms(3) notify_loop_sends [of order chans] by (auto simp: Notify_def [of order])
qed

lemma Notify_closed_panics:
  assumes "cclosed (chans c)" and "\<forall>d \<in> set pre. \<not> cclosed (chans d) \<and> chan_room (chans d)" and "distinct (pre @ [c])"
  shows "Notify (pre @ c # post) chans manager = Inl SendOnClosedChannel"
proof -
  have "notify_loop (pre @ c # post) chans = Inl SendOnClosedChannel"
    using assms by (induction pre arbitrary: chans) (auto simp: chan_try_send_def)
  then show ?thesis by (simp add: Notify_def)
qed

end
