(* ===== verification/Spec2Isabelle.thy ===== *)
theory Spec2Isabelle
  imports Server_Http Upstream_Progress Read_Timer Fork_Reader State_Manager Config_Load
begin

text \<open>
  Verification of restreamer, a server that pulls MPEG transport streams from upstream servers and
  multiplies them to HTTP clients.

  \<^bold>\<open>The program.\<close> \<open>main\<close> reads a configuration and builds, for each stream, a streamer and an upstream
  client, and for other resources a caching proxy or an API handler; all are registered by path in an
  HTTP multiplexer. An upstream client connects to one of its servers in turn, reads packets of 188
  bytes, finds the packet boundaries again after garbage, and sends the packets to a queue that it hands
  to its streamer with \<open>Stream\<close>. The loop of the streamer puts each packet into the queues of the
  connections in its pool; a queue that is full loses the packet. An HTTP handler asks the loop to add
  its connection, copies packets from its queue to the response until the client goes away, the write
  fails or the queue is closed, asks the loop to remove it, drains the queue and gives its place back to
  the access controller, which limits the connections of all streams. Every handler first asks an
  authenticator. Streamers and clients report to statistics collectors, whose sums a loop publishes for
  the API, and to an event queue, which calls URL handlers when the number of connections crosses a
  limit, and at each heartbeat.

  \<^bold>\<open>Theories and sources\<close> (under \<open>src/\<close>).

  \<^item> \<open>Go_Prelude\<close>, \<open>Go_Text\<close>: what the code uses of Go: panics as values, 64-bit integers, channels with
    their blocking and closed cases, HTTP headers and response writers; decimal numbers and JSON objects
    as text, with a reader for them.
  \<^item> \<open>Util_Basic\<close>: \<open>util/atomic.go\<close>, \<open>set.go\<close>, \<open>errors.go\<close>, \<open>shuffle.go\<close>.
  \<^item> \<open>Packet_Reader\<close>: \<open>protocol/packet.go\<close> and \<open>reader.go\<close>; \<open>Fork_Reader\<close>: \<open>protocol/fork.go\<close>. The
    contract of a reader is the locale \<open>byte_source\<close>; a stream socket, the datagram reader and the
    reader of a child process are interpretations.
  \<^item> \<open>Access_Control\<close>: \<open>streaming/acl.go\<close>, with the locale \<open>connection_broker\<close> for what streamers rely on.
  \<^item> \<open>Stream_Connection\<close>: \<open>streaming/connection.go\<close>.
  \<^item> \<open>Streamer\<close>, \<open>Stream_System\<close>: \<open>streaming/streamer.go\<close>. The first has the pieces of the goroutines, the
    second the goroutines as a transition system: \<open>sys_step\<close> executes one atomic step of the command
    eater, a \<open>Stream\<close> call, a handler, the input or another streamer, \<open>reachable\<close> allows every
    interleaving. \<open>Stream_Steps\<close> has an elimination rule for every step, \<open>Stream_Safety\<close> the invariants,
    \<open>Stream_Delivery\<close> the one about what clients receive, \<open>Stream_Properties\<close> the theorems, \<open>Stream_Session\<close>
    the input of a streamer over several sessions.
  \<^item> \<open>Upstream_Client\<close>, \<open>Read_Timer\<close>: \<open>streaming/client.go\<close>. The connection loop, \<open>start\<close> and \<open>pull\<close>, whose
    effects are a list; the read timer as an interleaving of its own.
  \<^item> \<open>Cache_Proxy\<close>: \<open>streaming/proxy.go\<close>; \<open>State_Manager\<close>: \<open>streaming/manager.go\<close>.
  \<^item> \<open>Stats_Collector\<close>, \<open>Stats_Interface\<close>: \<open>metrics/stats.go\<close>. The interface of real and dummy statistics is
    the locale \<open>statistics_provider\<close>.
  \<^item> \<open>Auth_Users\<close>: \<open>auth/authentication.go\<close>, \<open>auth/httpauth.go\<close>, with the locale \<open>credential_store\<close> for both
    kinds of users; \<open>Config_Load\<close>: \<open>configuration/config.go\<close>.
  \<^item> \<open>Event_Queue\<close>: \<open>event/queue.go\<close>, \<open>heartbeat.go\<close>, \<open>urlhandler.go\<close>, with the locale \<open>notifiable\<close> for the interface in
    \<open>notifications.go\<close> that streamers and heartbeats use.
  \<^item> \<open>Api_Handlers\<close>: \<open>api/api.go\<close>; \<open>Log_Lines\<close> and \<open>File_Logger\<close>: \<open>util/log.go\<close>.
  \<^item> \<open>Program_Start\<close>: \<open>cmd/restreamer/restreamer.go\<close>, what \<open>main\<close> builds.
  \<^item> \<open>Server_System\<close>: the server at work, all components that \<open>main\<close> has connected in one transition system.
    \<open>server_step\<close> is one step of one streamer on the shared access controller, with its reports to the
    event queue and to the shared collector, or of the queue, the heartbeat, the statistics or an upstream.
    It is shown to simulate, for each streamer, the system of \<open>Stream_System\<close>. \<open>Server_Events\<close>,
    \<open>Server_Statistics\<close>, \<open>Server_Safety\<close> and \<open>Server_Session\<close> have what follows for the limits and the events, for
    the published numbers, for panics and for the input of the streams. \<open>Server_Http\<close> adds the requests to all
    registered handlers: streams, proxies with their caches, and the APIs.
  \<^item> \<open>Server_Upstream\<close>: the server together with its upstream clients. \<open>up_step\<close> is a turn of a connection
    loop, one effect of \<open>pull\<close>, a call of \<open>Stream\<close> in the goroutine that \<open>pull\<close> starts for it, or any other step of the
    server. \<open>Upstream_Feeding\<close> shows that it refines \<open>Server_System\<close>, with the packets the clients hand over as the
    input of the streams; \<open>Upstream_Progress\<close> shows what becomes of the clients.

  Structs are records, enumerations datatypes, an operation is a definition with the name of the Go
  function; where a name is taken the type comes first (\<open>Proxy_Shutdown\<close>). Pointers that are shared are
  addresses in a store. A panic is an \<open>Inl\<close>, a call or a goroutine that is blocked is \<open>None\<close>.

  \<^bold>\<open>What is shown.\<close>

  \<^item> Delivery: packets are read from any stream of bytes as specified, forwarded in order, and every client
    receives the preamble and then whole packets in order; \<open>end_to_end\<close> below puts the program start, the
    upstream clients, the streamers and the access controller together.
  \<^item> Server: every streamer behaves as it would alone; the limit holds for all streams together; the counter of the
    event queue and the published connections are the clients being served; calm runs do not panic. Requests that are not authorised
    are refused by every handler and leave no trace; the health API shows the clients being served.
  \<^item> Streamer: one loop at a time, the connection limit, balanced notifications, exact counters; requests are
    received and handlers finish; no panics in calm runs, and the runs that do panic.
  \<^item> Upstream: round robin over the servers, cleanup, the read timeout; clients of a running server never
    panic and are only held up by full queues; a connection that the streamer has refused hangs for ever.
  \<^item> Proxy: fresh replies, conditional requests, size limits. Authentication: who is let in, and that a
    removed login is refused. Events: limit events alternate. Statistics: totals are the sums of what was
    collected. Logging: every line is accounted for, and closing ends the logger. API: the JSON can be read
    back. Configuration: what a start builds from it.

  \<^bold>\<open>Loops and bounds.\<close> Loops over data are recursive functions with termination proofs. Loops over a reader
  (\<open>read_loop\<close>, \<open>pull_loop\<close>) may not end and are partial functions into \<open>option\<close>; for every \<open>byte_source\<close> they
  are shown to end. Goroutines are sequences of steps of any length; no fuel is used. Counters are words of
  64 bits, Go's \<open>int\<close> is an integer that wraps around at 64 bits; queue capacities are those of the
  configuration.

  \<^bold>\<open>Parameters.\<close> URL parsing, name resolution, opening files and sockets, HTTP requests, child processes, the
  JSON decoder of the configuration, JSON encoding of log lines, random numbers, time, the rate computation
  in floating point numbers and the order in which a Go map is visited are arguments of the definitions.

  \<^bold>\<open>Not modelled.\<close> \<open>metrics/prom.go\<close> and the Prometheus counters only call a third-party library and are
  never read; \<open>cmd/restreamer/profile.go\<close> and \<open>util/signal_*.go\<close> register handlers of the Go runtime; the
  \<open>logger.go\<close> files are constants for log lines, and log lines have no effect on the program. In \<open>Server_Upstream\<close>
  reading a source does not take time: the effects of a connection are fixed when it is made, the read timer is
  the subject of \<open>Read_Timer\<close>.
  The
  multiplexer of the HTTP server is not modelled; a request comes with the pattern it was dispatched to.
\<close>

section \<open>From the configuration to the clients\<close>

text \<open>
  C1. End to end. Take a program start that ends in serving and any run of the server it leaves behind with its
  upstream clients. All clients, streams, the event queue and the statistics do what they do, in any order. Then what any
  HTTP client of the stream at \<open>path\<close> has received is the preamble configured for this path, or nothing, followed
  by whole transport stream packets, which occur in this order in the bytes of the connections of
  the upstream client of this path that the streamer accepted, each connection being used once. And if the
  configuration has a limit, the connections of all streams together stay within it.\<close>

theorem end_to_end:
  assumes "main env (Inr (Inr config)) = Inr (ListenAndServe listen sv acl nt heartbeat)"
    and "up_reachable rate nw (up_init now sv acl nt) sys"
    and "byte_source (nw_reader nw) bytes_left invar" and "us_clients sys path = Some u" and "\<forall>src \<in> set (up_pulls u). invar src"
    and "sr_streams (us_server sys) path = Some s" and "sy_pc s h = Some pc" and "sy_conns s h = Some c"
  shows "\<exists>pre ds. rw_body (conn_writer c) = pre @ concat ds
     \<and> (pre = [] \<or> (\<exists>r \<in> set (Resources config). res_Type r = ''stream'' \<and> res_Serve r = path
          \<and> res_Preamble r \<noteq> [] \<and> pre = en_preamble env (res_Preamble r)))
     \<and> distinct (up_taken u) \<and> (\<forall>k \<in> set (up_taken u). k < length (up_pulls u))
     \<and> subseq ds (concat (map (\<lambda>k. packets_of (bytes_left (up_pulls u ! k))) (up_taken u))) \<and> (\<forall>d \<in> set ds. is_packet d)
     \<and> (Configuration.MaxConnections config \<noteq> 0 \<longrightarrow>
          places (us_server sys) \<le> unat (Configuration.MaxConnections config))"
proof -
  note m = main_Serve [OF assms(1)]
  have inv: "server_fed_reachable rate (server_init sv acl nt) (us_server sys) (handed sys)" "client_inv (nw_reader nw) u"
    using up_inv_reachable [OF assms(2) main_idle [OF assms(1)]] assms(4) by (simp_all add: up_inv_def clients_ok_def)
  note r = server_fed_reachable_reachable [OF inv(1)]
  obtain str where route: "map_of (sv_routes sv) path = Some (StreamRoute str)"
    and run: "reachable Accept Release str acl (view (us_server sys) path s)" using server_view [OF r assms(6)] by blast
  note str = served_streamer [OF m(1) map_of_SomeD [OF route]]
  have "sy_pc (view (us_server sys) path s) h = Some pc" "sy_conns (view (us_server sys) path s) h = Some c"
    using assms(7,8) by (simp_all add: view_def)
  from delivered_packets [OF run _ this] str(2) obtain pre ds
    where ds: "pre \<in> {[], str_preamble str}" "rw_body (conn_writer c) = pre @ concat ds"
      "prefix ds (sy_sent s h)" "subseq (sy_sent s h) (sy_seen s)" by (auto simp: view_def)
  have "handed sys path = handed_over u" using assms(4) by (simp add: handed_def)
  then have "input_inv s (handed_over u)"
    using inputs_ok_reachable [OF inv(1) main_idle [OF assms(1)]] assms(6) unfolding inputs_ok_def by metis
  then have "prefix (sy_seen s) (handed_over u)" unfolding input_inv_def by (metis prefixI)
  moreover have "subseq (handed_over u) (concat (map (\<lambda>k. packets_of (bytes_left (up_pulls u ! k))) (up_taken u)))"
    using handed_over_packets [OF inv(2) assms(3,5)] .
  ultimately have sub: "subseq ds (concat (map (\<lambda>k. packets_of (bytes_left (up_pulls u ! k))) (up_taken u)))"
    using ds(3,4) by (meson prefix_imp_subseq subseq_order.trans)
  then have "\<forall>d \<in> set ds. is_packet d"
    using packets_of_packets by (fastforce elim: list_emb_set)
  moreover have "pre = [] \<or> (\<exists>r \<in> set (Resources config). res_Type r = ''stream'' \<and> res_Serve r = path
      \<and> res_Preamble r \<noteq> [] \<and> pre = en_preamble env (res_Preamble r))"
    using ds(1) str(1) by (auto split: if_splits)
  moreover have "Configuration.MaxConnections config \<noteq> 0 \<longrightarrow> places (us_server sys) \<le> unat (Configuration.MaxConnections config)"
    using server_places r m(3) by blast
  moreover have "distinct (up_taken u) \<and> (\<forall>k \<in> set (up_taken u). k < length (up_pulls u))"
    using inv(2) by (simp add: client_inv_def taken_ok_def)
  ultimately show ?thesis using ds(2) sub by blast
qed

text \<open>A run of the server with two streams, in which a connection of the upstream client has one packet and an HTTP client takes it.\<close>

definition taking_actions :: "bytes list up_action list" where
  "taking_actions = connects [ts_packet 1] # client_steps 2 @ CallStream ''/a'' 0
     # map (Elsewhere \<circ> AtStream ''/a'') (EatStart 0 # join 0) @ client_steps 2
     @ map (Elsewhere \<circ> AtStream ''/a'') [LoopPacket 0 [0], Distribute 0, Distribute 0, ServeTurn 0 (TakePacket True)]"

lemma taking_value:
  "map_option (map_sum id (\<lambda>sys. (map_option (\<lambda>u. (up_pulls u, up_taken u)) (us_clients sys ''/a''),
       map_option (\<lambda>s. (sy_pc s 0, map_option (\<lambda>c. rw_body (conn_writer c)) (sy_conns s 0))) (sr_streams (us_server sys) ''/a''))))
     (up_run (\<lambda>n d. n) socket_net taking_actions feed_start)
     = Some (Inr (Some ([[ts_packet 1]], [0]), Some (Some HServe, Some (1 # 2 # ts_packet 1))))"
  by code_simp

theorem end_to_end_witness:
  "\<exists>listen sv acl nt hb sys u s c pre ds.
     main note_env (Inr (Inr feed_config) :: (unit + Configuration) go) = Inr (ListenAndServe listen sv acl nt hb)
     \<and> up_run (\<lambda>n d. n) socket_net taking_actions (up_init 0 sv acl nt) = Some (Inr sys)
     \<and> sr_streams (us_server sys) ''/a'' = Some s \<and> sy_conns s 0 = Some c
     \<and> rw_body (conn_writer c) = 1 # 2 # ts_packet 1 \<and> rw_body (conn_writer c) = pre @ concat ds
     \<and> subseq ds [ts_packet 1] \<and> places (us_server sys) \<le> 3"
proof -
  obtain listen sv acl nt hb where m: "main note_env (Inr (Inr feed_config) :: (unit + Configuration) go) = Inr (ListenAndServe listen sv acl nt hb)"
    "up_init 0 sv acl nt = feed_start" by (rule feed_main)
  obtain sys u s c where sys: "up_run (\<lambda>n d. n) socket_net taking_actions feed_start = Some (Inr sys)"
      "us_clients sys ''/a'' = Some u" "sr_streams (us_server sys) ''/a'' = Some s" "sy_pc s 0 = Some HServe" "sy_conns s 0 = Some c"
      "up_pulls u = [[ts_packet 1]]" "up_taken u = [0]" "rw_body (conn_writer c) = 1 # 2 # ts_packet 1"
    using run_value [OF taking_value] by auto
  have r: "up_reachable (\<lambda>n d. n) socket_net (up_init 0 sv acl nt) sys" using up_run_reachable [OF up_start sys(1)] m(2) by simp
  have pk: "packets_of (concat [ts_packet 1]) = [ts_packet 1]"
    using packets_of_aligned [of "[ts_packet 1]" "[]"] by (simp add: ts_packet_ok MpegTsPacketSize_def)
  have ok: "\<forall>src \<in> set (up_pulls u). [] \<notin> set src" using sys(6) by (simp add: ts_packet_def)
  have "byte_source (nw_reader socket_net) concat (\<lambda>cs. [] \<notin> set cs)"
    using stream_socket.byte_source_axioms by (simp add: socket_net_def)
  from end_to_end [OF m(1) r this sys(2) ok sys(3-5)] obtain pre ds
    where "rw_body (conn_writer c) = pre @ concat ds" "subseq ds [ts_packet 1]" "places (us_server sys) \<le> 3"
    using pk sys(6,7) by (auto simp: feed_config_def)
  then show ?thesis using m sys by metis
qed

end
